(* ===== verification/C_Prelude.thy ===== *)
theory C_Prelude
  imports Main "HOL-Library.Word"
begin

text \<open>
  The vocabulary the components share: the part of the C language and of its standard
  library that the programs use. Characters are \<open>char\<close> (eight bits), strings are lists of
  characters, \<open>uint8_t\<close> buffers are lists of 8-bit words. A C string is the text in front
  of the first NUL of its buffer (\<open>cstr\<close>). \<open>strtol\<close>, \<open>scanf\<close>, \<open>printf\<close> conversions, \<open>fgets\<close> and the
  \<open>ctype.h\<close> predicates follow the C standard in the "C" locale, with a 64-bit \<open>long\<close> and a
  32-bit \<open>int\<close> (the platforms the Makefiles and the disassembly in \<open>functions/crack.txt\<close> name).
\<close>

unbundle bit_operations_syntax

named_theorems c_simps \<open>facts about the C library the component proofs rewrite with\<close>

section \<open>Machine types\<close>

type_synonym u8 = "8 word"
type_synonym u16 = "16 word"
type_synonym u32 = "32 word"

text \<open>The conversion of a wider signed value to \<open>int\<close> (gcc: reduction modulo \<open>2 ^ 32\<close>).\<close>

definition to_int :: "int \<Rightarrow> int" where
  "to_int i = signed_take_bit 31 i"

definition INT_MAX :: int where "INT_MAX = 2147483647"
definition INT_MIN :: int where "INT_MIN = - 2147483648"

lemma to_int_id [c_simps]: "INT_MIN \<le> i \<Longrightarrow> i \<le> INT_MAX \<Longrightarrow> to_int i = i"
  unfolding to_int_def INT_MIN_def INT_MAX_def
  by (rule signed_take_bit_int_eq_self) simp_all

lemma to_int_range: "INT_MIN \<le> to_int i \<and> to_int i \<le> INT_MAX"
  using signed_take_bit_int_greater_eq_minus_exp [of 31 i] signed_take_bit_int_less_exp [of 31 i]
  by (simp add: to_int_def INT_MIN_def INT_MAX_def)

section \<open>Bytes of a word\<close>

definition hi8 :: "u16 \<Rightarrow> u8" where "hi8 w = ucast (drop_bit 8 w)"
definition lo8 :: "u16 \<Rightarrow> u8" where "lo8 w = ucast w"

text \<open>\<open>(uint16_t)((p[0] << 8) | p[1])\<close>: two bytes read as a big-endian 16-bit number.\<close>

definition be16 :: "u8 \<Rightarrow> u8 \<Rightarrow> u16" where
  "be16 a b = push_bit 8 (ucast a) OR ucast b"

text \<open>
  A 16-bit field of a structure as the little-endian host lays it out in memory, the value the
  host reads back from two bytes of memory, and the byte swap of \<open>htons\<close> and \<open>ntohs\<close>.
\<close>

definition le16_bytes :: "u16 \<Rightarrow> u8 list" where "le16_bytes w = [lo8 w, hi8 w]"
definition le16 :: "u8 \<Rightarrow> u8 \<Rightarrow> u16" where "le16 a b = be16 b a"
definition htons :: "u16 \<Rightarrow> u16" where "htons w = be16 (lo8 w) (hi8 w)"

lemma hi8_be16 [c_simps, simp]: "hi8 (be16 a b) = a"
  unfolding hi8_def be16_def by (rule bit_word_eqI) (auto simp: bit_simps dest: bit_imp_le_length)

lemma lo8_be16 [c_simps, simp]: "lo8 (be16 a b) = b"
  unfolding lo8_def be16_def by (rule bit_word_eqI) (auto simp: bit_simps)

lemma be16_hi8_lo8 [c_simps, simp]: "be16 (hi8 w) (lo8 w) = w"
  unfolding hi8_def lo8_def be16_def
  by (rule bit_word_eqI) (auto simp: bit_simps dest: bit_imp_le_length)

lemma be16_inject [simp]: "be16 a b = be16 c d \<longleftrightarrow> a = c \<and> b = d"
  by (metis hi8_be16 lo8_be16)

lemma htons_htons [simp]: "htons (htons w) = w"
  by (simp add: htons_def)

lemma le16_bytes_htons [simp]: "le16_bytes (htons w) = [hi8 w, lo8 w]"
  by (simp add: htons_def le16_bytes_def)

lemma htons_le16 [simp]: "htons (le16 a b) = be16 a b"
  by (simp add: htons_def le16_def)

lemma le16_lo8_hi8 [simp]: "le16 (lo8 w) (hi8 w) = w"
  by (simp add: le16_def)

lemma unat_be16: "unat (be16 a b) = 256 * unat a + unat b"
proof -
  have "push_bit 8 (ucast a) AND (ucast b :: u16) = 0"
    by (rule bit_word_eqI) (auto simp: bit_simps dest: bit_imp_le_length)
  then have "be16 a b = push_bit 8 (ucast a) + ucast b"
    by (simp add: be16_def disjunctive_add_eq_or)
  also have "\<dots> = word_of_nat (256 * unat a + unat b)"
    by (simp add: push_bit_eq_mult mult.commute)
  finally have "be16 a b = word_of_nat (256 * unat a + unat b)" .
  then have "unat (be16 a b) = (256 * unat a + unat b) mod 65536"
    by (simp only: unsigned_of_nat take_bit_eq_mod) simp
  moreover have "256 * unat a + unat b < 65536"
    using unsigned_less [of a, where ?'a = nat] unsigned_less [of b, where ?'a = nat] by simp
  ultimately show ?thesis by simp
qed

lemma unat_ucast_u16_u32 [c_simps, simp]: "unat (ucast (w :: u16) :: u32) = unat w"
  using unsigned_less [of w, where ?'a = nat]
  by (simp add: unsigned_ucast_eq take_bit_nat_eq_self)

lemma unat_ucast_u8_u16 [c_simps, simp]: "unat (ucast (w :: u8) :: u16) = unat w"
  using unsigned_less [of w, where ?'a = nat]
  by (simp add: unsigned_ucast_eq take_bit_nat_eq_self)

lemma unat_word_of_nat_u16 [c_simps]: "n < 65536 \<Longrightarrow> unat (word_of_nat n :: u16) = n"
  by (simp add: unsigned_of_nat take_bit_nat_eq_self)

lemma unat_NOT_u16: "unat (NOT w) = 65535 - unat (w :: u16)"
proof -
  have "uint (NOT w) = 65535 - uint w"
    using unsigned_less [of w, where ?'a = int]
    by (simp add: unsigned_not_eq take_bit_not_eq_mask_diff mask_eq_exp_minus_1 take_bit_int_eq_self)
  then have "int (unat (NOT w)) = 65535 - int (unat w)" by simp
  then show ?thesis by linarith
qed

text \<open>The bytes of a 32-bit field of a structure on the little-endian host.\<close>

definition le32_bytes :: "u32 \<Rightarrow> u8 list" where
  "le32_bytes w = [ucast w, ucast (drop_bit 8 w), ucast (drop_bit 16 w), ucast (drop_bit 24 w)]"

definition le32 :: "u8 \<Rightarrow> u8 \<Rightarrow> u8 \<Rightarrow> u8 \<Rightarrow> u32" where
  "le32 a b c d =
     ucast a OR push_bit 8 (ucast b) OR push_bit 16 (ucast c) OR push_bit 24 (ucast d)"

lemma length_le32_bytes [simp]: "length (le32_bytes w) = 4"
  by (simp add: le32_bytes_def)

lemma length_le16_bytes [simp]: "length (le16_bytes w) = 2"
  by (simp add: le16_bytes_def)

lemma le32_le32_bytes [c_simps]:
  "le32 (ucast w) (ucast (drop_bit 8 w)) (ucast (drop_bit 16 w)) (ucast (drop_bit 24 w)) = w"
  unfolding le32_def
proof (rule bit_word_eqI, goal_cases)
  case (1 n)
  then consider "n < 8" | "8 \<le> n" "n < 16" | "16 \<le> n" "n < 24" | "24 \<le> n" "n < 32"
    by fastforce
  then show ?case
    by cases (auto simp: bit_simps)
qed

section \<open>Characters and C strings\<close>

definition isspace :: "char \<Rightarrow> bool" where
  "isspace c = (let n = (of_char c :: nat) in n = 32 \<or> (9 \<le> n \<and> n \<le> 13))"

definition isdigit :: "char \<Rightarrow> bool" where
  "isdigit c = (let n = (of_char c :: nat) in 48 \<le> n \<and> n \<le> 57)"

definition NUL :: char where "NUL = CHR 0x00"
definition NL :: char where "NL = CHR 0x0A"

text \<open>The string a buffer holds: what stands before its first NUL.\<close>

definition cstr :: "string \<Rightarrow> string" where
  "cstr s = takeWhile (\<lambda>c. c \<noteq> NUL) s"

lemma cstr_id [c_simps]: "NUL \<notin> set s \<Longrightarrow> cstr s = s"
  by (auto simp: cstr_def takeWhile_eq_all_conv)

lemma cstr_append_NUL [c_simps]: "NUL \<notin> set s \<Longrightarrow> cstr (s @ NUL # t) = s"
  by (simp add: cstr_def takeWhile_append)

lemma NUL_notin_cstr [simp]: "NUL \<notin> set (cstr s)"
  by (auto simp: cstr_def dest: set_takeWhileD)

text \<open>\<open>strncmp(s, t, n) == 0\<close> for C strings: equal in their first \<open>n\<close> characters.\<close>

definition strncmp_eq :: "string \<Rightarrow> string \<Rightarrow> nat \<Rightarrow> bool" where
  "strncmp_eq s t n = (take n (cstr s) = take n (cstr t))"

text \<open>What \<open>snprintf\<close> leaves in a buffer of \<open>cap\<close> bytes, before its NUL.\<close>

definition snprintf_buf :: "nat \<Rightarrow> string \<Rightarrow> string" where
  "snprintf_buf cap s = take (cap - 1) s"

text \<open>The bytes of a string in memory.\<close>

definition bytes_of :: "string \<Rightarrow> u8 list" where "bytes_of s = map of_char s"

lemma bytes_of_simps [simp]:
  "bytes_of [] = []" "bytes_of (c # s) = of_char c # bytes_of s"
  "bytes_of (s @ t) = bytes_of s @ bytes_of t" "length (bytes_of s) = length s"
  by (simp_all add: bytes_of_def)

lemma unat_of_char_u8 [simp]: "unat (of_char c :: u8) = of_char c"
proof -
  have "(of_char c :: u8) = word_of_nat (of_char c)"
    by (simp only: of_nat_of_char)
  then show ?thesis
    using nat_of_char_less_256 [of c] by (simp only: unsigned_of_nat take_bit_nat_eq_self) (simp add: take_bit_nat_eq_self)
qed

lemma of_char_u8_inject [simp]: "(of_char c :: u8) = of_char d \<longleftrightarrow> c = d"
  by (simp add: word_unat_eq_iff)

lemma bytes_of_inject [simp]: "bytes_of s = bytes_of t \<longleftrightarrow> s = t"
  unfolding bytes_of_def by (rule inj_map_eq_map) (simp add: inj_def)

lemma zero_in_bytes_of [simp]: "0 \<in> set (bytes_of s) \<longleftrightarrow> NUL \<in> set s"
proof -
  have z: "(0 :: u8) = of_char NUL" by (simp add: NUL_def)
  show ?thesis unfolding z by (auto simp: bytes_of_def)
qed

section \<open>Decimal numbers\<close>

definition digit_char :: "nat \<Rightarrow> char" where "digit_char d = char_of (48 + d)"
definition digit_val :: "char \<Rightarrow> nat" where "digit_val c = of_char c - 48"

text \<open>The conversions \<open>%u\<close> and \<open>%d\<close> of \<open>printf\<close>.\<close>

fun show_nat :: "nat \<Rightarrow> string" where
  "show_nat n = (if n < 10 then [digit_char n] else show_nat (n div 10) @ [digit_char (n mod 10)])"

declare show_nat.simps [simp del]

definition show_int :: "int \<Rightarrow> string" where
  "show_int i = (if i < 0 then CHR ''-'' # show_nat (nat (- i)) else show_nat (nat i))"

text \<open>The digits \<open>strtol\<close> reads, and what it leaves unread.\<close>

fun read_digits :: "nat \<Rightarrow> string \<Rightarrow> nat \<times> string" where
  "read_digits acc [] = (acc, [])"
| "read_digits acc (c # cs) =
     (if isdigit c then read_digits (10 * acc + digit_val c) cs else (acc, c # cs))"

definition LONG_MAX :: int where "LONG_MAX = 9223372036854775807"
definition LONG_MIN :: int where "LONG_MIN = - 9223372036854775808"

text \<open>
  \<open>strtol(s, &end, 10)\<close>: \<open>None\<close> when there is no number to read (then \<open>end == s\<close> and the value
  is 0), otherwise the value, held to the range of \<open>long\<close>, and the text from \<open>end\<close> on.
\<close>

definition strtol :: "string \<Rightarrow> (int \<times> string) option" where
  "strtol s =
     (let s1 = dropWhile isspace s;
          neg = (s1 \<noteq> [] \<and> hd s1 = CHR ''-'');
          s2 = (if s1 \<noteq> [] \<and> (hd s1 = CHR ''-'' \<or> hd s1 = CHR ''+'') then tl s1 else s1)
      in if s2 = [] \<or> \<not> isdigit (hd s2) then None
         else (let (n, rest) = read_digits 0 s2; v = (if neg then - int n else int n)
               in Some (max LONG_MIN (min LONG_MAX v), rest)))"

definition strtol_val :: "string \<Rightarrow> int" where
  "strtol_val s = (case strtol s of None \<Rightarrow> 0 | Some (v, _) \<Rightarrow> v)"

definition atoi :: "string \<Rightarrow> int" where "atoi s = to_int (strtol_val s)"

lemma isdigit_digit_char [simp]: "d < 10 \<Longrightarrow> isdigit (digit_char d)"
  by (simp add: isdigit_def digit_char_def)

lemma digit_val_digit_char [simp]: "d < 10 \<Longrightarrow> digit_val (digit_char d) = d"
  by (simp add: digit_val_def digit_char_def)

lemma isdigit_not_isspace: "isdigit c \<Longrightarrow> \<not> isspace c"
  by (auto simp: isdigit_def isspace_def Let_def)

lemma isdigit_not_NUL: "isdigit c \<Longrightarrow> c \<noteq> NUL"
  by (auto simp: isdigit_def NUL_def)

lemma isdigit_not_sign: "isdigit c \<Longrightarrow> c \<noteq> CHR ''-'' \<and> c \<noteq> CHR ''+''"
  by (auto simp: isdigit_def)

lemma show_nat_nonempty [simp]: "show_nat n \<noteq> []"
  by (subst show_nat.simps) simp

lemma show_nat_digits: "c \<in> set (show_nat n) \<Longrightarrow> isdigit c"
proof (induction n rule: show_nat.induct)
  case (1 n)
  then show ?case
    by (subst (asm) (2) show_nat.simps) (auto split: if_splits)
qed

lemma NUL_notin_show_nat [simp]: "NUL \<notin> set (show_nat n)"
  using show_nat_digits isdigit_not_NUL by blast

lemma NUL_notin_show_int [simp]: "NUL \<notin> set (show_int i)"
  by (simp add: show_int_def NUL_def [symmetric]) (simp add: NUL_def)

lemma read_digits_append:
  "\<forall>c \<in> set ds. isdigit c \<Longrightarrow>
     read_digits acc (ds @ rest) = read_digits (fst (read_digits acc ds)) rest"
  by (induction ds arbitrary: acc) auto

lemma read_digits_stop [simp]:
  "rest = [] \<or> \<not> isdigit (hd rest) \<Longrightarrow> read_digits acc rest = (acc, rest)"
  by (cases rest) auto

lemma read_digits_show_nat: "read_digits 0 (show_nat n) = (n, [])"
proof (induction n rule: show_nat.induct)
  case (1 n)
  show ?case
  proof (cases "n < 10")
    case True
    then show ?thesis by (subst show_nat.simps) simp
  next
    case False
    with 1 have "read_digits 0 (show_nat (n div 10)) = (n div 10, [])" by simp
    moreover have "\<forall>c \<in> set (show_nat (n div 10)). isdigit c"
      using show_nat_digits by blast
    ultimately show ?thesis
      using False by (subst show_nat.simps) (simp add: read_digits_append)
  qed
qed

lemma read_digits_show_nat_rest [c_simps]:
  assumes "rest = [] \<or> \<not> isdigit (hd rest)"
  shows "read_digits 0 (show_nat n @ rest) = (n, rest)"
proof -
  have "\<forall>c \<in> set (show_nat n). isdigit c"
    using show_nat_digits by blast
  then show ?thesis
    using assms by (simp add: read_digits_append read_digits_show_nat)
qed

lemma hd_show_nat_digit: "isdigit (hd (show_nat n))"
  using show_nat_digits [of "hd (show_nat n)" n] by simp

lemma dropWhile_show_nat [simp]: "dropWhile isspace (show_nat n @ rest) = show_nat n @ rest"
  using hd_show_nat_digit [of n] isdigit_not_isspace
  by (cases "show_nat n") auto

lemma isspace_minus [simp]: "\<not> isspace (CHR ''-'')" "\<not> isspace (CHR ''+'')"
  by (simp_all add: isspace_def)

text \<open>\<open>strtol\<close> reads back what \<open>%d\<close> printed, whatever follows that is no digit.\<close>

lemma strtol_show_int [c_simps]:
  assumes "LONG_MIN \<le> i" "i \<le> LONG_MAX" and rest: "rest = [] \<or> \<not> isdigit (hd rest)"
  shows "strtol (show_int i @ rest) = Some (i, rest)"
proof (cases "i < 0")
  case True
  have "isdigit (hd (show_nat (nat (- i)) @ rest))"
    using hd_show_nat_digit by simp
  with True assms show ?thesis
    by (simp add: strtol_def show_int_def read_digits_show_nat_rest)
next
  case False
  have d: "isdigit (hd (show_nat (nat i) @ rest))"
    using hd_show_nat_digit by simp
  with isdigit_not_sign have "hd (show_nat (nat i)) \<noteq> CHR ''-''" "hd (show_nat (nat i)) \<noteq> CHR ''+''"
    by force+
  with d False assms show ?thesis
    by (simp add: strtol_def show_int_def read_digits_show_nat_rest)
qed

lemma strtol_skip_space [c_simps]: "isspace c \<Longrightarrow> strtol (c # s) = strtol s"
  by (simp add: strtol_def)

lemma strtol_dropWhile [simp]: "strtol (dropWhile isspace s) = strtol s"
  by (simp add: strtol_def)

lemma show_nat_length: "n < 10 ^ k \<Longrightarrow> 0 < k \<Longrightarrow> length (show_nat n) \<le> k"
proof (induction n arbitrary: k rule: show_nat.induct)
  case (1 n)
  show ?case
  proof (cases "n < 10")
    case True
    with 1 show ?thesis by (subst show_nat.simps) simp
  next
    case False
    then obtain k' where k: "k = Suc k'" "0 < k'"
      using "1.prems" by (cases k; cases "k - 1") auto
    with "1.prems" have "n div 10 < 10 ^ k'" by (simp add: less_mult_imp_div_less mult.commute)
    with 1 False k have "length (show_nat (n div 10)) \<le> k'" by simp
    with False k show ?thesis by (subst show_nat.simps) simp
  qed
qed

section \<open>Reading standard input\<close>

text \<open>
  \<open>fgets(buf, n, stdin)\<close>: up to and including the first newline, at most \<open>n - 1\<close> characters;
  \<open>None\<close> is the NULL returned at the end of the input. The result is the text in front of the
  terminating NUL and the rest of the input.
\<close>

fun fgets_take :: "nat \<Rightarrow> string \<Rightarrow> string \<times> string" where
  "fgets_take 0 s = ([], s)"
| "fgets_take (Suc k) [] = ([], [])"
| "fgets_take (Suc k) (c # s) =
     (if c = NL then ([c], s) else (let (l, r) = fgets_take k s in (c # l, r)))"

definition fgets :: "nat \<Rightarrow> string \<Rightarrow> (string \<times> string) option" where
  "fgets n s = (if s = [] then None else Some (fgets_take (n - 1) s))"

lemma fgets_take_append: "fgets_take k s = (l, r) \<Longrightarrow> s = l @ r"
  by (induction k s arbitrary: l r rule: fgets_take.induct) (auto split: if_splits prod.splits)

lemma fgets_take_length: "fgets_take k s = (l, r) \<Longrightarrow> length l \<le> k"
  by (induction k s arbitrary: l r rule: fgets_take.induct) (auto split: if_splits prod.splits)

lemma fgets_shorter:
  assumes "fgets n s = Some (l, r)" "2 \<le> n"
  shows "length r < length s"
proof -
  have "s \<noteq> []" and take: "fgets_take (n - 1) s = (l, r)" using assms(1) by (auto simp: fgets_def split: if_splits)
  then obtain c s' k where "s = c # s'" "n - 1 = Suc k" using assms(2) by (cases s; cases "n - 1") auto
  with take have "l \<noteq> []" by (auto split: if_splits prod.splits)
  with fgets_take_append [OF take] show ?thesis by simp
qed

lemma fgets_take_line [c_simps]:
  "NL \<notin> set l \<Longrightarrow> length l < k \<Longrightarrow> fgets_take k (l @ NL # s) = (l @ [NL], s)"
proof (induction l arbitrary: k)
  case Nil
  then show ?case by (cases k) auto
next
  case (Cons a l)
  then show ?case by (cases k) auto
qed

text \<open>
  \<open>scanf("%s", \<dots>)\<close> skips white space and reads a word; \<open>None\<close> at the end of the input.
  \<open>scanf("%d", \<dots>)\<close> reads an integer as \<open>strtol\<close> does and converts it to \<open>int\<close>; on a matching
  failure it stores nothing and leaves the offending character unread (a sign in front of it is read).
\<close>

definition scanf_s :: "string \<Rightarrow> (string \<times> string) option" where
  "scanf_s s =
     (let s1 = dropWhile isspace s; w = takeWhile (\<lambda>c. \<not> isspace c) s1
      in if s1 = [] then None else Some (w, dropWhile (\<lambda>c. \<not> isspace c) s1))"

definition scanf_d :: "string \<Rightarrow> int option \<times> string" where
  "scanf_d s =
     (case strtol s of
        Some (v, rest) \<Rightarrow> (Some (to_int v), rest)
      | None \<Rightarrow>
          (let s1 = dropWhile isspace s
           in (None, if s1 \<noteq> [] \<and> (hd s1 = CHR ''-'' \<or> hd s1 = CHR ''+'') then tl s1 else s1)))"

lemma scanf_d_show_int [c_simps]:
  assumes "INT_MIN \<le> i" "i \<le> INT_MAX" "rest = [] \<or> \<not> isdigit (hd rest)"
  shows "scanf_d (show_int i @ rest) = (Some i, rest)"
proof -
  have "LONG_MIN \<le> i" "i \<le> LONG_MAX"
    using assms by (simp_all add: INT_MIN_def INT_MAX_def LONG_MIN_def LONG_MAX_def)
  then show ?thesis
    using assms by (simp add: scanf_d_def strtol_show_int to_int_id)
qed

lemma scanf_s_word [c_simps]:
  assumes "w \<noteq> []" "\<forall>c \<in> set w. \<not> isspace c" "isspace c"
  shows "scanf_s (w @ c # rest) = Some (w, c # rest)"
proof -
  have "dropWhile isspace (w @ c # rest) = w @ c # rest"
    using assms by (cases w) auto
  moreover have "takeWhile (\<lambda>c. \<not> isspace c) (w @ c # rest) = w"
    using assms by (simp add: takeWhile_append)
  moreover have "dropWhile (\<lambda>c. \<not> isspace c) (w @ c # rest) = c # rest"
    using assms by (simp add: dropWhile_append)
  ultimately show ?thesis
    using assms by (simp add: scanf_s_def)
qed

lemma scanf_d_skip_space [c_simps]: "isspace c \<Longrightarrow> scanf_d (c # s) = scanf_d s"
  by (simp add: scanf_d_def strtol_skip_space split: option.split)

lemma scanf_s_skip_space [c_simps]: "isspace c \<Longrightarrow> scanf_s (c # s) = scanf_s s"
  by (simp add: scanf_s_def)

lemma isspace_NL [simp]: "isspace NL"
  by (simp add: isspace_def NL_def)

lemma isdigit_NL [simp]: "\<not> isdigit NL"
  by (simp add: isdigit_def NL_def)

lemma scanf_d_empty [simp]: "scanf_d [] = (None, [])"
  by (simp add: scanf_d_def strtol_def)

lemma scanf_s_empty [simp]: "scanf_s [] = None"
  by (simp add: scanf_s_def)

text \<open>\<open>scanf("%d", &v)\<close>: without a number \<open>v\<close> keeps its value.\<close>

definition scan_number :: "int \<Rightarrow> string \<Rightarrow> int \<times> string" where
  "scan_number old stdin =
     (case scanf_d stdin of (None, rest) \<Rightarrow> (old, rest) | (Some v, rest) \<Rightarrow> (v, rest))"

lemma scan_number_typed:
  assumes "INT_MIN \<le> i" "i \<le> INT_MAX"
  shows "scan_number old (NL # show_int i @ NL # rest) = (i, NL # rest)"
  using assms by (simp add: scan_number_def scanf_d_skip_space scanf_d_show_int)

lemma scan_number_end [simp]: "scan_number old [] = (old, [])"
  by (simp add: scan_number_def)

lemma show_int_no_space: "\<forall>c \<in> set (show_int i). \<not> isspace c"
  using show_nat_digits isdigit_not_isspace by (auto simp: show_int_def)

lemma show_int_nonempty [simp]: "show_int i \<noteq> []"
  by (simp add: show_int_def)

lemma strtol_val_show_int: "INT_MIN \<le> i \<Longrightarrow> i \<le> INT_MAX \<Longrightarrow> strtol_val (show_int i) = i"
  using strtol_show_int [of i "[]"]
  by (simp add: strtol_val_def INT_MIN_def INT_MAX_def LONG_MIN_def LONG_MAX_def)

lemma isspace_blank [simp]: "isspace CHR '' ''"
  by (simp add: isspace_def)

lemma cstr_line: "NUL \<notin> set l \<Longrightarrow> cstr (l @ [NL]) = l @ [NL]"
  by (rule cstr_id) (simp add: NUL_def NL_def)

lemma show_int_length: "0 \<le> t \<Longrightarrow> t \<le> INT_MAX \<Longrightarrow> length (show_int t) \<le> 10"
  using show_nat_length [of "nat t" 10] by (simp add: show_int_def INT_MAX_def)

text \<open>
  \<open>scanf("%u", &v)\<close> and \<open>scanf("%hhu", &v)\<close>: the number \<open>strtoul\<close> reads, a sign allowed, reduced to
  the width of the variable.
\<close>

definition strtoul :: "string \<Rightarrow> (int \<times> string) option" where
  "strtoul s =
     (let s1 = dropWhile isspace s;
          neg = (s1 \<noteq> [] \<and> hd s1 = CHR ''-'');
          s2 = (if s1 \<noteq> [] \<and> (hd s1 = CHR ''-'' \<or> hd s1 = CHR ''+'') then tl s1 else s1)
      in if s2 = [] \<or> \<not> isdigit (hd s2) then None
         else (let (n, rest) = read_digits 0 s2
               in Some (if 18446744073709551616 \<le> n then 18446744073709551615
                        else if neg then - int n else int n, rest)))"

definition scan_unsigned :: "'a::len word \<Rightarrow> string \<Rightarrow> 'a word \<times> string" where
  "scan_unsigned old stdin =
     (case strtoul stdin of
        Some (v, rest) \<Rightarrow> (word_of_int v, rest)
      | None \<Rightarrow> (old, snd (scanf_d stdin)))"

end
