(* ===== verification/Checksum.thy ===== *)
theory Checksum
  imports C_Prelude
begin

text \<open>
  \<open>echo_raw/src/checksum.c\<close>: the Internet checksum over a byte buffer
  (\<open>rawudp_checksum16\<close>) and the UDP checksum with its pseudo header
  (\<open>rawudp_udp_checksum\<close>). The reference is the ones' complement sum of RFC 1071 on natural
  numbers: \<open>word_sum\<close> adds the big-endian 16-bit words, \<open>fold16\<close> brings a sum back to 16 bits.
\<close>

section \<open>The code\<close>

record in_addr =
  s_addr :: u32  \<comment> \<open>in network byte order, as the structure holds it\<close>

text \<open>The loop over pairs of bytes, and the odd byte after it, on a \<open>uint32_t\<close>.\<close>

fun sum16 :: "u32 \<Rightarrow> u8 list \<Rightarrow> u32" where
  "sum16 sm (a # b # p) = sum16 (sm + ucast (be16 a b)) p"
| "sum16 sm [a] = sm + ucast (push_bit 8 (ucast a) :: u16)"
| "sum16 sm [] = sm"

text \<open>\<open>while (sum >> 16) sum = (sum & 0xFFFFu) + (sum >> 16);\<close>\<close>

lemma carry_decreases:
  fixes s :: u32
  assumes "drop_bit 16 s \<noteq> 0"
  shows "unat ((s AND 0xFFFF) + drop_bit 16 s) = unat s mod 65536 + unat s div 65536"
    and "unat ((s AND 0xFFFF) + drop_bit 16 s) < unat s"
proof -
  have m: "(s AND 0xFFFF) = take_bit 16 s"
    by (simp add: take_bit_eq_mask mask_eq_exp_minus_1)
  have l: "unat (take_bit 16 s) = unat s mod 65536"
    unfolding unsigned_take_bit_eq by (simp add: take_bit_eq_mod)
  have h: "unat (drop_bit 16 s) = unat s div 65536"
    unfolding unat_drop_bit_eq by (simp add: drop_bit_eq_div)
  have b: "unat s < 4294967296"
    using unsigned_less [of s, where ?'a = nat] by simp
  then have "unat s div 65536 < 65536" and "unat s mod 65536 < 65536"
    by (simp_all add: less_mult_imp_div_less)
  then have "unat s mod 65536 + unat s div 65536 < 4294967296"
    by linarith
  then show *: "unat ((s AND 0xFFFF) + drop_bit 16 s) = unat s mod 65536 + unat s div 65536"
    by (simp add: m unat_word_ariths l h)
  have "unat s div 65536 \<noteq> 0"
    using assms h by (metis unsigned_eq_0_iff)
  then show "unat ((s AND 0xFFFF) + drop_bit 16 s) < unat s"
    unfolding * using mult_div_mod_eq [of 65536 "unat s"] by linarith
qed

function fold_carry :: "u32 \<Rightarrow> u32" where
  "fold_carry s = (if drop_bit 16 s \<noteq> 0 then fold_carry ((s AND 0xFFFF) + drop_bit 16 s) else s)"
  by pat_completeness auto
termination
  by (relation "measure unat") (simp_all add: carry_decreases(2))

declare fold_carry.simps [simp del]

definition rawudp_checksum16 :: "u8 list \<Rightarrow> u16" where
  "rawudp_checksum16 data = ucast (NOT (fold_carry (sum16 0 data)))"

text \<open>The bytes of \<open>struct pseudo\<close> on the little-endian host.\<close>

definition pseudo_bytes :: "in_addr \<Rightarrow> in_addr \<Rightarrow> nat \<Rightarrow> u8 list" where
  "pseudo_bytes src dst udp_len =
     le32_bytes (s_addr src) @ le32_bytes (s_addr dst) @ [0, 17] @
     le16_bytes (htons (word_of_nat udp_len))"

definition rawudp_udp_checksum :: "in_addr \<Rightarrow> in_addr \<Rightarrow> u8 list \<Rightarrow> u16" where
  "rawudp_udp_checksum src dst udp =
     (let c1 = rawudp_checksum16 (pseudo_bytes src dst (length udp));
          sm = 0 + ucast (NOT c1);
          res = ucast (NOT (fold_carry (sum16 sm udp)))
      in if res = 0 then 0xFFFF else res)"

section \<open>The reference: ones' complement sums\<close>

fun word_sum :: "u8 list \<Rightarrow> nat" where
  "word_sum (a # b # p) = unat (be16 a b) + word_sum p"
| "word_sum [a] = 256 * unat a"
| "word_sum [] = 0"

definition fold16 :: "nat \<Rightarrow> nat" where
  "fold16 s = (if s = 0 then 0 else Suc ((s - 1) mod 65535))"

lemma fold16_le [simp]: "fold16 s \<le> 65535"
  by (simp add: fold16_def Suc_le_eq)

lemma fold16_less [simp]: "fold16 s < 65536"
  using fold16_le [of s] by linarith

lemma fold16_mod [c_simps]: "fold16 s mod 65535 = s mod 65535"
  by (cases s) (simp_all add: fold16_def mod_simps)

lemma fold16_0_iff [simp]: "fold16 s = 0 \<longleftrightarrow> s = 0"
  by (simp add: fold16_def)

lemma fold16_small [c_simps]: "s \<le> 65535 \<Longrightarrow> fold16 s = s"
  by (simp add: fold16_def)

text \<open>\<open>fold16\<close> is fixed by the residue modulo 65535 and by whether the sum is 0.\<close>

lemma add_mod_cancel: "(a + x) mod m = (a + y) mod m \<longleftrightarrow> x mod m = (y :: nat) mod m"
proof (induction x y rule: linorder_wlog)
  case (le x y)
  then show ?case
    using mod_eq_dvd_iff_nat [of x y m] mod_eq_dvd_iff_nat [of "a + x" "a + y" m] by auto
next
  case (sym x y)
  then show ?case by auto
qed

lemma Suc_mod_cancel: "Suc a mod m = Suc b mod m \<Longrightarrow> a mod m = b mod m"
  using add_mod_cancel [of 1 a m b] by simp

lemma fold16_cong: "s mod 65535 = t mod 65535 \<Longrightarrow> (s = 0 \<longleftrightarrow> t = 0) \<Longrightarrow> fold16 s = fold16 t"
  by (cases s; cases t) (auto simp: fold16_def dest: Suc_mod_cancel)

lemma fold16_carry: "fold16 (s mod 65536 + s div 65536) = fold16 s"
proof (rule fold16_cong)
  have s: "s = s mod 65536 + s div 65536 + 65535 * (s div 65536)"
    using mult_div_mod_eq [of 65536 s] by linarith
  show "(s mod 65536 + s div 65536) mod 65535 = s mod 65535"
    by (subst (3) s) (simp only: mod_mult_self2)
  show "s mod 65536 + s div 65536 = 0 \<longleftrightarrow> s = 0"
    using s by auto
qed

lemma fold16_add [c_simps]: "fold16 (fold16 s + t) = fold16 (s + t)"
  by (rule fold16_cong) (metis fold16_mod mod_add_left_eq, simp)

lemma fold16_eq_max_iff: "fold16 s = 65535 \<longleftrightarrow> s \<noteq> 0 \<and> s mod 65535 = 0"
  by (cases s) (auto simp: fold16_def mod_Suc)

lemma word_sum_append [c_simps]:
  "even (length xs) \<Longrightarrow> word_sum (xs @ ys) = word_sum xs + word_sum ys"
  by (induction xs rule: word_sum.induct) auto

lemma word_sum_le: "word_sum xs \<le> 65535 * ((length xs + 1) div 2)"
proof (induction xs rule: word_sum.induct)
  case (1 a b p)
  have "unat (be16 a b) \<le> 65535"
    using unsigned_less [of "be16 a b", where ?'a = nat] by simp
  with 1 show ?case by simp
next
  case (2 a)
  show ?case using unsigned_less [of a, where ?'a = nat] by simp
qed simp

section \<open>The code computes the reference\<close>

lemma unat_fold_carry: "unat (fold_carry s) = fold16 (unat s)"
proof (induction s rule: fold_carry.induct)
  case (1 s)
  show ?case
  proof (cases "drop_bit 16 s = 0")
    case True
    then have "drop_bit 16 (unat s) = 0"
      by (metis unat_drop_bit_eq unsigned_0)
    then have "unat s < 65536"
      by (simp add: drop_bit_eq_div)
    with True show ?thesis
      by (subst fold_carry.simps) (simp add: fold16_small)
  next
    case False
    with 1 show ?thesis
      by (subst fold_carry.simps) (simp add: carry_decreases(1) fold16_carry)
  qed
qed

text \<open>
  \<open>sum\<close> is a \<open>uint32_t\<close>: 65537 words of at most \<open>0xFFFF\<close> still fit, so up to 131074 bytes are
  added without losing a carry.
\<close>

lemma unat_sum16:
  "unat sm + word_sum data < 2 ^ 32 \<Longrightarrow> unat (sum16 sm data) = unat sm + word_sum data"
proof (induction sm data rule: sum16.induct)
  case (1 sm a b p)
  then have "unat (sm + ucast (be16 a b)) = unat sm + unat (be16 a b)"
    by (simp add: unat_word_ariths)
  with 1 show ?case by simp
next
  case (2 sm a)
  have "push_bit 8 (ucast a :: u16) = be16 a 0"
    by (simp add: be16_def)
  then have "unat (push_bit 8 (ucast a :: u16)) = 256 * unat a"
    by (simp only: unat_be16) simp
  with 2 show ?case
    by (simp add: unat_word_ariths)
qed simp

lemma unat_complement16:
  fixes f :: u32
  assumes "unat f < 65536"
  shows "unat (ucast (NOT f) :: u16) = 65535 - unat f"
proof -
  have "ucast (NOT f) = NOT (ucast f :: u16)"
    by (rule bit_word_eqI) (auto simp: bit_simps)
  moreover have "unat (ucast f :: u16) = unat f"
    using assms by (simp add: unsigned_ucast_eq take_bit_nat_eq_self)
  ultimately show ?thesis by (simp add: unat_NOT_u16)
qed

lemma word_sum_bound: "length data \<le> 131074 \<Longrightarrow> word_sum data < 2 ^ 32"
proof -
  assume "length data \<le> 131074"
  then have "(length data + 1) div 2 \<le> 65537" by simp
  with word_sum_le [of data] show ?thesis by simp
qed

lemma unat_checksum16:
  "length data \<le> 131074 \<Longrightarrow> unat (rawudp_checksum16 data) = 65535 - fold16 (word_sum data)"
  using unat_sum16 [of 0 data] word_sum_bound [of data]
  by (simp add: rawudp_checksum16_def unat_complement16 unat_fold_carry)

text \<open>
  Property C18. On any buffer of up to 131074 bytes (every IPv4 packet is shorter) the code's
  checksum is the ones' complement of the ones' complement sum of the buffer's 16-bit words:
  the 32-bit accumulator loses no carry and the folding loop ends with the right residue.
\<close>

theorem checksum16_correct:
  "length data \<le> 131074 \<Longrightarrow> unat (rawudp_checksum16 data) = 65535 - fold16 (word_sum data)"
  by (rule unat_checksum16)

theorem checksum16_correct_witness:
  "length [0x45, 0, 0, 29 :: u8] \<le> 131074 \<and>
   unat (rawudp_checksum16 [0x45, 0, 0, 29]) = 65535 - fold16 (word_sum [0x45, 0, 0, 29]) \<and>
   fold16 (word_sum [0x45, 0, 0, 29]) = 17693"
  using checksum16_correct [of "[0x45, 0, 0, 29]"] by (simp add: unat_be16 fold16_def)

section \<open>Verifying a checksum\<close>

lemma NOT_eq_unat: "unat c = 65535 - n \<Longrightarrow> n \<le> 65535 \<Longrightarrow> (c = 0) = (n = 65535)" for c :: u16
  by (metis diff_diff_cancel diff_zero diff_is_0_eq' order_refl unsigned_0 unat_eq_zero)

lemma checksum16_eq_0_iff:
  assumes "length data \<le> 131074"
  shows "rawudp_checksum16 data = 0 \<longleftrightarrow> word_sum data \<noteq> 0 \<and> word_sum data mod 65535 = 0"
  using assms NOT_eq_unat [OF unat_checksum16 [OF assms]]
  by (simp add: fold16_eq_max_iff)

text \<open>A 16-bit field that was 0 when the sum was taken, and is then overwritten by \<open>w\<close>.\<close>

lemma word_sum_field:
  assumes "even (length xs)"
  shows "word_sum (xs @ [a, b] @ ys) = word_sum (xs @ [0, 0] @ ys) + unat (be16 a b)"
  using assms by (simp add: word_sum_append unat_be16)

lemma complement_add_fold16:
  "(s + (65535 - fold16 s)) mod 65535 = 0" "s + (65535 - fold16 s) \<noteq> 0"
proof -
  have "(s + (65535 - fold16 s)) mod 65535 = (fold16 s + (65535 - fold16 s)) mod 65535"
    by (metis fold16_mod mod_add_left_eq)
  then show "(s + (65535 - fold16 s)) mod 65535 = 0" by simp
  show "s + (65535 - fold16 s) \<noteq> 0"
    by (cases "s = 0") (auto simp: fold16_def)
qed

lemma swapped_congruent_iff:
  "unat (htons w) mod 65535 = unat w mod 65535 \<longleftrightarrow> hi8 w = lo8 w"
proof -
  define h l where "h = unat (hi8 w)" and "l = unat (lo8 w)"
  have b: "h < 256" "l < 256"
    using unsigned_less [of "hi8 w", where ?'a = nat] unsigned_less [of "lo8 w", where ?'a = nat]
    by (simp_all add: h_def l_def)
  have w: "unat w = 256 * h + l"
    using unat_be16 [of "hi8 w" "lo8 w"] by (simp add: h_def l_def)
  have s: "unat (htons w) = 256 * l + h"
    by (simp add: htons_def unat_be16 h_def l_def)
  have "(256 * l + h) mod 65535 = (256 * h + l) mod 65535 \<longleftrightarrow> h = l"
  proof (cases "256 * h + l = 65535 \<or> 256 * l + h = 65535")
    case True
    with b have "h = 255 \<and> l = 255" by linarith
    then show ?thesis by simp
  next
    case False
    with b have "256 * h + l < 65535" "256 * l + h < 65535" by linarith+
    then show ?thesis by auto
  qed
  then show ?thesis
    by (simp add: w s h_def l_def word_unat_eq_iff)
qed

lemma swapped_field_iff:
  assumes "(s + unat c) mod 65535 = 0"
  shows "(s + unat (htons c)) mod 65535 = 0 \<longleftrightarrow> hi8 c = lo8 c"
  using assms add_mod_cancel [of s "unat (htons c)" 65535 "unat c"] swapped_congruent_iff [of c]
  by argo

lemma checksum16_stored:
  assumes "even (length xs)" and "length (xs @ [0, 0] @ ys) \<le> 131074"
    and c: "c = rawudp_checksum16 (xs @ [0, 0] @ ys)"
  shows "rawudp_checksum16 (xs @ [hi8 c, lo8 c] @ ys) = 0"
    and "rawudp_checksum16 (xs @ le16_bytes c @ ys) = 0 \<longleftrightarrow> hi8 c = lo8 c"
proof -
  define s where "s = word_sum (xs @ [0, 0] @ ys)"
  have c': "unat c = 65535 - fold16 s"
    using unat_checksum16 [OF assms(2)] by (simp only: c s_def)
  have len: "length (xs @ [a, b] @ ys) \<le> 131074" for a b
    using assms(2) by simp
  have zero: "rawudp_checksum16 (xs @ [a, b] @ ys) = 0 \<longleftrightarrow>
      s + unat (be16 a b) \<noteq> 0 \<and> (s + unat (be16 a b)) mod 65535 = 0" for a b
    by (simp only: checksum16_eq_0_iff [OF len] word_sum_field [OF assms(1), of a b ys] s_def)
  have sc: "(s + unat c) mod 65535 = 0" "s + unat c \<noteq> 0"
    unfolding c' by (rule complement_add_fold16)+
  show "rawudp_checksum16 (xs @ [hi8 c, lo8 c] @ ys) = 0"
    using sc by (simp only: zero be16_hi8_lo8) simp
  from sc(1) have "(s + unat (htons c)) mod 65535 = 0 \<longleftrightarrow> hi8 c = lo8 c"
    by (rule swapped_field_iff)
  moreover have "hi8 c = lo8 c \<Longrightarrow> htons c = c"
    by (metis htons_def be16_hi8_lo8)
  ultimately have "s + unat (htons c) \<noteq> 0 \<and> (s + unat (htons c)) mod 65535 = 0 \<longleftrightarrow> hi8 c = lo8 c"
    using sc by auto
  then show "rawudp_checksum16 (xs @ le16_bytes c @ ys) = 0 \<longleftrightarrow> hi8 c = lo8 c"
    by (simp only: le16_bytes_def zero htons_def)
qed

lemma udp_checksum_value:
  assumes "length udp \<le> 65536"
  shows "unat (rawudp_udp_checksum src dst udp) =
    (let r = 65535 - fold16 (word_sum (pseudo_bytes src dst (length udp)) + word_sum udp)
     in if r = 0 then 65535 else r)"
proof -
  define ph where "ph = pseudo_bytes src dst (length udp)"
  define sm :: u32 where "sm = 0 + ucast (NOT (rawudp_checksum16 ph))"
  have "length ph \<le> 131074" by (simp add: ph_def pseudo_bytes_def)
  from unat_checksum16 [OF this] have sm: "unat sm = fold16 (word_sum ph)"
    by (simp add: sm_def unat_NOT_u16)
  have "word_sum udp \<le> 65535 * 32768"
    using word_sum_le [of udp] assms by (rule_tac order_trans) auto
  then have "fold16 (word_sum ph) + word_sum udp < 4294967296"
    using fold16_less [of "word_sum ph"] by linarith
  then have "unat (sum16 sm udp) = fold16 (word_sum ph) + word_sum udp"
    by (subst unat_sum16) (simp_all add: sm)
  then have "unat (ucast (NOT (fold_carry (sum16 sm udp))) :: u16)
      = 65535 - fold16 (word_sum ph + word_sum udp)"
    by (simp add: unat_complement16 unat_fold_carry fold16_add)
  then show ?thesis
    unfolding rawudp_udp_checksum_def Let_def ph_def [symmetric] sm_def [symmetric]
    by (auto simp: unat_eq_zero [symmetric])
qed

text \<open>The sum that includes a stored UDP checksum is a multiple of 65535.\<close>

lemma udp_checksum_cancels:
  assumes "length udp \<le> 65536"
  shows "(word_sum (pseudo_bytes src dst (length udp)) + word_sum udp +
          unat (rawudp_udp_checksum src dst udp)) mod 65535 = 0"
proof -
  define s where "s = word_sum (pseudo_bytes src dst (length udp)) + word_sum udp"
  have v: "unat (rawudp_udp_checksum src dst udp) =
      (if 65535 - fold16 s = 0 then 65535 else 65535 - fold16 s)"
    using udp_checksum_value [OF assms, of src dst] by (simp add: s_def Let_def)
  show ?thesis
  proof (cases "fold16 s = 65535")
    case True
    then have "s mod 65535 = 0" by (simp add: fold16_eq_max_iff)
    with True v show ?thesis by (simp add: s_def)
  next
    case False
    with fold16_le [of s] have "\<not> 65535 \<le> fold16 s" by linarith
    with v have "unat (rawudp_udp_checksum src dst udp) = 65535 - fold16 s" by simp
    then show ?thesis
      using complement_add_fold16(1) [of s] by (simp only: s_def)
  qed
qed

end
