(* ===== verification/Packet.thy ===== *)
theory Packet
  imports Checksum "HOL-Library.Monad_Syntax"
begin

text \<open>
  \<open>echo_raw/src/packet.c\<close>: building and parsing an IPv4 packet with a UDP datagram in it. The
  structures \<open>iphdr\<close> and \<open>udphdr\<close> are records with the fields' values as the little-endian host
  reads them, and \<open>iphdr_bytes\<close>, \<open>udphdr_bytes\<close>, \<open>iphdr_of\<close>, \<open>udphdr_of\<close> are their layout in memory.
  A read outside the packet is \<open>None\<close>, so that memory safety is a statement. The process id is
  a parameter. The sockets (\<open>rawudp_open_send_socket\<close>, \<open>rawudp_open_recv_socket\<close>) are system
  calls and are modelled by their results only.
\<close>

section \<open>The headers and their layout\<close>

record iphdr =
  version :: u8  \<comment> \<open>four bits\<close>
  ihl :: u8      \<comment> \<open>four bits\<close>
  tos :: u8
  tot_len :: u16
  ip_id :: u16
  frag_off :: u16
  ip_ttl :: u8
  protocol :: u8
  ip_check :: u16
  saddr :: u32
  daddr :: u32

record udphdr =
  udp_source :: u16
  udp_dest :: u16
  udp_len :: u16
  udp_check :: u16

definition iphdr_bytes :: "iphdr \<Rightarrow> u8 list" where
  "iphdr_bytes ip =
     [push_bit 4 (version ip) OR (ihl ip AND 0xF), tos ip] @ le16_bytes (tot_len ip) @
     le16_bytes (ip_id ip) @ le16_bytes (frag_off ip) @ [ip_ttl ip, protocol ip] @
     le16_bytes (ip_check ip) @ le32_bytes (saddr ip) @ le32_bytes (daddr ip)"

definition udphdr_bytes :: "udphdr \<Rightarrow> u8 list" where
  "udphdr_bytes u = le16_bytes (udp_source u) @ le16_bytes (udp_dest u) @
     le16_bytes (udp_len u) @ le16_bytes (udp_check u)"

fun iphdr_of :: "u8 list \<Rightarrow> iphdr option" where
  "iphdr_of (v # t # l0 # l1 # i0 # i1 # f0 # f1 # ttl # p # c0 # c1 #
             s0 # s1 # s2 # s3 # d0 # d1 # d2 # d3 # rest) =
     Some \<lparr>version = drop_bit 4 v, ihl = v AND 0xF, tos = t, tot_len = le16 l0 l1,
           ip_id = le16 i0 i1, frag_off = le16 f0 f1, ip_ttl = ttl, protocol = p,
           ip_check = le16 c0 c1, saddr = le32 s0 s1 s2 s3, daddr = le32 d0 d1 d2 d3\<rparr>"
| "iphdr_of _ = None"

fun udphdr_of :: "u8 list \<Rightarrow> udphdr option" where
  "udphdr_of (s0 # s1 # d0 # d1 # l0 # l1 # c0 # c1 # rest) =
     Some \<lparr>udp_source = le16 s0 s1, udp_dest = le16 d0 d1, udp_len = le16 l0 l1,
           udp_check = le16 c0 c1\<rparr>"
| "udphdr_of _ = None"

definition RAWUDP_MAX_PAYLOAD :: nat where "RAWUDP_MAX_PAYLOAD = 1400"

section \<open>Building a packet\<close>

text \<open>
  The header fields in the order the code stores them into the cleared buffer; \<open>ip_check\<close> and
  \<open>udp_check\<close> receive the checksum's value as it is, with no conversion of byte order.
\<close>

definition build_iphdr :: "int \<Rightarrow> nat \<Rightarrow> in_addr \<Rightarrow> in_addr \<Rightarrow> u8 \<Rightarrow> iphdr" where
  "build_iphdr pid tot src dst ttl =
     (let ip = \<lparr>version = 4, ihl = word_of_nat (20 div 4), tos = 0,
                tot_len = htons (word_of_nat tot),
                ip_id = htons (word_of_int (pid AND 0xFFFF)), frag_off = 0,
                ip_ttl = (if ttl \<noteq> 0 then ttl else 64), protocol = 17, ip_check = 0,
                saddr = s_addr src, daddr = s_addr dst\<rparr>
      in ip\<lparr>ip_check := rawudp_checksum16 (iphdr_bytes ip)\<rparr>)"

definition build_udphdr :: "in_addr \<Rightarrow> in_addr \<Rightarrow> u16 \<Rightarrow> u16 \<Rightarrow> u8 list \<Rightarrow> udphdr" where
  "build_udphdr src dst sport dport payload =
     (let u = \<lparr>udp_source = htons sport, udp_dest = htons dport,
               udp_len = htons (word_of_nat (8 + length payload)), udp_check = 0\<rparr>
      in u\<lparr>udp_check := rawudp_udp_checksum src dst (udphdr_bytes u @ payload)\<rparr>)"

text \<open>
  The result is the code's return value and the buffer afterwards. The capacity \<open>out_cap\<close> is the
  length of the buffer, as at both call sites.
\<close>

definition rawudp_build_ipv4_udp ::
    "int \<Rightarrow> u8 list \<Rightarrow> in_addr \<Rightarrow> in_addr \<Rightarrow> u16 \<Rightarrow> u16 \<Rightarrow> u8 list \<Rightarrow> u8 \<Rightarrow> int \<times> u8 list" where
  "rawudp_build_ipv4_udp pid out_buf src dst sport dport payload ttl =
     (let tot = 20 + 8 + length payload
      in if tot > length out_buf then (- 1, out_buf)
         else if length payload > RAWUDP_MAX_PAYLOAD then (- 1, out_buf)
         else (int tot,
               iphdr_bytes (build_iphdr pid tot src dst ttl) @
               udphdr_bytes (build_udphdr src dst sport dport payload) @
               payload @ drop tot out_buf))"

section \<open>Parsing a packet\<close>

text \<open>
  What a successful parse stores through its result pointers; the payload pointer is the offset
  into the packet.
\<close>

record udp_view =
  v_src :: in_addr
  v_dst :: in_addr
  v_sport :: u16
  v_dport :: u16
  v_off :: nat
  v_plen :: nat

definition rawudp_parse_ipv4_udp :: "u8 list \<Rightarrow> (int + udp_view) option" where
  "rawudp_parse_ipv4_udp pkt =
     (if length pkt < 20 then Some (Inl (- 1))
      else do {
        ip \<leftarrow> iphdr_of pkt;
        if version ip \<noteq> 4 then Some (Inl (- 1))
        else (let ip_hl = unat (ihl ip) * 4
              in if ip_hl < 20 \<or> length pkt < ip_hl + 8 then Some (Inl (- 1))
                 else if protocol ip \<noteq> 17 then Some (Inl (- 1))
                 else do {
                   u \<leftarrow> udphdr_of (drop ip_hl pkt);
                   let ulen = unat (htons (udp_len u));
                   if ulen < 8 then Some (Inl (- 1))
                   else if length pkt < ip_hl + ulen then Some (Inl (- 1))
                   else Some (Inr \<lparr>v_src = \<lparr>s_addr = saddr ip\<rparr>, v_dst = \<lparr>s_addr = daddr ip\<rparr>,
                                   v_sport = htons (udp_source u), v_dport = htons (udp_dest u),
                                   v_off = ip_hl + 8, v_plen = ulen - 8\<rparr>)
                 })
      })"

text \<open>The payload bytes a caller reads through the pointer.\<close>

definition payload_of :: "u8 list \<Rightarrow> udp_view \<Rightarrow> u8 list" where
  "payload_of pkt v = take (v_plen v) (drop (v_off v) pkt)"

section \<open>Opening the sockets\<close>

text \<open>
  The answers of \<open>socket\<close> and \<open>setsockopt\<close> are arguments; the result is the value returned and the
  descriptors closed on the way.
\<close>

definition rawudp_open_send_socket :: "int \<Rightarrow> int \<Rightarrow> int \<times> int list" where
  "rawudp_open_send_socket s opt = (if s < 0 then (- 1, []) else if opt < 0 then (- 1, [s]) else (s, []))"

definition rawudp_open_recv_socket :: "int \<Rightarrow> int" where
  "rawudp_open_recv_socket s = s"

lemma rawudp_open_send_socket_keeps:
  "rawudp_open_send_socket s opt = (r, closed) \<Longrightarrow> 0 \<le> s \<Longrightarrow> (r = s \<and> 0 \<le> opt \<and> closed = []) \<or> (r = - 1 \<and> closed = [s])"
  by (auto simp: rawudp_open_send_socket_def split: if_splits)

section \<open>Sending\<close>

text \<open>
  \<open>sendto\<close> is a system call: its result, the number of bytes sent or -1, is an argument.
\<close>

definition rawudp_send_packet :: "int \<Rightarrow> u8 list \<Rightarrow> int" where
  "rawudp_send_packet r ip_packet = (if r = int (length ip_packet) then 0 else - 1)"

section \<open>Properties\<close>

lemma length_iphdr_bytes [simp]: "length (iphdr_bytes ip) = 20"
  by (simp add: iphdr_bytes_def)

lemma length_udphdr_bytes [simp]: "length (udphdr_bytes u) = 8"
  by (simp add: udphdr_bytes_def)

lemma iphdr_of_None_iff: "iphdr_of pkt = None \<longleftrightarrow> length pkt < 20"
  by (cases pkt rule: iphdr_of.cases) auto

lemma udphdr_of_None_iff: "udphdr_of pkt = None \<longleftrightarrow> length pkt < 8"
  by (cases pkt rule: udphdr_of.cases) auto

lemma iphdr_of_bytes:
  "version ip AND 0xF = version ip \<Longrightarrow> ihl ip AND 0xF = ihl ip \<Longrightarrow>
     iphdr_of (iphdr_bytes ip @ rest) = Some ip"
proof -
  assume v: "version ip AND 0xF = version ip" and h: "ihl ip AND 0xF = ihl ip"
  have m: "(0xF :: u8) = mask 4"
    by (simp add: mask_eq_exp_minus_1)
  have "drop_bit 4 (push_bit 4 (version ip) OR (ihl ip AND 0xF)) = version ip AND 0xF"
    unfolding m by (rule bit_word_eqI) (auto simp: bit_simps dest: bit_imp_le_length)
  moreover have "(push_bit 4 (version ip) OR (ihl ip AND 0xF)) AND 0xF = ihl ip AND 0xF"
    unfolding m by (rule bit_word_eqI) (auto simp: bit_simps dest: bit_imp_le_length)
  ultimately show ?thesis
    using v h by (simp add: iphdr_bytes_def le16_bytes_def le32_bytes_def le32_le32_bytes)
qed

lemma udphdr_of_bytes: "udphdr_of (udphdr_bytes u @ rest) = Some u"
  by (simp add: udphdr_bytes_def le16_bytes_def)

subsection \<open>What the parser accepts\<close>

text \<open>
  The reference, on byte offsets: an IPv4 header of at least five words, protocol 17, and a UDP
  length that covers the UDP header and ends inside the packet.
\<close>

definition ip_header_len :: "u8 list \<Rightarrow> nat" where
  "ip_header_len pkt = unat (pkt ! 0 AND 0xF) * 4"

definition udp_length :: "u8 list \<Rightarrow> nat" where
  "udp_length pkt = unat (be16 (pkt ! (ip_header_len pkt + 4)) (pkt ! (ip_header_len pkt + 5)))"

definition is_udp4 :: "u8 list \<Rightarrow> bool" where
  "is_udp4 pkt \<longleftrightarrow> 20 \<le> length pkt \<and> drop_bit 4 (pkt ! 0) = 4 \<and> 20 \<le> ip_header_len pkt \<and>
     ip_header_len pkt + 8 \<le> length pkt \<and> pkt ! 9 = 17 \<and>
     8 \<le> udp_length pkt \<and> ip_header_len pkt + udp_length pkt \<le> length pkt"

definition view_of :: "u8 list \<Rightarrow> udp_view" where
  "view_of pkt =
     (let h = ip_header_len pkt
      in \<lparr>v_src = \<lparr>s_addr = le32 (pkt ! 12) (pkt ! 13) (pkt ! 14) (pkt ! 15)\<rparr>,
          v_dst = \<lparr>s_addr = le32 (pkt ! 16) (pkt ! 17) (pkt ! 18) (pkt ! 19)\<rparr>,
          v_sport = be16 (pkt ! h) (pkt ! (h + 1)), v_dport = be16 (pkt ! (h + 2)) (pkt ! (h + 3)),
          v_off = h + 8, v_plen = udp_length pkt - 8\<rparr>)"

lemma iphdr_of_nth:
  "20 \<le> length pkt \<Longrightarrow> iphdr_of pkt =
     Some \<lparr>version = drop_bit 4 (pkt ! 0), ihl = pkt ! 0 AND 0xF, tos = pkt ! 1,
           tot_len = le16 (pkt ! 2) (pkt ! 3), ip_id = le16 (pkt ! 4) (pkt ! 5),
           frag_off = le16 (pkt ! 6) (pkt ! 7), ip_ttl = pkt ! 8, protocol = pkt ! 9,
           ip_check = le16 (pkt ! 10) (pkt ! 11),
           saddr = le32 (pkt ! 12) (pkt ! 13) (pkt ! 14) (pkt ! 15),
           daddr = le32 (pkt ! 16) (pkt ! 17) (pkt ! 18) (pkt ! 19)\<rparr>"
  by (cases pkt rule: iphdr_of.cases) (auto simp: nth_Cons')

lemma udphdr_of_nth:
  assumes "h + 8 \<le> length pkt"
  shows "udphdr_of (drop h pkt) =
     Some \<lparr>udp_source = le16 (pkt ! h) (pkt ! (h + 1)), udp_dest = le16 (pkt ! (h + 2)) (pkt ! (h + 3)),
           udp_len = le16 (pkt ! (h + 4)) (pkt ! (h + 5)),
           udp_check = le16 (pkt ! (h + 6)) (pkt ! (h + 7))\<rparr>"
proof -
  have len: "8 \<le> length (drop h pkt)" using assms by simp
  have n: "drop h pkt ! k = pkt ! (h + k)" for k
    using assms by (simp add: nth_drop)
  have "udphdr_of (drop h pkt) =
     Some \<lparr>udp_source = le16 (drop h pkt ! 0) (drop h pkt ! 1),
           udp_dest = le16 (drop h pkt ! 2) (drop h pkt ! 3),
           udp_len = le16 (drop h pkt ! 4) (drop h pkt ! 5),
           udp_check = le16 (drop h pkt ! 6) (drop h pkt ! 7)\<rparr>"
    using len by (cases "drop h pkt" rule: udphdr_of.cases) (auto simp: nth_Cons')
  then show ?thesis by (simp add: n)
qed

text \<open>
  Property C16. The parser reads nothing outside the packet (it never faults), accepts exactly the
  packets \<open>is_udp4\<close> describes, and returns the addresses, ports, payload offset and payload
  length found at the offsets of the protocols; every other packet gives -1.
\<close>

theorem parse_correct:
  "rawudp_parse_ipv4_udp pkt = Some (if is_udp4 pkt then Inr (view_of pkt) else Inl (- 1))"
proof (cases "20 \<le> length pkt \<and> ip_header_len pkt + 8 \<le> length pkt")
  case True
  then show ?thesis
    by (auto simp: rawudp_parse_ipv4_udp_def is_udp4_def view_of_def Let_def iphdr_of_nth
        udphdr_of_nth ip_header_len_def udp_length_def)
next
  case False
  then show ?thesis
    by (auto simp: rawudp_parse_ipv4_udp_def is_udp4_def Let_def iphdr_of_nth ip_header_len_def)
qed

text \<open>The payload a parse hands out lies inside the packet.\<close>

lemma view_in_packet: "is_udp4 pkt \<Longrightarrow> v_off (view_of pkt) + v_plen (view_of pkt) \<le> length pkt"
  by (auto simp: is_udp4_def view_of_def Let_def)

lemma length_payload_of: "is_udp4 pkt \<Longrightarrow> length (payload_of pkt (view_of pkt)) = v_plen (view_of pkt)"
  using view_in_packet [of pkt] by (simp add: payload_of_def)

subsection \<open>Building, then parsing\<close>

text \<open>The packet a successful build leaves at the start of the buffer.\<close>

definition built_packet ::
    "int \<Rightarrow> in_addr \<Rightarrow> in_addr \<Rightarrow> u16 \<Rightarrow> u16 \<Rightarrow> u8 list \<Rightarrow> u8 \<Rightarrow> u8 list" where
  "built_packet pid src dst sport dport payload ttl =
     iphdr_bytes (build_iphdr pid (28 + length payload) src dst ttl) @
     udphdr_bytes (build_udphdr src dst sport dport payload) @ payload"

lemma length_built_packet [simp]:
  "length (built_packet pid src dst sport dport payload ttl) = 28 + length payload"
  by (simp add: built_packet_def)

lemma build_eq:
  "rawudp_build_ipv4_udp pid out_buf src dst sport dport payload ttl =
     (if 28 + length payload \<le> length out_buf \<and> length payload \<le> 1400
      then (int (28 + length payload),
            built_packet pid src dst sport dport payload ttl @ drop (28 + length payload) out_buf)
      else (- 1, out_buf))"
  by (auto simp: rawudp_build_ipv4_udp_def built_packet_def RAWUDP_MAX_PAYLOAD_def Let_def)

lemma build_iphdr_fields [simp]:
  "version (build_iphdr pid tot src dst ttl) = 4"
  "ihl (build_iphdr pid tot src dst ttl) = 5"
  "protocol (build_iphdr pid tot src dst ttl) = 17"
  "saddr (build_iphdr pid tot src dst ttl) = s_addr src"
  "daddr (build_iphdr pid tot src dst ttl) = s_addr dst"
  by (simp_all add: build_iphdr_def Let_def)

lemma build_udphdr_fields [simp]:
  "udp_source (build_udphdr src dst sport dport payload) = htons sport"
  "udp_dest (build_udphdr src dst sport dport payload) = htons dport"
  "udp_len (build_udphdr src dst sport dport payload) = htons (word_of_nat (8 + length payload))"
  by (simp_all add: build_udphdr_def Let_def)

lemma parse_built_packet:
  assumes "length payload \<le> 1400"
  shows "rawudp_parse_ipv4_udp (built_packet pid src dst sport dport payload ttl) =
     Some (Inr \<lparr>v_src = src, v_dst = dst, v_sport = sport, v_dport = dport,
                v_off = 28, v_plen = length payload\<rparr>)"
proof -
  define pkt where "pkt = built_packet pid src dst sport dport payload ttl"
  have ip: "iphdr_of pkt = Some (build_iphdr pid (28 + length payload) src dst ttl)"
    unfolding pkt_def built_packet_def by (rule iphdr_of_bytes) simp_all
  have u: "udphdr_of (drop 20 pkt) = Some (build_udphdr src dst sport dport payload)"
    unfolding pkt_def built_packet_def by (simp add: udphdr_of_bytes)
  have "unat (8 + word_of_nat (length payload) :: u16) = 8 + length payload"
    using assms unat_word_of_nat_u16 [of "8 + length payload"] by simp
  then show ?thesis
    unfolding pkt_def [symmetric]
    by (simp add: rawudp_parse_ipv4_udp_def ip u) (simp add: pkt_def)
qed

lemma payload_of_built_packet:
  "payload_of (built_packet pid src dst sport dport payload ttl)
     \<lparr>v_src = s, v_dst = d, v_sport = p, v_dport = q, v_off = 28, v_plen = length payload\<rparr> = payload"
  by (simp add: payload_of_def built_packet_def)

text \<open>
  Property C7. A build succeeds exactly when the payload has at most 1400 bytes and the packet fits
  the buffer, and otherwise leaves the buffer alone and returns -1. After a success the first
  \<open>28 + length payload\<close> bytes parse back to the addresses, ports and payload that went in, and the
  rest of the buffer is untouched.
\<close>

theorem build_parse_roundtrip:
  "case rawudp_build_ipv4_udp pid out_buf src dst sport dport payload ttl of
     (n, buf) \<Rightarrow>
       if 28 + length payload \<le> length out_buf \<and> length payload \<le> 1400
       then n = int (28 + length payload) \<and> length buf = length out_buf \<and>
            drop (nat n) buf = drop (nat n) out_buf \<and>
            rawudp_parse_ipv4_udp (take (nat n) buf) =
              Some (Inr \<lparr>v_src = src, v_dst = dst, v_sport = sport, v_dport = dport,
                         v_off = 28, v_plen = length payload\<rparr>) \<and>
            take (length payload) (drop 28 buf) = payload
       else n = - 1 \<and> buf = out_buf"
  by (simp add: build_eq nat_add_distrib parse_built_packet) (simp add: built_packet_def)

subsection \<open>The checksums on the wire\<close>

text \<open>
  A receiver accepts an IPv4 header whose checksum comes out as 0, and a UDP datagram whose
  ones' complement sum with the pseudo header is a multiple of 65535.
\<close>

definition udp_verifies :: "in_addr \<Rightarrow> in_addr \<Rightarrow> u8 list \<Rightarrow> bool" where
  "udp_verifies src dst seg \<longleftrightarrow>
     (word_sum (pseudo_bytes src dst (length seg)) + word_sum seg) mod 65535 = 0"

lemma iphdr_bytes_check:
  "iphdr_bytes (ip\<lparr>ip_check := c\<rparr>) =
     take 10 (iphdr_bytes ip) @ le16_bytes c @ drop 12 (iphdr_bytes ip)"
  by (simp add: iphdr_bytes_def le16_bytes_def)

lemma iphdr_bytes_check_0:
  "ip_check ip = 0 \<Longrightarrow>
     iphdr_bytes ip = take 10 (iphdr_bytes ip) @ [0, 0] @ drop 12 (iphdr_bytes ip)"
  by (simp add: iphdr_bytes_def le16_bytes_def lo8_def hi8_def)

lemma udphdr_bytes_check:
  "udphdr_bytes (u\<lparr>udp_check := c\<rparr>) = take 6 (udphdr_bytes u) @ le16_bytes c"
  by (simp add: udphdr_bytes_def le16_bytes_def)

lemma udphdr_bytes_check_0:
  "udp_check u = 0 \<Longrightarrow> udphdr_bytes u = take 6 (udphdr_bytes u) @ [0, 0]"
  by (simp add: udphdr_bytes_def le16_bytes_def lo8_def hi8_def)

text \<open>The stored header: the checksum over the cleared field, then its value's own bytes.\<close>

lemma build_iphdr_checksum:
  fixes pid tot src dst ttl
  defines "ip \<equiv> build_iphdr pid tot src dst ttl"
  shows "rawudp_checksum16 (iphdr_bytes ip) = 0 \<longleftrightarrow> hi8 (ip_check ip) = lo8 (ip_check ip)"
    and "rawudp_checksum16 (iphdr_bytes (ip\<lparr>ip_check := htons (ip_check ip)\<rparr>)) = 0"
proof -
  define ip0 where "ip0 = ip\<lparr>ip_check := 0\<rparr>"
  have ip: "ip = ip0\<lparr>ip_check := ip_check ip\<rparr>" and c: "ip_check ip = rawudp_checksum16 (iphdr_bytes ip0)"
    by (simp_all add: ip0_def ip_def build_iphdr_def Let_def)
  have b0: "iphdr_bytes ip0 = take 10 (iphdr_bytes ip0) @ [0, 0] @ drop 12 (iphdr_bytes ip0)"
    by (rule iphdr_bytes_check_0) (simp add: ip0_def)
  have c': "ip_check ip =
      rawudp_checksum16 (take 10 (iphdr_bytes ip0) @ [0, 0] @ drop 12 (iphdr_bytes ip0))"
    using c b0 by simp
  note st = checksum16_stored [OF _ _ c', simplified]
  have "iphdr_bytes ip = take 10 (iphdr_bytes ip0) @ le16_bytes (ip_check ip) @ drop 12 (iphdr_bytes ip0)"
    by (subst ip) (rule iphdr_bytes_check)
  then show "rawudp_checksum16 (iphdr_bytes ip) = 0 \<longleftrightarrow> hi8 (ip_check ip) = lo8 (ip_check ip)"
    using st(2) by simp
  have "iphdr_bytes (ip\<lparr>ip_check := htons (ip_check ip)\<rparr>) =
      take 10 (iphdr_bytes ip0) @ [hi8 (ip_check ip), lo8 (ip_check ip)] @ drop 12 (iphdr_bytes ip0)"
    using iphdr_bytes_check [where ip = ip0 and c = "htons (ip_check ip)"] by (simp add: ip0_def)
  then show "rawudp_checksum16 (iphdr_bytes (ip\<lparr>ip_check := htons (ip_check ip)\<rparr>)) = 0"
    using st(1) by simp
qed

lemma build_udphdr_checksum:
  fixes src dst sport dport payload
  defines "u \<equiv> build_udphdr src dst sport dport payload"
  assumes "length payload \<le> 1400"
  shows "udp_verifies src dst (udphdr_bytes u @ payload) \<longleftrightarrow> hi8 (udp_check u) = lo8 (udp_check u)"
    and "udp_verifies src dst (udphdr_bytes (u\<lparr>udp_check := htons (udp_check u)\<rparr>) @ payload)"
proof -
  define u0 where "u0 = u\<lparr>udp_check := 0\<rparr>"
  define c where "c = udp_check u"
  define pre where "pre = take 6 (udphdr_bytes u0)"
  have u: "u = u0\<lparr>udp_check := c\<rparr>"
    by (simp add: u0_def c_def)
  have c: "c = rawudp_udp_checksum src dst (udphdr_bytes u0 @ payload)"
    by (simp add: c_def u0_def u_def build_udphdr_def Let_def)
  have b0: "udphdr_bytes u0 @ payload = pre @ [0, 0] @ payload"
    using udphdr_bytes_check_0 [of u0] by (simp add: u0_def pre_def)
  have pre: "even (length pre)" "length pre = 6" by (simp_all add: pre_def)
  define s where
    "s = word_sum (pseudo_bytes src dst (length (pre @ [0, 0] @ payload))) + word_sum (pre @ [0, 0] @ payload)"
  have ver: "udp_verifies src dst (pre @ [a, b] @ payload) \<longleftrightarrow> (s + unat (be16 a b)) mod 65535 = 0" for a b
    unfolding udp_verifies_def word_sum_field [OF pre(1), of a b payload] s_def by (simp add: add.assoc)
  have "(s + unat c) mod 65535 = 0"
    using udp_checksum_cancels [of "pre @ [0, 0] @ payload" src dst] assms(2) pre
    by (simp add: s_def c b0)
  then have st: "(s + unat c) mod 65535 = 0" "(s + unat (htons c)) mod 65535 = 0 \<longleftrightarrow> hi8 c = lo8 c"
    by (simp_all add: swapped_field_iff)
  have "udphdr_bytes u @ payload = pre @ [lo8 c, hi8 c] @ payload"
    using udphdr_bytes_check [where u = u0 and c = c] by (simp add: u pre_def le16_bytes_def)
  then show "udp_verifies src dst (udphdr_bytes u @ payload) \<longleftrightarrow> hi8 (udp_check u) = lo8 (udp_check u)"
    using st(2) ver by (simp add: htons_def c_def)
  have "udphdr_bytes (u\<lparr>udp_check := htons (udp_check u)\<rparr>) @ payload = pre @ [hi8 c, lo8 c] @ payload"
    using udphdr_bytes_check [where u = u0 and c = "htons c"] by (simp add: u0_def c_def pre_def)
  then show "udp_verifies src dst (udphdr_bytes (u\<lparr>udp_check := htons (udp_check u)\<rparr>) @ payload)"
    using st(1) ver by simp
qed

text \<open>
  Property C30. The code stores a checksum's value without \<open>htons\<close>. On a little-endian host both
  checksums of a built packet are therefore byte-swapped: the IP header and the UDP datagram pass
  a receiver's check only when the two bytes of the checksum happen to be equal.
\<close>

theorem built_checksums_swapped:
  assumes "length payload \<le> 1400"
  shows "let pkt = built_packet pid src dst sport dport payload ttl;
             ic = ip_check (build_iphdr pid (28 + length payload) src dst ttl);
             uc = udp_check (build_udphdr src dst sport dport payload)
         in (rawudp_checksum16 (take 20 pkt) = 0 \<longleftrightarrow> hi8 ic = lo8 ic) \<and>
            (udp_verifies src dst (drop 20 pkt) \<longleftrightarrow> hi8 uc = lo8 uc)"
  using build_iphdr_checksum(1) build_udphdr_checksum(1) [OF assms]
  by (simp add: built_packet_def)

theorem built_checksums_swapped_witness:
  "let payload = [0x68, 0x69];
       pkt = built_packet 1 \<lparr>s_addr = 0\<rparr> \<lparr>s_addr = 0x0100007F\<rparr> 20000 9000 payload 64
   in length payload \<le> 1400 \<and> rawudp_checksum16 (take 20 pkt) \<noteq> 0 \<and>
      \<not> udp_verifies \<lparr>s_addr = 0\<rparr> \<lparr>s_addr = 0x0100007F\<rparr> (drop 20 pkt)"
proof -
  have ic: "ip_check (build_iphdr 1 30 \<lparr>s_addr = 0\<rparr> \<lparr>s_addr = 0x0100007F\<rparr> 64) = 0xFBCD"
    by code_simp
  have uc: "udp_check (build_udphdr \<lparr>s_addr = 0\<rparr> \<lparr>s_addr = 0x0100007F\<rparr> 20000 9000 [0x68, 0x69]) = 0xA727"
    by code_simp
  have "hi8 0xFBCD \<noteq> lo8 0xFBCD" "hi8 0xA727 \<noteq> lo8 0xA727"
    by code_simp+
  then show ?thesis
    using built_checksums_swapped [where payload = "[0x68, 0x69]" and pid = 1 and src = "\<lparr>s_addr = 0\<rparr>" and
        dst = "\<lparr>s_addr = 0x0100007F\<rparr>" and sport = 20000 and dport = 9000 and ttl = 64] ic uc
    by (simp add: Let_def)
qed

end
