(* ===== verification/Client_Table.thy ===== *)
theory Client_Table
  imports Checksum
begin

text \<open>
  \<open>echo_raw/src/client_table.c\<close>: a hash table with chaining that counts the messages of each
  client. A client is an address and a port (\<open>rawudp_client_key_t\<close>); a bucket's chain of
  \<open>node_t\<close> is the list of its nodes from the bucket's head on. Pointers to tables are \<open>option\<close>
  values (\<open>None\<close> is NULL); whether an allocation succeeds is an argument. \<open>rawudp_ct_destroy\<close> is in \<open>Table_Heap\<close>, which has the
  file on a heap with pointers. The table's contract is
  the locale \<open>counter_store\<close>: a finite map from keys to 32-bit counters.
\<close>

section \<open>The code\<close>

record client_key =
  key_ip :: in_addr
  key_port :: u16

record node =
  node_key :: client_key
  node_counter :: u32

record client_table =
  buckets :: "node list list"
  nb :: nat

definition hash_key :: "client_key \<Rightarrow> u32" where
  "hash_key k =
     (let ip = s_addr (key_ip k);
          p = ucast (key_port k);
          x = ip XOR (p * 2654435761);
          x = x XOR drop_bit 16 x;
          x = x * 2246822519;
          x = x XOR drop_bit 13 x;
          x = x * 3266489917
      in x XOR drop_bit 16 x)"

definition key_eq :: "client_key \<Rightarrow> client_key \<Rightarrow> bool" where
  "key_eq a b = (s_addr (key_ip a) = s_addr (key_ip b) \<and> key_port a = key_port b)"

text \<open>\<open>(size_t)(hash_key(key) % (uint32_t)t->nb)\<close>\<close>

definition bucket_of :: "client_table \<Rightarrow> client_key \<Rightarrow> nat" where
  "bucket_of t k = unat (hash_key k mod word_of_nat (nb t))"

text \<open>The two arguments say whether the two \<open>calloc\<close> calls succeed.\<close>

definition rawudp_ct_create :: "bool \<Rightarrow> bool \<Rightarrow> client_table option" where
  "rawudp_ct_create ok_table ok_buckets =
     (if \<not> ok_table then None
      else if \<not> ok_buckets then None
      else Some \<lparr>buckets = replicate 1024 [], nb = 1024\<rparr>)"

text \<open>The walk along a chain that increments the counter of the first node with the key.\<close>

fun chain_bump :: "client_key \<Rightarrow> node list \<Rightarrow> (u32 \<times> node list) option" where
  "chain_bump k [] = None"
| "chain_bump k (n # ns) =
     (if key_eq (node_key n) k
      then Some (node_counter n + 1, n\<lparr>node_counter := node_counter n + 1\<rparr> # ns)
      else map_option (\<lambda>(c, ns'). (c, n # ns')) (chain_bump k ns))"

text \<open>
  The result is the return value, the table afterwards and the counter stored through
  \<open>out_counter\<close>; \<open>out_ok\<close> says that \<open>out_counter\<close> is not NULL, \<open>ok_node\<close> that \<open>calloc\<close> succeeds.
\<close>

definition rawudp_ct_next ::
    "bool \<Rightarrow> client_table option \<Rightarrow> client_key \<Rightarrow> bool \<Rightarrow> int \<times> client_table option \<times> u32 option" where
  "rawudp_ct_next ok_node tp key out_ok =
     (case tp of
        None \<Rightarrow> (- 1, None, None)
      | Some t \<Rightarrow>
          if \<not> out_ok then (- 1, Some t, None)
          else (let idx = bucket_of t key
                in case chain_bump key (buckets t ! idx) of
                     Some (c, ns) \<Rightarrow> (0, Some (t\<lparr>buckets := (buckets t)[idx := ns]\<rparr>), Some c)
                   | None \<Rightarrow>
                       if \<not> ok_node then (- 1, Some t, None)
                       else (0, Some (t\<lparr>buckets := (buckets t)
                                [idx := \<lparr>node_key = key, node_counter = 1\<rparr> # buckets t ! idx]\<rparr>),
                             Some 1)))"

text \<open>The walk that unlinks the first node with the key: \<open>prev->next\<close> or the bucket's head.\<close>

fun chain_unlink :: "client_key \<Rightarrow> node list \<Rightarrow> node list" where
  "chain_unlink k [] = []"
| "chain_unlink k (n # ns) =
     (if key_eq (node_key n) k then ns else n # chain_unlink k ns)"

definition rawudp_ct_reset :: "client_table option \<Rightarrow> client_key \<Rightarrow> client_table option" where
  "rawudp_ct_reset tp key =
     (case tp of
        None \<Rightarrow> None
      | Some t \<Rightarrow>
          (let idx = bucket_of t key
           in Some (t\<lparr>buckets := (buckets t)[idx := chain_unlink key (buckets t ! idx)]\<rparr>)))"

section \<open>The invariant and the map a table stands for\<close>

definition chain_keys :: "node list \<Rightarrow> client_key list" where
  "chain_keys ns = map node_key ns"

definition ct_inv :: "client_table \<Rightarrow> bool" where
  "ct_inv t \<longleftrightarrow> 0 < nb t \<and> nb t < 2 ^ 32 \<and> length (buckets t) = nb t \<and>
     (\<forall>i < nb t. distinct (chain_keys (buckets t ! i)) \<and>
        (\<forall>k \<in> set (chain_keys (buckets t ! i)). bucket_of t k = i))"

definition chain_map :: "node list \<Rightarrow> client_key \<Rightarrow> u32 option" where
  "chain_map ns k = map_of (map (\<lambda>n. (node_key n, node_counter n)) ns) k"

definition ct_lookup :: "client_table \<Rightarrow> client_key \<Rightarrow> u32 option" where
  "ct_lookup t k = chain_map (buckets t ! bucket_of t k) k"

lemma key_eq_iff [simp]: "key_eq a b \<longleftrightarrow> a = b"
  by (cases a; cases b) (auto simp: key_eq_def in_addr.equality)

lemma chain_map_simps [simp]:
  "chain_map [] = Map.empty"
  "chain_map (n # ns) = (chain_map ns)(node_key n \<mapsto> node_counter n)"
  by (simp_all add: chain_map_def fun_eq_iff)

lemma chain_keys_simps [simp]:
  "chain_keys [] = []" "chain_keys (n # ns) = node_key n # chain_keys ns"
  by (simp_all add: chain_keys_def)

lemma chain_map_None_iff: "chain_map ns k = None \<longleftrightarrow> k \<notin> set (chain_keys ns)"
  by (induction ns) auto

lemma chain_bump_None_iff: "chain_bump k ns = None \<longleftrightarrow> chain_map ns k = None"
  by (induction ns) (auto split: prod.splits)

lemma chain_bump_Some:
  "chain_bump k ns = Some (c, ns') \<Longrightarrow>
     chain_keys ns' = chain_keys ns \<and> chain_map ns' = (chain_map ns)(k \<mapsto> c) \<and>
     (\<exists>d. chain_map ns k = Some d \<and> c = d + 1)"
proof (induction ns arbitrary: ns')
  case (Cons n ns)
  then show ?case
    by (cases "node_key n = k") (auto simp: fun_upd_twist)
qed simp

lemma chain_unlink_keys: "set (chain_keys (chain_unlink k ns)) \<subseteq> set (chain_keys ns)"
  by (induction ns) auto

lemma chain_unlink_correct:
  "distinct (chain_keys ns) \<Longrightarrow>
     distinct (chain_keys (chain_unlink k ns)) \<and> chain_map (chain_unlink k ns) = (chain_map ns)(k := None)"
proof (induction ns)
  case (Cons n ns)
  then show ?case
    using chain_unlink_keys [of k ns] chain_map_None_iff [of ns k]
    by (auto simp: fun_upd_twist fun_upd_idem_iff)
qed auto

lemma bucket_of_less: "ct_inv t \<Longrightarrow> bucket_of t k < nb t"
proof -
  assume "ct_inv t"
  then have n: "0 < nb t" "nb t < 2 ^ 32" by (auto simp: ct_inv_def)
  then have "unat (word_of_nat (nb t) :: u32) = nb t"
    by (simp add: unsigned_of_nat take_bit_nat_eq_self)
  with n show ?thesis
    by (simp add: bucket_of_def unat_mod_distrib)
qed

text \<open>Replacing the chain of \<open>key\<close>'s bucket by one with the same or fewer keys.\<close>

lemma bucket_of_update [simp]: "bucket_of (t\<lparr>buckets := bs\<rparr>) k = bucket_of t k"
  by (simp add: bucket_of_def)

lemma ct_update_bucket:
  assumes inv: "ct_inv t" and idx: "idx = bucket_of t key"
    and dist: "distinct (chain_keys ns)" and keys: "set (chain_keys ns) \<subseteq> insert key (set (chain_keys (buckets t ! idx)))"
    and map: "chain_map ns = (chain_map (buckets t ! idx))(key := v)"
  shows "ct_inv (t\<lparr>buckets := (buckets t)[idx := ns]\<rparr>)"
    and "ct_lookup (t\<lparr>buckets := (buckets t)[idx := ns]\<rparr>) = (ct_lookup t)(key := v)"
proof -
  have "idx < length (buckets t)"
    using bucket_of_less [OF inv] inv idx by (simp add: ct_inv_def)
  then show "ct_inv (t\<lparr>buckets := (buckets t)[idx := ns]\<rparr>)"
    using inv dist keys idx by (auto simp: ct_inv_def nth_list_update)
  show "ct_lookup (t\<lparr>buckets := (buckets t)[idx := ns]\<rparr>) = (ct_lookup t)(key := v)"
    using \<open>idx < length (buckets t)\<close> map idx
    by (auto simp: ct_lookup_def fun_eq_iff nth_list_update)
qed

lemma ct_inv_chain: "ct_inv t \<Longrightarrow> distinct (chain_keys (buckets t ! bucket_of t k))"
  using bucket_of_less [of t k] by (simp add: ct_inv_def)

definition next_count :: "u32 option \<Rightarrow> u32" where
  "next_count v = (case v of None \<Rightarrow> 1 | Some c \<Rightarrow> c + 1)"

lemma ct_next_success:
  assumes inv: "ct_inv t" and ok: "ok_node \<or> ct_lookup t key \<noteq> None"
  shows "\<exists>t'. rawudp_ct_next ok_node (Some t) key True = (0, Some t', Some (next_count (ct_lookup t key))) \<and>
     ct_inv t' \<and> ct_lookup t' = (ct_lookup t)(key \<mapsto> next_count (ct_lookup t key))"
proof (cases "chain_bump key (buckets t ! bucket_of t key)")
  case None
  then have n: "ct_lookup t key = None"
    by (simp add: chain_bump_None_iff ct_lookup_def)
  let ?ns = "\<lparr>node_key = key, node_counter = 1\<rparr> # buckets t ! bucket_of t key"
  have "key \<notin> set (chain_keys (buckets t ! bucket_of t key))"
    using n by (simp add: ct_lookup_def chain_map_None_iff)
  then have d: "distinct (chain_keys ?ns)"
    using ct_inv_chain [OF inv] by simp
  show ?thesis
    using None ok n ct_update_bucket [OF inv refl d, where v = "Some 1"]
    by (auto simp: rawudp_ct_next_def Let_def next_count_def)
next
  case (Some p)
  then obtain c ns where p: "chain_bump key (buckets t ! bucket_of t key) = Some (c, ns)"
    by (cases p) auto
  from chain_bump_Some [OF p] have
    k: "chain_keys ns = chain_keys (buckets t ! bucket_of t key)" and
    m: "chain_map ns = (chain_map (buckets t ! bucket_of t key))(key \<mapsto> c)" and
    c: "next_count (ct_lookup t key) = c"
    by (auto simp: next_count_def ct_lookup_def)
  have "distinct (chain_keys ns)"
    using k ct_inv_chain [OF inv] by simp
  from ct_update_bucket [OF inv refl this _ m] k show ?thesis
    by (auto simp: rawudp_ct_next_def Let_def p c)
qed

lemma ct_reset_correct:
  assumes "ct_inv t"
  shows "\<exists>t'. rawudp_ct_reset (Some t) key = Some t' \<and> ct_inv t' \<and> ct_lookup t' = (ct_lookup t)(key := None)"
proof -
  let ?ns = "chain_unlink key (buckets t ! bucket_of t key)"
  from chain_unlink_correct [OF ct_inv_chain [OF assms]]
  have d: "distinct (chain_keys ?ns)" and m: "chain_map ?ns = (chain_map (buckets t ! bucket_of t key))(key := None)"
    by auto
  show ?thesis
    using ct_update_bucket [OF assms refl d _ m] chain_unlink_keys
    by (auto simp: rawudp_ct_reset_def Let_def)
qed

lemma ct_create_correct:
  assumes "rawudp_ct_create True True = Some t"
  shows "ct_inv t \<and> ct_lookup t = Map.empty"
proof -
  have t: "buckets t = replicate 1024 []" "nb t = 1024"
    using assms by (auto simp: rawudp_ct_create_def)
  then have inv: "ct_inv t" by (simp add: ct_inv_def)
  have "ct_lookup t k = None" for k
    using bucket_of_less [OF inv, of k] by (simp add: ct_lookup_def t)
  with inv show ?thesis by auto
qed

section \<open>The contract of a counter store\<close>

text \<open>
  What the server relies on: a store of counters by key, where \<open>bump\<close> answers one more than the
  key's last answer (1 for a key that is absent) and \<open>forget\<close> removes the key. The lemmas give
  the answers after any sequence of operations: \<open>messages_since k ops\<close> counts the messages of \<open>k\<close>
  since its last farewell.
\<close>

datatype 'k store_op = Message 'k | Farewell 'k

fun messages_from :: "nat \<Rightarrow> 'k \<Rightarrow> 'k store_op list \<Rightarrow> nat" where
  "messages_from c k [] = c"
| "messages_from c k (Message k' # ops) = messages_from (if k' = k then Suc c else c) k ops"
| "messages_from c k (Farewell k' # ops) = messages_from (if k' = k then 0 else c) k ops"

definition messages_since :: "'k \<Rightarrow> 'k store_op list \<Rightarrow> nat" where
  "messages_since k ops = messages_from 0 k ops"

definition counter_at :: "u32 option \<Rightarrow> nat \<Rightarrow> bool" where
  "counter_at v c \<longleftrightarrow> v = (if c = 0 then None else Some (word_of_nat c))"

lemma next_count_at: "counter_at v c \<Longrightarrow> next_count v = word_of_nat (Suc c)"
  by (auto simp: counter_at_def next_count_def)

definition store_step ::
    "('s \<Rightarrow> 'k \<Rightarrow> 's \<times> u32) \<Rightarrow> ('s \<Rightarrow> 'k \<Rightarrow> 's) \<Rightarrow> 's \<Rightarrow> 'k store_op \<Rightarrow> 's" where
  "store_step bump forget s op =
     (case op of Message k \<Rightarrow> fst (bump s k) | Farewell k \<Rightarrow> forget s k)"

locale counter_store =
  fixes bump :: "'s \<Rightarrow> 'k \<Rightarrow> 's \<times> u32"
    and forget :: "'s \<Rightarrow> 'k \<Rightarrow> 's"
    and lookup :: "'s \<Rightarrow> 'k \<Rightarrow> u32 option"
    and inv :: "'s \<Rightarrow> bool"
  assumes bump_answer: "inv s \<Longrightarrow> snd (bump s k) = next_count (lookup s k)"
    and bump_lookup: "inv s \<Longrightarrow> lookup (fst (bump s k)) = (lookup s)(k \<mapsto> next_count (lookup s k))"
    and bump_inv: "inv s \<Longrightarrow> inv (fst (bump s k))"
    and forget_lookup: "inv s \<Longrightarrow> lookup (forget s k) = (lookup s)(k := None)"
    and forget_inv: "inv s \<Longrightarrow> inv (forget s k)"
begin

lemma step_inv: "inv s \<Longrightarrow> inv (store_step bump forget s op)"
  by (cases op) (simp_all add: store_step_def bump_inv forget_inv)

lemma run_counts:
  "inv s \<Longrightarrow> counter_at (lookup s k) c \<Longrightarrow>
     inv (foldl (store_step bump forget) s ops) \<and> counter_at (lookup (foldl (store_step bump forget) s ops) k) (messages_from c k ops)"
proof (induction ops arbitrary: s c)
  case (Cons op ops)
  show ?case
  proof (cases op)
    case (Message k')
    have "counter_at (lookup (store_step bump forget s op) k) (if k' = k then Suc c else c)"
      using Cons.prems Message next_count_at [of "lookup s k" c]
      by (auto simp: store_step_def bump_lookup) (simp add: counter_at_def)
    with Cons.IH [OF step_inv [OF Cons.prems(1)]] Message show ?thesis by simp
  next
    case (Farewell k')
    have "counter_at (lookup (store_step bump forget s op) k) (if k' = k then 0 else c)"
      using Cons.prems Farewell by (auto simp: store_step_def forget_lookup counter_at_def)
    with Cons.IH [OF step_inv [OF Cons.prems(1)]] Farewell show ?thesis by simp
  qed
qed simp

lemma answer_after:
  "inv s \<Longrightarrow> lookup s k = None \<Longrightarrow>
     snd (bump (foldl (store_step bump forget) s ops) k) = word_of_nat (Suc (messages_since k ops))"
  using run_counts [of s k 0 ops] next_count_at
  by (simp add: bump_answer messages_since_def counter_at_def)

end

text \<open>The table's operations on a table that is there, with memory to allocate from.\<close>

definition ct_bump :: "client_table \<Rightarrow> client_key \<Rightarrow> client_table \<times> u32" where
  "ct_bump t k = (case rawudp_ct_next True (Some t) k True of
     (_, Some t', Some c) \<Rightarrow> (t', c) | _ \<Rightarrow> (t, 0))"

definition ct_forget :: "client_table \<Rightarrow> client_key \<Rightarrow> client_table" where
  "ct_forget t k = (case rawudp_ct_reset (Some t) k of Some t' \<Rightarrow> t' | None \<Rightarrow> t)"

lemma ct_bump_correct:
  assumes "ct_inv t"
  shows "snd (ct_bump t k) = next_count (ct_lookup t k)"
    and "ct_lookup (fst (ct_bump t k)) = (ct_lookup t)(k \<mapsto> next_count (ct_lookup t k))"
    and "ct_inv (fst (ct_bump t k))"
  using ct_next_success [OF assms, of True k] by (auto simp: ct_bump_def)

lemma ct_forget_correct:
  assumes "ct_inv t"
  shows "ct_lookup (ct_forget t k) = (ct_lookup t)(k := None)" and "ct_inv (ct_forget t k)"
  using ct_reset_correct [OF assms, of k] by (auto simp: ct_forget_def)

interpretation ct: counter_store ct_bump ct_forget ct_lookup ct_inv
  by unfold_locales (simp_all add: ct_bump_correct ct_forget_correct)

section \<open>Properties\<close>

text \<open>
  Property C9. On a well-formed table \<open>rawudp_ct_next\<close> refines the counter map on every branch: it
  answers the successor of the client's counter (1 for a new client) and stores it for that
  client only; a new client for whom no node can be allocated, a NULL table and a NULL result
  pointer give -1 and change nothing.
\<close>

theorem ct_next_refines:
  assumes "ct_inv t"
  shows "(let (r, tp, out) = rawudp_ct_next ok_node (Some t) key out_ok; v = ct_lookup t key
          in if \<not> out_ok \<or> (v = None \<and> \<not> ok_node) then r = - 1 \<and> tp = Some t \<and> out = None
             else r = 0 \<and> out = Some (next_count v) \<and>
                  (\<exists>t'. tp = Some t' \<and> ct_inv t' \<and> ct_lookup t' = (ct_lookup t)(key \<mapsto> next_count v))) \<and>
         rawudp_ct_next ok_node None key out_ok = (- 1, None, None)"
    (is "?refines \<and> ?null")
proof
  consider "\<not> out_ok" | "out_ok" "ct_lookup t key = None" "\<not> ok_node"
    | "out_ok" "ok_node \<or> ct_lookup t key \<noteq> None"
    by blast
  then show ?refines
  proof cases
    case 1
    then show ?thesis by (simp add: rawudp_ct_next_def)
  next
    case 2
    then have "chain_bump key (buckets t ! bucket_of t key) = None"
      by (simp add: chain_bump_None_iff ct_lookup_def)
    with 2 show ?thesis by (simp add: rawudp_ct_next_def Let_def)
  next
    case 3
    with ct_next_success [OF assms 3(2)] show ?thesis by auto
  qed
  show ?null by (simp add: rawudp_ct_next_def)
qed

definition sample_key :: "nat \<Rightarrow> client_key" where
  "sample_key p = \<lparr>key_ip = \<lparr>s_addr = 0x0100007F\<rparr>, key_port = word_of_nat p\<rparr>"

definition sample_table :: client_table where
  "sample_table = \<lparr>buckets = [[\<lparr>node_key = sample_key 20000, node_counter = 0xFFFFFFFF\<rparr>]], nb = 1\<rparr>"

lemma sample_table_inv: "ct_inv sample_table" "ct_lookup sample_table (sample_key 20000) = Some 0xFFFFFFFF"
  by (simp_all add: ct_inv_def sample_table_def bucket_of_def ct_lookup_def)

theorem ct_next_refines_witness:
  "ct_inv sample_table \<and>
   (case rawudp_ct_next True (Some sample_table) (sample_key 20000) True of (r, tp, out) \<Rightarrow>
      r = 0 \<and> out = Some 0)"
  using ct_next_refines [OF sample_table_inv(1), of True "sample_key 20000" True] sample_table_inv
  by (auto simp: next_count_def)

text \<open>
  Starting from a new table, after any sequence of messages and resets of any clients, the
  next message of a client is answered with the number of its messages since its last reset,
  that one included (modulo \<open>2 ^ 32\<close>): clients do not disturb each other, also where their
  keys fall into one bucket.
\<close>

lemma ct_counts_messages:
  assumes "rawudp_ct_create True True = Some t"
  shows "snd (ct_bump (foldl (store_step ct_bump ct_forget) t ops) k) =
           word_of_nat (Suc (messages_since k ops))"
  using ct_create_correct [OF assms] by (simp add: ct.answer_after)

lemma ct_counts_messages_witness:
  "\<exists>t. rawudp_ct_create True True = Some t \<and>
     snd (ct_bump (foldl (store_step ct_bump ct_forget) t
       [Message (sample_key 1), Message (sample_key 2), Farewell (sample_key 2), Message (sample_key 1)])
       (sample_key 1)) = 3"
proof -
  have "rawudp_ct_create True True = Some \<lparr>buckets = replicate 1024 [], nb = 1024\<rparr>"
    by (simp add: rawudp_ct_create_def)
  moreover have "sample_key 1 \<noteq> sample_key 2"
    by (simp add: sample_key_def)
  ultimately show ?thesis
    using ct_counts_messages [where k = "sample_key 1" and ops = "[Message (sample_key 1),
      Message (sample_key 2), Farewell (sample_key 2), Message (sample_key 1)]"]
    by (auto simp: messages_since_def)
qed

end
