(* ===== verification/Echo.thy ===== *)
theory Echo
  imports Packet Client_Table
begin

text \<open>
  \<open>echo_raw/server/echo_server.c\<close> and \<open>echo_raw/client/echo_client.c\<close>, on top of \<open>Packet\<close> and
  \<open>Client_Table\<close>. One round of the server's loop is \<open>server_step\<close>: it takes the datagram \<open>recv\<close>
  returned (empty when \<open>recv\<close> returned 0 or less) and yields the new state and the packet handed
  to \<open>rawudp_send_packet\<close>, if any. The client's loop is \<open>client_packet\<close> for the line it sends and
  \<open>client_wait\<close> for the datagrams it reads until one is the reply. The network between them is a
  parameter.
\<close>

section \<open>The server\<close>

record server_state =
  sv_ct :: client_table
  sv_out :: "u8 list"  \<comment> \<open>the 65536 bytes of \<open>out\<close>\<close>

text \<open>
  The text of a reply: the payload as a C string (cut at 1400 bytes and at its first NUL), a space
  and the counter.
\<close>

definition response :: "u8 list \<Rightarrow> u32 \<Rightarrow> u8 list" where
  "response payload cnt =
     (let copy = min (length payload) RAWUDP_MAX_PAYLOAD;
          msg = take copy payload @ [0]
      in takeWhile (\<lambda>b. b \<noteq> 0) msg @ bytes_of (CHR '' '' # show_nat (unat cnt)))"

definition server_step ::
    "u16 \<Rightarrow> int \<Rightarrow> bool \<Rightarrow> server_state \<Rightarrow> u8 list \<Rightarrow> server_state \<times> (u8 list \<times> in_addr) option" where
  "server_step listen_port pid ok_node sv buf =
     (if buf = [] then (sv, None)
      else case rawudp_parse_ipv4_udp buf of
        Some (Inr v) \<Rightarrow>
          if v_dport v \<noteq> listen_port then (sv, None)
          else (let key = \<lparr>key_ip = v_src v, key_port = v_sport v\<rparr>;
                    payload = payload_of buf v
                in if v_plen v = 8 \<and> take 8 payload = bytes_of ''shutdown''
                   then (case rawudp_ct_reset (Some (sv_ct sv)) key of
                           Some ct \<Rightarrow> (sv\<lparr>sv_ct := ct\<rparr>, None) | None \<Rightarrow> (sv, None))
                   else (case rawudp_ct_next ok_node (Some (sv_ct sv)) key True of
                           (r, Some ct, Some cnt) \<Rightarrow>
                             if r \<noteq> 0 then (sv\<lparr>sv_ct := ct\<rparr>, None)
                             else (let (pkt_len, out) =
                                     rawudp_build_ipv4_udp pid (sv_out sv) (v_dst v) (v_src v)
                                       listen_port (v_sport v) (response payload cnt) 64;
                                     sv' = sv\<lparr>sv_ct := ct, sv_out := out\<rparr>
                                   in if pkt_len < 0 then (sv', None)
                                      else (sv', Some (take (nat pkt_len) out, v_src v)))
                         | _ \<Rightarrow> (sv, None)))
      | _ \<Rightarrow> (sv, None))"

text \<open>The start of \<open>main\<close>: the port from the argument, and the tables it allocates.\<close>

definition port_arg :: "string \<Rightarrow> u16" where "port_arg s = word_of_int (atoi s)"

definition server_start :: "u8 list \<Rightarrow> server_state option" where
  "server_start out =
     map_option (\<lambda>ct. \<lparr>sv_ct = ct, sv_out = out\<rparr>) (rawudp_ct_create True True)"

fun server_run :: "u16 \<Rightarrow> int \<Rightarrow> server_state \<Rightarrow> u8 list list \<Rightarrow> server_state" where
  "server_run port pid sv [] = sv"
| "server_run port pid sv (d # ds) = server_run port pid (fst (server_step port pid True sv d)) ds"

section \<open>The client\<close>

record client_conf =
  cl_server_ip :: in_addr
  cl_server_port :: u16
  cl_local_port :: u16

definition pick_port :: "nat \<Rightarrow> u16" where
  "pick_port r = word_of_nat (20000 + r mod 40000)"

text \<open>
  The checks of \<open>main\<close> on \<open>argv[1..]\<close>; \<open>aton\<close> stands for \<open>inet_aton\<close> and \<open>r\<close> for the value of \<open>rand()\<close>.
\<close>

definition client_args :: "(string \<Rightarrow> in_addr option) \<Rightarrow> nat \<Rightarrow> string list \<Rightarrow> client_conf option" where
  "client_args aton r args =
     (if length args \<noteq> 2 \<and> length args \<noteq> 3 then None
      else case aton (args ! 0) of
        None \<Rightarrow> None
      | Some ip \<Rightarrow>
          (let sport = port_arg (args ! 1)
           in if sport = 0 then None
              else (let lport = (if length args = 3 then port_arg (args ! 2) else pick_port r)
                    in if lport = 0 then None
                       else Some \<lparr>cl_server_ip = ip, cl_server_port = sport, cl_local_port = lport\<rparr>)))"

text \<open>\<open>while (len && (line[len-1] == '\n' || line[len-1] == '\r')) line[--len] = 0;\<close>\<close>

fun strip_eol :: "u8 list \<Rightarrow> u8 list" where
  "strip_eol line =
     (if line \<noteq> [] \<and> (last line = 10 \<or> last line = 13) then strip_eol (butlast line) else line)"

declare strip_eol.simps [simp del]

text \<open>The packet the client builds for a line that \<open>fgets\<close> read; \<open>None\<close> when the build fails.\<close>

definition client_packet :: "client_conf \<Rightarrow> int \<Rightarrow> u8 list \<Rightarrow> u8 list \<Rightarrow> u8 list option" where
  "client_packet c pid out line =
     (let line = strip_eol (takeWhile (\<lambda>b. b \<noteq> 0) line);
          (pkt_len, out') = rawudp_build_ipv4_udp pid out \<lparr>s_addr = 0\<rparr> (cl_server_ip c)
                              (cl_local_port c) (cl_server_port c) line 64
      in if pkt_len < 0 then None else Some (take (nat pkt_len) out'))"

text \<open>Whether a datagram is the reply, and then the bytes the client prints.\<close>

definition client_accepts :: "client_conf \<Rightarrow> u8 list \<Rightarrow> u8 list option" where
  "client_accepts c buf =
     (if buf = [] then None
      else case rawudp_parse_ipv4_udp buf of
        Some (Inr v) \<Rightarrow>
          if s_addr (v_src v) \<noteq> s_addr (cl_server_ip c) then None
          else if v_sport v \<noteq> cl_server_port c then None
          else if v_dport v \<noteq> cl_local_port c then None
          else Some (payload_of buf v)
      | _ \<Rightarrow> None)"

text \<open>The inner loop: \<open>None\<close> when no datagram of the list ends it.\<close>

fun client_wait :: "client_conf \<Rightarrow> u8 list list \<Rightarrow> (u8 list \<times> u8 list list) option" where
  "client_wait c [] = None"
| "client_wait c (d # ds) =
     (case client_accepts c d of Some out \<Rightarrow> Some (out, ds) | None \<Rightarrow> client_wait c ds)"

text \<open>
  The outer loop over the lines of the input, with the datagrams that arrive: what is printed, and
  whether the client ended (\<open>False\<close>: it still waits for a reply). \<open>sent_ok\<close> tells for each
  packet whether \<open>rawudp_send_packet\<close> succeeds.
\<close>

fun client_loop ::
    "client_conf \<Rightarrow> int \<Rightarrow> u8 list \<Rightarrow> (u8 list \<Rightarrow> bool) \<Rightarrow> u8 list list \<Rightarrow> u8 list list \<Rightarrow> u8 list list \<times> bool" where
  "client_loop c pid out sent_ok [] ds = ([], True)"
| "client_loop c pid out sent_ok (line # lines) ds =
     (case client_packet c pid out line of
        None \<Rightarrow> client_loop c pid out sent_ok lines ds
      | Some pkt \<Rightarrow>
          if \<not> sent_ok pkt then client_loop c pid out sent_ok lines ds
          else if strip_eol (takeWhile (\<lambda>b. b \<noteq> 0) line) = bytes_of ''shutdown'' then ([], True)
          else (case client_wait c ds of
                  None \<Rightarrow> ([], False)
                | Some (shown, ds') \<Rightarrow>
                    (let (rest, fin) = client_loop c pid out sent_ok lines ds'
                     in (shown # rest, fin))))"

section \<open>Lemmas on replies\<close>

lemma unat_u32_digits: "length (show_nat (unat (c :: u32))) \<le> 10"
  using unsigned_less [of c, where ?'a = nat] by (intro show_nat_length) simp_all

text \<open>What the text of a reply has to be: the first 1400 bytes of the text up to its first NUL, a space, the number.\<close>

definition reply_text :: "u8 list \<Rightarrow> u32 \<Rightarrow> u8 list" where
  "reply_text payload cnt =
     takeWhile (\<lambda>b. b \<noteq> 0) (take 1400 payload) @ bytes_of (CHR '' '' # show_nat (unat cnt))"

lemma response_eq: "response payload cnt = reply_text payload cnt"
  by (simp add: response_def reply_text_def RAWUDP_MAX_PAYLOAD_def Let_def takeWhile_tail min_def)

text \<open>\<open>resp\<close> has 1528 bytes: \<open>snprintf\<close> never truncates a reply.\<close>

lemma response_fits: "length (response payload cnt) < RAWUDP_MAX_PAYLOAD + 128"
proof -
  have "length (takeWhile (\<lambda>b. b \<noteq> 0) (take 1400 payload)) \<le> 1400"
    using length_takeWhile_le [of "\<lambda>b. b \<noteq> 0" "take 1400 payload"] by simp
  then show ?thesis
    using unat_u32_digits [of cnt] by (simp add: response_eq reply_text_def RAWUDP_MAX_PAYLOAD_def)
qed

lemma reply_text_short:
  "0 \<notin> set payload \<Longrightarrow> length payload \<le> 1400 \<Longrightarrow>
     reply_text payload cnt = payload @ bytes_of (CHR '' '' # show_nat (unat cnt))"
  by (simp add: reply_text_def takeWhile_eq_all_conv) (metis takeWhile_eq_all_conv)

section \<open>One round of the server\<close>

text \<open>What a datagram means to the server: a message or a farewell of a client, or nothing.\<close>

definition sender_of :: "u8 list \<Rightarrow> client_key" where
  "sender_of buf = \<lparr>key_ip = v_src (view_of buf), key_port = v_sport (view_of buf)\<rparr>"

definition datagram_op :: "u16 \<Rightarrow> u8 list \<Rightarrow> client_key store_op option" where
  "datagram_op port buf =
     (if is_udp4 buf \<and> v_dport (view_of buf) = port
      then Some (if payload_of buf (view_of buf) = bytes_of ''shutdown''
                 then Farewell (sender_of buf) else Message (sender_of buf))
      else None)"

text \<open>The answer to a message with counter \<open>c\<close>: nothing when the reply is longer than 1400 bytes.\<close>

definition answer :: "u16 \<Rightarrow> int \<Rightarrow> u8 list \<Rightarrow> u32 \<Rightarrow> (u8 list \<times> in_addr) option" where
  "answer port pid buf c =
     (let v = view_of buf; resp = reply_text (payload_of buf v) c
      in if length resp \<le> 1400
         then Some (built_packet pid (v_dst v) (v_src v) port (v_sport v) resp 64, v_src v)
         else None)"

definition server_inv :: "server_state \<Rightarrow> bool" where
  "server_inv sv \<longleftrightarrow> ct_inv (sv_ct sv) \<and> length (sv_out sv) = 65536"

lemma shutdown_payload:
  "is_udp4 buf \<Longrightarrow>
     (v_plen (view_of buf) = 8 \<and> take 8 (payload_of buf (view_of buf)) = bytes_of ''shutdown'')
       \<longleftrightarrow> payload_of buf (view_of buf) = bytes_of ''shutdown''"
proof -
  assume "is_udp4 buf"
  then have "length (payload_of buf (view_of buf)) = v_plen (view_of buf)"
    by (rule length_payload_of)
  moreover have "length (bytes_of ''shutdown'') = 8" by simp
  ultimately show ?thesis by (metis order_refl take_all)
qed

lemma is_udp4_nonempty: "is_udp4 buf \<Longrightarrow> buf \<noteq> []"
  by (auto simp: is_udp4_def)

lemma server_step_ignores:
  "datagram_op port buf = None \<Longrightarrow> server_step port pid ok sv buf = (sv, None)"
  by (auto simp: server_step_def parse_correct datagram_op_def)

lemma server_step_farewell:
  assumes "server_inv sv" and op: "datagram_op port buf = Some (Farewell k)"
  shows "server_step port pid ok sv buf = (sv\<lparr>sv_ct := ct_forget (sv_ct sv) k\<rparr>, None)"
proof -
  from op have u: "is_udp4 buf" "v_dport (view_of buf) = port" "k = sender_of buf"
    "payload_of buf (view_of buf) = bytes_of ''shutdown''"
    by (auto simp: datagram_op_def split: if_splits)
  with assms(1) ct_reset_correct [of "sv_ct sv" k] shutdown_payload [OF u(1)] is_udp4_nonempty [OF u(1)]
  show ?thesis
    by (auto simp: server_step_def parse_correct ct_forget_def sender_of_def server_inv_def Let_def)
qed

lemma server_step_message:
  assumes inv: "server_inv sv" and op: "datagram_op port buf = Some (Message k)"
  shows "sv_ct (fst (server_step port pid True sv buf)) = fst (ct_bump (sv_ct sv) k) \<and>
         length (sv_out (fst (server_step port pid True sv buf))) = 65536 \<and>
         snd (server_step port pid True sv buf) = answer port pid buf (snd (ct_bump (sv_ct sv) k))"
proof -
  from op have u: "is_udp4 buf" "v_dport (view_of buf) = port" "k = sender_of buf"
    "payload_of buf (view_of buf) \<noteq> bytes_of ''shutdown''"
    by (auto simp: datagram_op_def split: if_splits)
  from inv ct_next_success [of "sv_ct sv" True k] obtain t c where
    n: "rawudp_ct_next True (Some (sv_ct sv)) k True = (0, Some t, Some c)"
    by (auto simp: server_inv_def)
  then have b: "ct_bump (sv_ct sv) k = (t, c)"
    by (simp add: ct_bump_def)
  have "length (sv_out sv) = 65536" using inv by (simp add: server_inv_def)
  with u n b shutdown_payload [OF u(1)] is_udp4_nonempty [OF u(1)] show ?thesis
    by (auto simp: server_step_def parse_correct sender_of_def answer_def response_eq build_eq Let_def nat_add_distrib)
qed

lemma server_step_inv:
  assumes "server_inv sv"
  shows "server_inv (fst (server_step port pid True sv buf))"
proof (cases "datagram_op port buf")
  case None
  with assms show ?thesis by (simp add: server_step_ignores)
next
  case (Some op)
  with assms show ?thesis
    using server_step_message [of sv port buf] server_step_farewell [of sv port buf]
    by (cases op) (auto simp: server_inv_def ct_bump_correct ct_forget_correct)
qed

text \<open>The table after a run is the table after the operations its datagrams stand for.\<close>

lemma server_run_table:
  "server_inv sv \<Longrightarrow>
     server_inv (server_run port pid sv ds) \<and>
     sv_ct (server_run port pid sv ds) =
       foldl (store_step ct_bump ct_forget) (sv_ct sv) (List.map_filter (datagram_op port) ds)"
proof (induction ds arbitrary: sv)
  case (Cons d ds)
  note IH = Cons.IH [OF server_step_inv [OF Cons.prems]]
  show ?case
  proof (cases "datagram_op port d")
    case None
    then show ?thesis
      using Cons by (simp add: server_step_ignores List.map_filter_simps)
  next
    case (Some op)
    have "sv_ct (fst (server_step port pid True sv d)) = store_step ct_bump ct_forget (sv_ct sv) op"
      using Some Cons.prems server_step_message [of sv port d] server_step_farewell [of sv port d]
      by (cases op) (auto simp: store_step_def)
    with IH Some show ?thesis by (simp add: List.map_filter_simps)
  qed
qed (simp add: List.map_filter_simps)

lemma server_start_correct:
  "server_start out = Some sv \<Longrightarrow> length out = 65536 \<Longrightarrow> server_inv sv \<and> ct_lookup (sv_ct sv) = Map.empty"
  using ct_create_correct by (auto simp: server_start_def server_inv_def)

section \<open>Properties of the server\<close>

lemma server_numbers_messages_aux:
  assumes "server_start out = Some sv" and "length out = 65536"
    and "datagram_op port d = Some (Message k)"
  shows "snd (server_step port pid True (server_run port pid sv ds) d) =
           answer port pid d
             (word_of_nat (Suc (messages_since k (List.map_filter (datagram_op port) ds))))"
proof -
  from server_start_correct [OF assms(1,2)] have sv: "server_inv sv" "ct_lookup (sv_ct sv) k = None"
    by auto
  from server_run_table [OF sv(1)] have
    r: "server_inv (server_run port pid sv ds)" and
    t: "sv_ct (server_run port pid sv ds) =
          foldl (store_step ct_bump ct_forget) (sv_ct sv) (List.map_filter (datagram_op port) ds)"
    by auto
  show ?thesis
    using server_step_message [OF r assms(3)] ct.answer_after [OF _ sv(2)] sv(1)
    by (simp add: t server_inv_def)
qed

text \<open>
  Property C5. Whatever datagrams a server has received since its start, a message of a client is
  answered to that client, from the address and port it was sent to, with its text and the number
  of the client's messages since its last \<open>shutdown\<close>; datagrams of other clients, of other ports
  and malformed ones do not count. The reply is not sent when it is longer than 1400 bytes.
\<close>

theorem server_numbers_messages:
  assumes "server_start out = Some sv" and "length out = 65536"
    and "datagram_op port d = Some (Message k)"
  shows "snd (server_step port pid True (server_run port pid sv ds) d) =
           answer port pid d
             (word_of_nat (Suc (messages_since k (List.map_filter (datagram_op port) ds))))"
  using assms by (rule server_numbers_messages_aux)

lemma built_packet_view:
  assumes "length payload \<le> 1400"
  shows "is_udp4 (built_packet pid src dst sport dport payload ttl)"
    and "view_of (built_packet pid src dst sport dport payload ttl) =
           \<lparr>v_src = src, v_dst = dst, v_sport = sport, v_dport = dport, v_off = 28, v_plen = length payload\<rparr>"
  using parse_built_packet [OF assms, of pid src dst sport dport ttl]
    parse_correct [of "built_packet pid src dst sport dport payload ttl"]
  by (simp_all split: if_splits)

lemma datagram_op_built:
  "length payload \<le> 1400 \<Longrightarrow>
     datagram_op port (built_packet pid src dst sport port payload ttl) =
       Some (if payload = bytes_of ''shutdown'' then Farewell \<lparr>key_ip = src, key_port = sport\<rparr>
             else Message \<lparr>key_ip = src, key_port = sport\<rparr>)"
  by (simp add: datagram_op_def sender_of_def built_packet_view payload_of_built_packet)

definition sample_out :: "u8 list" where "sample_out = replicate 65536 0"

definition sample_start :: server_state where
  "sample_start = \<lparr>sv_ct = \<lparr>buckets = replicate 1024 [], nb = 1024\<rparr>, sv_out = sample_out\<rparr>"

lemma sample_start: "server_start sample_out = Some sample_start" "length sample_out = 65536"
  by (simp_all add: server_start_def sample_start_def rawudp_ct_create_def sample_out_def)

theorem server_numbers_messages_witness:
  "let client = \<lparr>s_addr = 0x0200000A\<rparr>; server = \<lparr>s_addr = 0x0100000A\<rparr>;
       d = built_packet 7 client server 20000 9000 (bytes_of ''hi'') 64
   in server_start sample_out = Some sample_start \<and> length sample_out = 65536 \<and>
      datagram_op 9000 d = Some (Message \<lparr>key_ip = client, key_port = 20000\<rparr>) \<and>
      snd (server_step 9000 1 True (server_run 9000 1 sample_start [d, d]) d) =
        Some (built_packet 1 server client 9000 20000 (bytes_of ''hi 3'') 64, client)"
proof -
  let ?client = "\<lparr>s_addr = 0x0200000A\<rparr>" and ?server = "\<lparr>s_addr = 0x0100000A\<rparr>"
  let ?d = "built_packet 7 ?client ?server 20000 9000 (bytes_of ''hi'') 64"
  have op: "datagram_op 9000 ?d = Some (Message \<lparr>key_ip = ?client, key_port = 20000\<rparr>)"
    by (subst datagram_op_built) simp_all
  have v: "view_of ?d = \<lparr>v_src = ?client, v_dst = ?server, v_sport = 20000, v_dport = 9000,
      v_off = 28, v_plen = length (bytes_of ''hi'')\<rparr>"
    by (rule built_packet_view) simp
  have "show_nat 3 = ''3''" by code_simp
  then have "reply_text (payload_of ?d (view_of ?d)) 3 = bytes_of ''hi 3''"
    unfolding v payload_of_built_packet by (subst reply_text_short) simp_all
  then have "answer 9000 1 ?d 3 =
      Some (built_packet 1 ?server ?client 9000 20000 (bytes_of ''hi 3'') 64, ?client)"
    using v by (simp add: answer_def Let_def)
  then show ?thesis
    using server_numbers_messages [OF sample_start op, of 1 "[?d, ?d]"] op sample_start
    by (simp add: messages_since_def Let_def)
qed

section \<open>Client and server together\<close>

text \<open>
  The client sends with source address 0 (\<open>INADDR_ANY\<close>). That the sending host's network layer
  fills the address in, and delivers the rest of the packet as it is, is what the pair of programs
  relies on: \<open>net\<close> is the network, \<open>ip\<close> the client's address.
\<close>

definition delivers :: "(u8 list \<Rightarrow> u8 list) \<Rightarrow> in_addr \<Rightarrow> bool" where
  "delivers net ip \<longleftrightarrow> (\<forall>pkt. is_udp4 pkt \<longrightarrow>
     is_udp4 (net pkt) \<and> view_of (net pkt) = (view_of pkt)\<lparr>v_src := ip\<rparr> \<and>
     payload_of (net pkt) (view_of (net pkt)) = payload_of pkt (view_of pkt))"

lemma strip_eol_line: "t = [] \<or> last t \<noteq> 10 \<and> last t \<noteq> 13 \<Longrightarrow> strip_eol (t @ [10]) = t"
  by (subst strip_eol.simps, subst strip_eol.simps) auto

lemma client_packet_line:
  assumes "0 \<notin> set t" and "t = [] \<or> last t \<noteq> 10 \<and> last t \<noteq> 13"
    and "length t \<le> 1400" and "length out = 65536"
  shows "client_packet c pid out (t @ [10]) =
    Some (built_packet pid \<lparr>s_addr = 0\<rparr> (cl_server_ip c) (cl_local_port c) (cl_server_port c) t 64)"
proof -
  have "takeWhile (\<lambda>b. b \<noteq> 0) (t @ [10]) = t @ [10]"
    using assms(1) by (auto simp: takeWhile_eq_all_conv)
  then show ?thesis
    using assms by (simp add: client_packet_def strip_eol_line build_eq Let_def nat_add_distrib)
qed

lemma client_accepts_built:
  assumes "length payload \<le> 1400"
  shows "client_accepts c
    (built_packet pid (cl_server_ip c) dst (cl_server_port c) (cl_local_port c) payload ttl) = Some payload"
proof -
  let ?p = "built_packet pid (cl_server_ip c) dst (cl_server_port c) (cl_local_port c) payload ttl"
  have "?p \<noteq> []" using is_udp4_nonempty built_packet_view(1) [OF assms] by blast
  then show ?thesis
    by (simp add: client_accepts_def parse_built_packet [OF assms] payload_of_built_packet)
qed

text \<open>What the server makes of the client's packet as the network delivers it.\<close>

lemma delivered_line:
  fixes c :: client_conf and cpid :: int
  assumes "delivers net ip" "length t \<le> 1400" "t \<noteq> bytes_of ''shutdown''"
  defines "d \<equiv> net (built_packet cpid \<lparr>s_addr = 0\<rparr> (cl_server_ip c) (cl_local_port c) (cl_server_port c) t 64)"
  shows "datagram_op (cl_server_port c) d = Some (Message \<lparr>key_ip = ip, key_port = cl_local_port c\<rparr>)"
    and "view_of d = \<lparr>v_src = ip, v_dst = cl_server_ip c, v_sport = cl_local_port c, v_dport = cl_server_port c,
           v_off = 28, v_plen = length t\<rparr>"
    and "payload_of d (view_of d) = t"
proof -
  let ?pkt = "built_packet cpid \<lparr>s_addr = 0\<rparr> (cl_server_ip c) (cl_local_port c) (cl_server_port c) t 64"
  note w = built_packet_view [OF assms(2)]
  have u: "is_udp4 d" and v: "view_of d = (view_of ?pkt)\<lparr>v_src := ip\<rparr>"
    and p: "payload_of d (view_of d) = payload_of ?pkt (view_of ?pkt)"
    using assms(1) w(1) unfolding delivers_def d_def by blast+
  show view: "view_of d = \<lparr>v_src = ip, v_dst = cl_server_ip c, v_sport = cl_local_port c, v_dport = cl_server_port c,
      v_off = 28, v_plen = length t\<rparr>"
    by (simp add: v w(2))
  show pl: "payload_of d (view_of d) = t"
    unfolding p w(2) by (rule payload_of_built_packet)
  show "datagram_op (cl_server_port c) d = Some (Message \<lparr>key_ip = ip, key_port = cl_local_port c\<rparr>)"
    using assms(3) u pl by (simp add: datagram_op_def sender_of_def view)
qed

text \<open>
  A line typed at the client, of text without NUL, comes back: the client builds a packet
  for it, the server answers the packet as the network delivers it, and the client takes the
  answer for its reply and prints the line followed by a space and the client's count.
\<close>

lemma echo_round_trip:
  assumes "server_inv sv" and "delivers net ip" and "length out = 65536"
    and "0 \<notin> set t" and "t = [] \<or> last t \<noteq> 10 \<and> last t \<noteq> 13" and "t \<noteq> bytes_of ''shutdown''"
    and cnt: "cnt = next_count (ct_lookup (sv_ct sv) \<lparr>key_ip = ip, key_port = cl_local_port c\<rparr>)"
    and fits: "length t + 1 + length (show_nat (unat cnt)) \<le> 1400"
  shows "\<exists>pkt reply. client_packet c cpid out (t @ [10]) = Some pkt \<and>
           datagram_op (cl_server_port c) (net pkt) = Some (Message \<lparr>key_ip = ip, key_port = cl_local_port c\<rparr>) \<and>
           snd (server_step (cl_server_port c) spid True sv (net pkt)) = Some (reply, ip) \<and>
           client_accepts c reply = Some (t @ bytes_of (CHR '' '' # show_nat (unat cnt)))"
proof -
  let ?pkt = "built_packet cpid \<lparr>s_addr = 0\<rparr> (cl_server_ip c) (cl_local_port c) (cl_server_port c) t 64"
  let ?k = "\<lparr>key_ip = ip, key_port = cl_local_port c\<rparr>"
  let ?resp = "t @ bytes_of (CHR '' '' # show_nat (unat cnt))"
  have len: "length t \<le> 1400" using fits by simp
  have sent: "client_packet c cpid out (t @ [10]) = Some ?pkt"
    using client_packet_line [OF assms(4,5) len assms(3)] .
  note d = delivered_line [OF assms(2) len assms(6), where c = c and cpid = cpid]
  have "snd (ct_bump (sv_ct sv) ?k) = cnt"
    using assms(1) ct_bump_correct(1) by (simp add: server_inv_def cnt)
  with server_step_message [OF assms(1) d(1)] have
    "snd (server_step (cl_server_port c) spid True sv (net ?pkt)) =
       Some (built_packet spid (cl_server_ip c) ip (cl_server_port c) (cl_local_port c) ?resp 64, ip)"
    using fits reply_text_short [OF assms(4) len] by (simp add: answer_def d(2) d(3) [unfolded d(2)] Let_def)
  moreover have "length ?resp \<le> 1400" using fits by simp
  ultimately show ?thesis
    using sent d(1) client_accepts_built by blast
qed

text \<open>A network that writes the client's address into the header.\<close>

definition fill_source :: "in_addr \<Rightarrow> u8 list \<Rightarrow> u8 list" where
  "fill_source ip pkt = take 12 pkt @ le32_bytes (s_addr ip) @ drop 16 pkt"

lemma fill_source_nth:
  "20 \<le> length pkt \<Longrightarrow> i < 12 \<or> 16 \<le> i \<Longrightarrow> fill_source ip pkt ! i = pkt ! i"
  by (auto simp: fill_source_def nth_append)

lemma fill_source_delivers: "delivers (fill_source ip) ip"
  unfolding delivers_def
proof (intro allI impI)
  fix pkt assume u: "is_udp4 pkt"
  then have l: "20 \<le> length pkt" and h: "20 \<le> ip_header_len pkt" by (auto simp: is_udp4_def)
  let ?q = "fill_source ip pkt"
  have len: "length ?q = length pkt" using l by (simp add: fill_source_def)
  note n = fill_source_nth [OF l, of _ ip]
  have hl: "ip_header_len ?q = ip_header_len pkt" by (simp add: ip_header_len_def n)
  have ul: "udp_length ?q = udp_length pkt" using h by (simp add: udp_length_def hl n)
  have src: "?q ! 12 = ucast (s_addr ip)" "?q ! 13 = ucast (drop_bit 8 (s_addr ip))"
    "?q ! 14 = ucast (drop_bit 16 (s_addr ip))" "?q ! 15 = ucast (drop_bit 24 (s_addr ip))"
    using l by (simp_all add: fill_source_def nth_append le32_bytes_def)
  have v: "view_of ?q = (view_of pkt)\<lparr>v_src := ip\<rparr>"
    using h by (simp add: view_of_def hl ul n src le32_le32_bytes Let_def)
  have "drop (ip_header_len pkt + 8) ?q = drop (ip_header_len pkt + 8) pkt"
    using h l by (simp add: fill_source_def add.commute)
  with v u show "is_udp4 ?q \<and> view_of ?q = (view_of pkt)\<lparr>v_src := ip\<rparr> \<and>
      payload_of ?q (view_of ?q) = payload_of pkt (view_of pkt)"
    by (simp add: is_udp4_def len hl ul n payload_of_def) (simp add: view_of_def Let_def)
qed

definition sample_conf :: client_conf where
  "sample_conf = \<lparr>cl_server_ip = \<lparr>s_addr = 0x0100000A\<rparr>, cl_server_port = 9000, cl_local_port = 20000\<rparr>"

end
