(* ===== verification/Echo_Main.thy ===== *)
theory Echo_Main
  imports Echo
begin

text \<open>
  The \<open>main\<close> functions of the echo server and client around the loops of the theory \<open>Echo\<close>: arguments, sockets,
  the table, the standard input; and whole sessions of the two programs over a network. The answers of
  the socket calls and of \<open>malloc\<close> are arguments. The server never leaves its loop, so its
  result after a list of datagrams is a state and what it has sent.
\<close>

section \<open>The server\<close>

text \<open>Rounds of the loop, each with its datagram and the answer of \<open>malloc\<close>, and the packets sent.\<close>

fun server_loop ::
  "u16 \<Rightarrow> int \<Rightarrow> server_state \<Rightarrow> (u8 list \<times> bool) list \<Rightarrow> server_state \<times> (u8 list \<times> in_addr) list" where
  "server_loop port pid sv [] = (sv, [])"
| "server_loop port pid sv ((d, ok) # ds) =
     (let (sv1, r) = server_step port pid ok sv d;
          (sv2, sent) = server_loop port pid sv1 ds
      in (sv2, (case r of None \<Rightarrow> sent | Some p \<Rightarrow> p # sent)))"

text \<open>Status 1 with a message, or in the loop.\<close>

datatype server_end = Server_refused string | Serving server_state "(u8 list \<times> in_addr) list"

definition echo_server_main ::
  "string list \<Rightarrow> int \<Rightarrow> int \<times> int \<Rightarrow> bool \<times> bool \<Rightarrow> u8 list \<Rightarrow> int \<Rightarrow> (u8 list \<times> bool) list \<Rightarrow> server_end" where
  "echo_server_main args rs ss mem out pid ds =
     (if length args \<noteq> 1 then Server_refused ''usage''
      else
        (let listen_port = port_arg (args ! 0) in
         if listen_port = 0 then Server_refused ''bad port''
         else if rawudp_open_recv_socket rs < 0 then Server_refused ''recv socket''
         else if fst (rawudp_open_send_socket (fst ss) (snd ss)) < 0 then Server_refused ''send socket''
         else
           (case rawudp_ct_create (fst mem) (snd mem) of
              None \<Rightarrow> Server_refused ''client table''
            | Some ct \<Rightarrow>
                (let (sv, sent) = server_loop listen_port pid \<lparr>sv_ct = ct, sv_out = out\<rparr> ds in Serving sv sent))))"

text \<open>With memory for every client a run is the run of the theory \<open>Echo\<close>.\<close>

lemma server_loop_run: "fst (server_loop port pid sv (map (\<lambda>d. (d, True)) ds)) = server_run port pid sv ds"
  by (induction ds arbitrary: sv) (simp_all add: case_prod_beta Let_def)

text \<open>\<open>main\<close> serves exactly when it has one argument, a port that is not 0 as a 16-bit number, both sockets and its table.\<close>

lemma server_serves_iff:
  "(\<exists>sv sent. echo_server_main args rs ss mem out pid ds = Serving sv sent) \<longleftrightarrow>
     length args = 1 \<and> port_arg (args ! 0) \<noteq> 0 \<and> 0 \<le> rs \<and> 0 \<le> fst ss \<and> 0 \<le> snd ss \<and> fst mem \<and> snd mem"
  by (auto simp: echo_server_main_def rawudp_open_recv_socket_def rawudp_open_send_socket_def rawudp_ct_create_def Let_def
      split: prod.split)

section \<open>The client\<close>

text \<open>\<open>fgets\<close> into \<open>line\<close>, round after round: a long line comes in pieces.\<close>

function echo_lines :: "string \<Rightarrow> u8 list list" where
  "echo_lines stdin =
     (case fgets RAWUDP_MAX_PAYLOAD stdin of None \<Rightarrow> [] | Some (l, rest) \<Rightarrow> bytes_of l # echo_lines rest)"
  by pat_completeness auto
termination
  by (relation "measure length") (auto simp: RAWUDP_MAX_PAYLOAD_def dest: fgets_shorter)

declare echo_lines.simps [simp del]

text \<open>Status 1 before the loop; waiting for a reply; or ended with status 0, the sockets closed.\<close>

datatype client_end = Client_refused | Client_died string | Client_waits "u8 list list" | Client_done "u8 list list"

definition echo_client_main ::
  "(string \<Rightarrow> in_addr option) \<Rightarrow> nat \<Rightarrow> string list \<Rightarrow> int \<Rightarrow> int \<times> int \<Rightarrow> int \<Rightarrow> u8 list \<Rightarrow>
     (u8 list \<Rightarrow> bool) \<Rightarrow> string \<Rightarrow> u8 list list \<Rightarrow> client_end" where
  "echo_client_main aton r args rs ss pid out sent_ok stdin ds =
     (case client_args aton r args of
        None \<Rightarrow> Client_refused
      | Some c \<Rightarrow>
          if rawudp_open_recv_socket rs < 0 then Client_died ''recv socket''
          else if fst (rawudp_open_send_socket (fst ss) (snd ss)) < 0 then Client_died ''send socket''
          else
            (let (shown, ended) = client_loop c pid out sent_ok (echo_lines stdin) ds
             in if ended then Client_done shown else Client_waits shown))"

section \<open>Sessions\<close>

text \<open>
  A session of a client with the server: in each round the server first gets datagrams of others, then the
  client's packet through the network; and the client's socket gets other datagrams in front of the
  reply. \<open>arrivals\<close> is what the client's socket receives.
\<close>

type_synonym round = "string \<times> u8 list list \<times> u8 list list"

fun arrivals ::
  "client_conf \<Rightarrow> (u8 list \<Rightarrow> u8 list) \<Rightarrow> int \<Rightarrow> int \<Rightarrow> u8 list \<Rightarrow> server_state \<Rightarrow> round list \<Rightarrow> u8 list list" where
  "arrivals c net cpid spid out sv [] = []"
| "arrivals c net cpid spid out sv ((t, others, noise) # rounds) =
     (let sv1 = server_run (cl_server_port c) spid sv others in
      case client_packet c cpid out (bytes_of t @ [10]) of
        None \<Rightarrow> noise @ arrivals c net cpid spid out sv1 rounds
      | Some pkt \<Rightarrow>
          (let (sv2, reply) = server_step (cl_server_port c) spid True sv1 (net pkt) in
           noise @ (case reply of None \<Rightarrow> [] | Some (p, ip) \<Rightarrow> [p]) @ arrivals c net cpid spid out sv2 rounds))"

text \<open>The server after the session.\<close>

fun server_after ::
  "client_conf \<Rightarrow> (u8 list \<Rightarrow> u8 list) \<Rightarrow> int \<Rightarrow> int \<Rightarrow> u8 list \<Rightarrow> server_state \<Rightarrow> round list \<Rightarrow> server_state" where
  "server_after c net cpid spid out sv [] = sv"
| "server_after c net cpid spid out sv ((t, others, noise) # rounds) =
     (let sv1 = server_run (cl_server_port c) spid sv others in
      case client_packet c cpid out (bytes_of t @ [10]) of
        None \<Rightarrow> server_after c net cpid spid out sv1 rounds
      | Some pkt \<Rightarrow>
          server_after c net cpid spid out (fst (server_step (cl_server_port c) spid True sv1 (net pkt))) rounds)"

lemma session_append:
  "arrivals c net cpid spid out sv (xs @ ys) =
     arrivals c net cpid spid out sv xs @ arrivals c net cpid spid out (server_after c net cpid spid out sv xs) ys"
  "server_after c net cpid spid out sv (xs @ ys) =
     server_after c net cpid spid out (server_after c net cpid spid out sv xs) ys"
  by (induction xs arbitrary: sv) (auto simp: case_prod_beta Let_def split: option.splits)

text \<open>A line that fits with its number, and a datagram that is not the client's.\<close>

definition plain_line :: "string \<Rightarrow> bool" where
  "plain_line t = (NL \<notin> set t \<and> NUL \<notin> set t \<and> (t = [] \<or> last t \<noteq> CHR 0x0D) \<and> t \<noteq> ''shutdown'')"

definition sayable :: "string \<Rightarrow> bool" where
  "sayable t = (plain_line t \<and> length t \<le> 1389)"

definition foreign :: "u16 \<Rightarrow> client_key \<Rightarrow> u8 list \<Rightarrow> bool" where
  "foreign port k d = (datagram_op port d \<noteq> Some (Message k) \<and> datagram_op port d \<noteq> Some (Farewell k))"

definition fair_round :: "client_conf \<Rightarrow> in_addr \<Rightarrow> round \<Rightarrow> bool" where
  "fair_round c ip r =
     (case r of (t, others, noise) \<Rightarrow>
        sayable t \<and> (\<forall>d \<in> set others. foreign (cl_server_port c) \<lparr>key_ip = ip, key_port = cl_local_port c\<rparr> d)
        \<and> (\<forall>d \<in> set noise. client_accepts c d = None))"

definition numbered :: "nat \<Rightarrow> round list \<Rightarrow> u8 list list" where
  "numbered n rounds = map (\<lambda>(i, t, _). bytes_of (t @ '' '' @ show_nat i)) (enumerate n rounds)"

lemma numbered_simps [simp]:
  "numbered n [] = []" "numbered n ((t, b) # rs) = bytes_of (t @ '' '' @ show_nat n) # numbered (Suc n) rs"
  by (simp_all add: numbered_def)

lemma plain_line_bytes:
  assumes "plain_line t"
  shows "0 \<notin> set (bytes_of t)" "bytes_of t = [] \<or> last (bytes_of t) \<noteq> 10 \<and> last (bytes_of t) \<noteq> 13"
    "bytes_of t \<noteq> bytes_of ''shutdown''" "takeWhile (\<lambda>b. b \<noteq> 0) (bytes_of t @ [10]) = bytes_of t @ [10]"
proof -
  show z: "0 \<notin> set (bytes_of t)" using assms by (simp add: plain_line_def)
  show "bytes_of t \<noteq> bytes_of ''shutdown''" using assms by (simp add: plain_line_def del: bytes_of_simps)
  show "takeWhile (\<lambda>b. b \<noteq> 0) (bytes_of t @ [10]) = bytes_of t @ [10]"
    using z by (auto simp: takeWhile_eq_all_conv)
  have "[last t] \<noteq> [NL]" "[last t] \<noteq> [CHR 0x0D]" if "t \<noteq> []"
    using assms that last_in_set [OF that] unfolding plain_line_def by (metis list.inject)+
  then have "bytes_of [last t] \<noteq> bytes_of [NL]" "bytes_of [last t] \<noteq> bytes_of [CHR 0x0D]" if "t \<noteq> []"
    using that by (simp_all only: bytes_of_inject) blast+
  then show "bytes_of t = [] \<or> last (bytes_of t) \<noteq> 10 \<and> last (bytes_of t) \<noteq> 13"
    by (cases "t = []") (auto simp: bytes_of_def last_map NL_def)
qed

text \<open>The typed lines reach the loop as they are.\<close>

lemma echo_lines_long:
  assumes "NL \<notin> set t" "NUL \<notin> set t" "length t \<le> 1398"
  shows "echo_lines (t @ NL # rest) = (bytes_of t @ [10]) # echo_lines rest"
proof -
  have "fgets RAWUDP_MAX_PAYLOAD (t @ NL # rest) = Some (t @ [NL], rest)"
    using assms by (simp add: fgets_def RAWUDP_MAX_PAYLOAD_def fgets_take_line)
  then show ?thesis by (subst echo_lines.simps) (simp add: NL_def)
qed

lemma echo_lines_append:
  "\<forall>t \<in> set ts. sayable t \<Longrightarrow>
     echo_lines (concat (map (\<lambda>t. t @ [NL]) ts) @ rest) = map (\<lambda>t. bytes_of t @ [10]) ts @ echo_lines rest"
  by (induction ts) (simp_all add: echo_lines_long sayable_def plain_line_def)

text \<open>Datagrams of others leave the client's counter alone.\<close>

lemma messages_from_foreign:
  "\<forall>d \<in> set ds. foreign port k d \<Longrightarrow> messages_from n k (List.map_filter (datagram_op port) ds) = n"
proof (induction ds)
  case (Cons d ds)
  then show ?case
    by (cases "datagram_op port d" rule: option.exhaust; cases "the (datagram_op port d)")
      (auto simp: List.map_filter_simps foreign_def)
qed (simp add: List.map_filter_simps)

lemma others_keep_counter:
  assumes "server_inv sv" "counter_at (ct_lookup (sv_ct sv) k) n" "\<forall>d \<in> set ds. foreign port k d"
  shows "server_inv (server_run port pid sv ds)" "counter_at (ct_lookup (sv_ct (server_run port pid sv ds)) k) n"
  using server_run_table [OF assms(1), of port pid ds] assms(1,2) messages_from_foreign [OF assms(3), of n]
    ct.run_counts [of "sv_ct sv" k n "List.map_filter (datagram_op port) ds"]
  by (simp_all add: server_inv_def)

lemma message_counts:
  assumes "server_inv sv" "counter_at (ct_lookup (sv_ct sv) k) n" "datagram_op port d = Some (Message k)"
  shows "server_inv (fst (server_step port pid True sv d))"
    and "counter_at (ct_lookup (sv_ct (fst (server_step port pid True sv d))) k) (Suc n)"
proof -
  show "server_inv (fst (server_step port pid True sv d))" using server_step_inv [OF assms(1)] .
  have "ct_lookup (sv_ct (fst (server_step port pid True sv d))) k = Some (next_count (ct_lookup (sv_ct sv) k))"
    using server_step_message [OF assms(1,3)] assms(1) by (simp add: ct_bump_correct server_inv_def)
  then show "counter_at (ct_lookup (sv_ct (fst (server_step port pid True sv d))) k) (Suc n)"
    using next_count_at [OF assms(2)] by (simp add: counter_at_def)
qed

lemma client_wait_noise:
  "\<forall>d \<in> set noise. client_accepts c d = None \<Longrightarrow> client_wait c (noise @ ds) = client_wait c ds"
  by (induction noise) simp_all

lemma session_shown:
  assumes "delivers net ip" "length out = 65536"
    and "server_inv sv" "counter_at (ct_lookup (sv_ct sv) \<lparr>key_ip = ip, key_port = cl_local_port c\<rparr>) n"
    and "\<forall>r \<in> set rounds. fair_round c ip r" "n + length rounds < 2 ^ 32"
  shows "client_loop c cpid out (\<lambda>p. True) (map (\<lambda>(t, _). bytes_of t @ [10]) rounds @ later)
           (arrivals c net cpid spid out sv rounds @ ds) =
           (let (shown, fin) = client_loop c cpid out (\<lambda>p. True) later ds in (numbered (Suc n) rounds @ shown, fin)) \<and>
        server_inv (server_after c net cpid spid out sv rounds) \<and>
        counter_at (ct_lookup (sv_ct (server_after c net cpid spid out sv rounds))
           \<lparr>key_ip = ip, key_port = cl_local_port c\<rparr>) (n + length rounds)"
  using assms(3-)
proof (induction rounds arbitrary: sv n)
  case (Cons r rounds)
  obtain t others noise where r: "r = (t, others, noise)" by (cases r)
  let ?k = "\<lparr>key_ip = ip, key_port = cl_local_port c\<rparr>" and ?port = "cl_server_port c"
  have t: "sayable t" "plain_line t" and others: "\<forall>d \<in> set others. foreign ?port ?k d"
    and noise: "\<forall>d \<in> set noise. client_accepts c d = None"
    using Cons.prems(3) by (auto simp: r fair_round_def sayable_def)
  let ?sv = "server_run ?port spid sv others"
  note sv = others_keep_counter [OF Cons.prems(1,2) others, of spid]
  let ?cnt = "next_count (ct_lookup (sv_ct ?sv) ?k)"
  have cnt: "unat ?cnt = Suc n"
    using Cons.prems(4) unfolding next_count_at [OF sv(2)] unsigned_of_nat by (simp add: take_bit_nat_eq_self)
  have "length (show_nat (Suc n)) \<le> 10" using Cons.prems(4) by (intro show_nat_length) simp_all
  then have "length (bytes_of t) + 1 + length (show_nat (unat ?cnt)) \<le> 1400" using t(1) by (simp add: cnt sayable_def)
  from echo_round_trip [OF sv(1) assms(1,2) plain_line_bytes(1-3) [OF t(2)] refl this, where cpid = cpid and spid = spid]
  obtain pkt reply where p: "client_packet c cpid out (bytes_of t @ [10]) = Some pkt"
    "datagram_op ?port (net pkt) = Some (Message ?k)"
    "snd (server_step ?port spid True ?sv (net pkt)) = Some (reply, ip)"
    "client_accepts c reply = Some (bytes_of (t @ '' '' @ show_nat (Suc n)))"
    by (auto simp: cnt)
  obtain sv2 where step: "server_step ?port spid True ?sv (net pkt) = (sv2, Some (reply, ip))"
    using p(3) by (cases "server_step ?port spid True ?sv (net pkt)") auto
  have "client_loop c cpid out (\<lambda>p. True) (map (\<lambda>(t, _). bytes_of t @ [10]) rounds @ later)
        (arrivals c net cpid spid out sv2 rounds @ ds) =
        (let (shown, fin) = client_loop c cpid out (\<lambda>p. True) later ds in (numbered (Suc (Suc n)) rounds @ shown, fin)) \<and>
      server_inv (server_after c net cpid spid out sv2 rounds) \<and>
      counter_at (ct_lookup (sv_ct (server_after c net cpid spid out sv2 rounds)) ?k) (Suc n + length rounds)"
    using message_counts [OF sv p(2), of spid] Cons.prems(3,4) step by (intro Cons.IH) simp_all
  moreover have "strip_eol (takeWhile (\<lambda>b. b \<noteq> 0) (bytes_of t @ [10])) \<noteq> bytes_of ''shutdown''"
    unfolding plain_line_bytes(4) [OF t(2)] strip_eol_line [OF plain_line_bytes(2) [OF t(2)]] by (rule plain_line_bytes(3) [OF t(2)])
  ultimately show ?case
    using p(1,4) noise by (simp add: r step client_wait_noise Let_def case_prod_unfold del: bytes_of_simps)
qed (simp add: case_prod_unfold)

text \<open>
  Property C4. A client that is started with good arguments and given lines to say prints each of them with its
  number, 1, 2, 3 and so on, and ends with status 0, whatever other clients send to the server in between
  and whatever other datagrams come to the client's socket.
\<close>

theorem echo_session:
  assumes "client_args aton r args = Some c" "0 \<le> rs" "0 \<le> fst ss" "0 \<le> snd ss"
    and "delivers net ip" "length out = 65536" "server_start out' = Some sv" "length out' = 65536"
    and "\<forall>r \<in> set rounds. fair_round c ip r" "length rounds < 2 ^ 32"
  shows "echo_client_main aton r args rs ss cpid out (\<lambda>p. True) (concat (map (\<lambda>(t, _). t @ [NL]) rounds))
           (arrivals c net cpid spid out sv rounds) = Client_done (numbered 1 rounds)"
proof -
  have "server_inv sv" "counter_at (ct_lookup (sv_ct sv) k) 0" for k
    using server_start_correct [OF assms(7,8)] by (auto simp: counter_at_def)
  from session_shown [OF assms(5,6) this assms(9), where later = "[]" and ds = "[]"] assms(10)
  have "client_loop c cpid out (\<lambda>p. True) (map (\<lambda>(t, _). bytes_of t @ [10]) rounds)
      (arrivals c net cpid spid out sv rounds) = (numbered 1 rounds, True)" by simp
  moreover have "echo_lines (concat (map (\<lambda>(t, _). t @ [NL]) rounds)) = map (\<lambda>(t, _). bytes_of t @ [10]) rounds"
    using echo_lines_append [of "map fst rounds" "[]"] assms(9)
    by (simp add: comp_def case_prod_unfold fair_round_def echo_lines.simps [of "[]"] fgets_def)
  ultimately show ?thesis
    using assms(1-4) by (simp add: echo_client_main_def rawudp_open_recv_socket_def rawudp_open_send_socket_def)
qed

theorem echo_session_witness:
  "\<exists>ds. echo_client_main (\<lambda>a. Some \<lparr>s_addr = 0x0100000A\<rparr>) 0 [''10.0.0.1'', ''9000'', ''20000''] 3 (4, 0) 7 sample_out
     (\<lambda>p. True) (''hi'' @ NL # ''yo'' @ [NL]) ds = Client_done [bytes_of ''hi 1'', bytes_of ''yo 2'']"
proof -
  have c: "client_args (\<lambda>a. Some \<lparr>s_addr = 0x0100000A\<rparr>) 0 [''10.0.0.1'', ''9000'', ''20000''] = Some sample_conf"
    by code_simp
  have n: "show_nat 1 = ''1''" "show_nat 2 = ''2''" by code_simp+
  let ?rounds = "[(''hi'', [], [[]]), (''yo'', [[]], [])]"
  have "\<forall>r \<in> set ?rounds. fair_round sample_conf \<lparr>s_addr = 0x0200000A\<rparr> r"
    by (simp add: fair_round_def sayable_def plain_line_def foreign_def client_accepts_def datagram_op_def is_udp4_def NL_def NUL_def)
  from echo_session [OF c _ _ _ fill_source_delivers sample_start(2) sample_start this, of 3 "(4, 0)" 7 1]
  have "\<exists>ds. echo_client_main (\<lambda>a. Some \<lparr>s_addr = 0x0100000A\<rparr>) 0 [''10.0.0.1'', ''9000'', ''20000''] 3 (4, 0) 7 sample_out
      (\<lambda>p. True) (concat (map (\<lambda>(t, _). t @ [NL]) ?rounds)) ds = Client_done (numbered 1 ?rounds)"
    by (intro exI) (simp del: arrivals.simps)
  then show ?thesis using n by (simp add: numeral_2_eq_2)
qed

text \<open>A message of 1398 bytes as the tenth: its reply would have 1401 bytes.\<close>

lemma tenth_long_round:
  assumes "delivers net ip" "length out = 65536" "server_inv sv"
    and "counter_at (ct_lookup (sv_ct sv) \<lparr>key_ip = ip, key_port = cl_local_port c\<rparr>) 9"
    and "plain_line t" "length t = 1398"
    and "\<forall>d \<in> set others. foreign (cl_server_port c) \<lparr>key_ip = ip, key_port = cl_local_port c\<rparr> d"
  shows "arrivals c net cpid spid out sv [(t, others, noise)] = noise"
    and "counter_at (ct_lookup (sv_ct (server_after c net cpid spid out sv [(t, others, noise)]))
           \<lparr>key_ip = ip, key_port = cl_local_port c\<rparr>) 10"
    and "\<exists>pkt. client_packet c cpid out (bytes_of t @ [10]) = Some pkt"
proof -
  let ?k = "\<lparr>key_ip = ip, key_port = cl_local_port c\<rparr>" and ?port = "cl_server_port c"
  let ?sv = "server_run ?port spid sv others"
  let ?pkt = "built_packet cpid \<lparr>s_addr = 0\<rparr> (cl_server_ip c) (cl_local_port c) ?port (bytes_of t) 64"
  note b = plain_line_bytes [OF assms(5)]
  note sv = others_keep_counter [OF assms(3,4,7), of spid]
  have len: "length (bytes_of t) \<le> 1400" using assms(6) by simp
  have sent: "client_packet c cpid out (bytes_of t @ [10]) = Some ?pkt"
    by (rule client_packet_line [OF b(1,2) len assms(2)])
  note d = delivered_line [OF assms(1) len b(3), where c = c and cpid = cpid]
  have ten: "show_nat 10 = ''10''" by code_simp
  have "snd (ct_bump (sv_ct ?sv) ?k) = 10"
    using sv(1) next_count_at [OF sv(2)] by (simp add: ct_bump_correct server_inv_def)
  moreover have "length (reply_text (bytes_of t) 10) = 1401"
    using assms(6) len b(1) ten by (simp add: reply_text_short)
  ultimately have "snd (server_step ?port spid True ?sv (net ?pkt)) = None"
    using server_step_message [OF sv(1) d(1), of spid] d(3) by (simp add: answer_def Let_def)
  then show "arrivals c net cpid spid out sv [(t, others, noise)] = noise"
    by (simp add: sent case_prod_beta Let_def)
  show "counter_at (ct_lookup (sv_ct (server_after c net cpid spid out sv [(t, others, noise)])) ?k) 10"
    using message_counts(2) [OF sv d(1), of spid] by (simp add: sent Let_def)
  show "\<exists>pkt. client_packet c cpid out (bytes_of t @ [10]) = Some pkt" using sent by blast
qed

text \<open>
  Property C31. A line of 1398 bytes is within what client and server accept. But when it is a client's tenth
  message its reply would have 1401 bytes: the server counts the message (the client's counter is 10), the
  build of the reply fails and nothing is sent. The client has printed its nine replies and waits without a
  limit, whatever foreign datagrams come and whatever is typed after the line (\<open>rest\<close>).
\<close>

theorem tenth_long_message_unanswered:
  assumes "client_args aton r args = Some c" "0 \<le> rs" "0 \<le> fst ss" "0 \<le> snd ss"
    and "delivers net ip" "length out = 65536" "server_start out' = Some sv" "length out' = 65536"
    and "\<forall>r \<in> set rounds. fair_round c ip r" "length rounds = 9"
    and "plain_line t" "length t = 1398" "\<forall>d \<in> set (noise @ later). client_accepts c d = None"
    and "\<forall>d \<in> set others. foreign (cl_server_port c) \<lparr>key_ip = ip, key_port = cl_local_port c\<rparr> d"
  shows "echo_client_main aton r args rs ss cpid out (\<lambda>p. True) (concat (map (\<lambda>(t, _). t @ [NL]) rounds) @ t @ NL # rest)
           (arrivals c net cpid spid out sv (rounds @ [(t, others, noise)]) @ later) = Client_waits (numbered 1 rounds) \<and>
         arrivals c net cpid spid out sv (rounds @ [(t, others, noise)]) = arrivals c net cpid spid out sv rounds @ noise \<and>
         ct_lookup (sv_ct (server_after c net cpid spid out sv (rounds @ [(t, others, noise)])))
           \<lparr>key_ip = ip, key_port = cl_local_port c\<rparr> = Some 10"
    (is "?waits \<and> ?silent \<and> ?counted")
proof -
  have "server_inv sv" "counter_at (ct_lookup (sv_ct sv) k) 0" for k
    using server_start_correct [OF assms(7,8)] by (auto simp: counter_at_def)
  note s = session_shown [OF assms(5,6) this assms(9), where cpid = cpid and spid = spid]
  let ?sv = "server_after c net cpid spid out sv rounds"
  have after: "server_inv ?sv" "counter_at (ct_lookup (sv_ct ?sv) \<lparr>key_ip = ip, key_port = cl_local_port c\<rparr>) 9"
    using s [of "[]" "[]"] assms(10) by simp_all
  note last = tenth_long_round(1,2) [OF assms(5,6) after assms(11,12,14), where cpid = cpid and spid = spid and noise = noise]
  have silent: ?silent by (simp only: session_append last(1))
  have counted: ?counted using last(2) by (simp add: session_append counter_at_def del: server_after.simps)
  obtain pkt where pkt: "client_packet c cpid out (bytes_of t @ [10]) = Some pkt"
    using tenth_long_round(3) [OF assms(5,6) after assms(11,12,14)] by blast
  have "bytes_of t \<noteq> bytes_of ''shutdown''" by (rule plain_line_bytes(3) [OF assms(11)])
  moreover have "strip_eol (takeWhile (\<lambda>b. b \<noteq> 0) (bytes_of t @ [10])) = bytes_of t"
    using plain_line_bytes(4) [OF assms(11)] strip_eol_line [OF plain_line_bytes(2) [OF assms(11)]] by simp
  ultimately have "client_loop c cpid out (\<lambda>p. True) ((bytes_of t @ [10]) # echo_lines rest) (noise @ later) = ([], False)"
    using pkt assms(13) client_wait_noise [of "noise @ later" c "[]"] by (simp del: bytes_of_simps)
  then have "client_loop c cpid out (\<lambda>p. True) (map (\<lambda>(t, _). bytes_of t @ [10]) rounds @ (bytes_of t @ [10]) # echo_lines rest)
      (arrivals c net cpid spid out sv rounds @ noise @ later) = (numbered 1 rounds, False)"
    using s assms(10) by simp
  moreover have "echo_lines (concat (map (\<lambda>(t, _). t @ [NL]) rounds) @ t @ NL # rest) =
      map (\<lambda>(t, _). bytes_of t @ [10]) rounds @ (bytes_of t @ [10]) # echo_lines rest"
    using echo_lines_append [of "map fst rounds" "t @ NL # rest"] assms(9,11,12) echo_lines_long [of t rest]
    by (simp add: comp_def case_prod_unfold fair_round_def plain_line_def)
  ultimately have ?waits
    unfolding silent
    using assms(1-4) by (simp add: echo_client_main_def rawudp_open_recv_socket_def rawudp_open_send_socket_def)
  with silent counted show ?thesis by blast
qed

theorem tenth_long_message_unanswered_witness:
  "\<exists>ds. echo_client_main (\<lambda>a. Some \<lparr>s_addr = 0x0100000A\<rparr>) 0 [''10.0.0.1'', ''9000'', ''20000''] 3 (4, 0) 7 sample_out
     (\<lambda>p. True) (concat (replicate 9 (''hi'' @ [NL])) @ replicate 1398 CHR ''A'' @ NL # ''bye'') ds =
       Client_waits (map (\<lambda>n. bytes_of (''hi '' @ show_nat n)) [1 ..< 10])"
proof -
  have c: "client_args (\<lambda>a. Some \<lparr>s_addr = 0x0100000A\<rparr>) 0 [''10.0.0.1'', ''9000'', ''20000''] = Some sample_conf"
    by code_simp
  let ?rounds = "replicate 9 (''hi'', [], [[]]) :: round list" and ?t = "replicate 1398 CHR ''A''"
  have n: "\<forall>d \<in> set ([[]] @ []). client_accepts sample_conf d = None" by (simp add: client_accepts_def)
  have r: "\<forall>r \<in> set ?rounds. fair_round sample_conf \<lparr>s_addr = 0x0200000A\<rparr> r"
    by (simp add: fair_round_def sayable_def plain_line_def client_accepts_def NL_def NUL_def)
  have "length ?t \<noteq> length ''shutdown''" by simp
  then have "?t \<noteq> ''shutdown''" by metis
  then have t: "plain_line ?t" by (simp add: plain_line_def NL_def NUL_def)
  have "\<exists>ds. echo_client_main (\<lambda>a. Some \<lparr>s_addr = 0x0100000A\<rparr>) 0 [''10.0.0.1'', ''9000'', ''20000''] 3 (4, 0) 7 sample_out
      (\<lambda>p. True) (concat (map (\<lambda>(t, _). t @ [NL]) ?rounds) @ ?t @ NL # ''bye'') ds = Client_waits (numbered 1 ?rounds)"
    by (rule exI, rule tenth_long_message_unanswered [OF c _ _ _ fill_source_delivers sample_start(2) sample_start r _ t _ n,
        where rs = 3 and ss = "(4, 0)" and others = "[]" and cpid = 7 and spid = 1 and rest = "''bye''", THEN conjunct1])
      simp_all
  moreover have "numbered 1 ?rounds = map (\<lambda>n. bytes_of (''hi '' @ show_nat n)) [1 ..< 10]"
    by (simp add: numeral_eq_Suc upt_rec)
  ultimately show ?thesis by (simp del:)
qed

end
