(* ===== verification/Table_Heap.thy ===== *)
theory Table_Heap
  imports Client_Table
begin

text \<open>
  \<open>echo_raw/src/client_table.c\<close> once more, with its pointers. The heap maps the addresses of live allocations to
  the structures in them; address 0 is NULL. A function has no result when it reads or writes through a pointer to
  no live structure, indexes outside of the array of buckets, frees what is not live (a second time, or
  never allocated), or does not end. The theory \<open>Client_Table\<close> has the same functions on lists: the lemmas
  here show that a table in the heap is such a table of lists (\<open>table_at\<close>), that the functions on pointers do to it what those on
  lists do, and that nothing else in the heap is touched.
\<close>

section \<open>The code\<close>

datatype cell =
    Table_cell nat nat  \<comment> \<open>\<open>buckets\<close> and \<open>nb\<close>\<close>
  | Bucket_cell "nat list"
  | Node_cell client_key u32 nat

type_synonym heap = "nat \<rightharpoonup> cell"

definition read_table :: "heap \<Rightarrow> nat \<Rightarrow> (nat \<times> nat) option" where
  "read_table h t = (case h t of Some (Table_cell b n) \<Rightarrow> Some (b, n) | _ \<Rightarrow> None)"

definition read_bucket :: "heap \<Rightarrow> nat \<Rightarrow> nat \<Rightarrow> nat option" where
  "read_bucket h b i =
     (case h b of Some (Bucket_cell heads) \<Rightarrow> if i < length heads then Some (heads ! i) else None | _ \<Rightarrow> None)"

definition write_bucket :: "heap \<Rightarrow> nat \<Rightarrow> nat \<Rightarrow> nat \<Rightarrow> heap option" where
  "write_bucket h b i n =
     (case h b of
        Some (Bucket_cell heads) \<Rightarrow> if i < length heads then Some (h(b \<mapsto> Bucket_cell (heads[i := n]))) else None
      | _ \<Rightarrow> None)"

definition read_node :: "heap \<Rightarrow> nat \<Rightarrow> (client_key \<times> u32 \<times> nat) option" where
  "read_node h n = (case h n of Some (Node_cell k c nx) \<Rightarrow> Some (k, c, nx) | _ \<Rightarrow> None)"

definition heap_free :: "nat \<Rightarrow> heap \<Rightarrow> heap option" where
  "heap_free p h = (if p = 0 then Some h else if h p = None then None else Some (h(p := None)))"

text \<open>\<open>m\<close> is the answer of \<open>calloc\<close> on the current heap.\<close>

definition ct_create_at :: "(heap \<Rightarrow> nat option) \<Rightarrow> heap \<Rightarrow> (heap \<times> nat) option" where
  "ct_create_at m h =
     (case m h of
        None \<Rightarrow> Some (h, 0)
      | Some t \<Rightarrow>
          (let h1 = h(t \<mapsto> Table_cell 0 1024)
           in case m h1 of
                None \<Rightarrow> map_option (\<lambda>h2. (h2, 0)) (heap_free t h1)
              | Some b \<Rightarrow> Some (h1(t \<mapsto> Table_cell b 1024, b \<mapsto> Bucket_cell (replicate 1024 0)), t)))"

text \<open>\<open>while (n) { node_t *nx = n->next; free(n); n = nx; }\<close>\<close>

partial_function (option) free_chain :: "heap \<Rightarrow> nat \<Rightarrow> heap option" where
  "free_chain h n =
     (if n = 0 then Some h
      else Option.bind (read_node h n) (\<lambda>(k, c, nx). Option.bind (heap_free n h) (\<lambda>h'. free_chain h' nx)))"

partial_function (option) free_buckets :: "heap \<Rightarrow> nat \<Rightarrow> nat \<Rightarrow> heap option" where
  "free_buckets h t i =
     Option.bind (read_table h t) (\<lambda>(b, n).
       if i < n
       then Option.bind (read_bucket h b i) (\<lambda>first. Option.bind (free_chain h first) (\<lambda>h'. free_buckets h' t (i + 1)))
       else Some h)"

definition rawudp_ct_destroy :: "heap \<Rightarrow> nat \<Rightarrow> heap option" where
  "rawudp_ct_destroy h t =
     (if t = 0 then Some h
      else Option.bind (free_buckets h t 0) (\<lambda>h1. Option.bind (read_table h1 t) (\<lambda>(b, n).
             Option.bind (heap_free b h1) (heap_free t))))"

text \<open>The first node with the key from \<open>n\<close> on, 0 when there is none.\<close>

partial_function (option) find_node :: "heap \<Rightarrow> client_key \<Rightarrow> nat \<Rightarrow> nat option" where
  "find_node h key n =
     (if n = 0 then Some 0
      else Option.bind (read_node h n) (\<lambda>(k, c, nx). if key_eq k key then Some n else find_node h key nx))"

definition bucket_index :: "nat \<Rightarrow> client_key \<Rightarrow> nat" where
  "bucket_index n key = unat (hash_key key mod word_of_nat n)"

definition ct_next_at :: "(heap \<Rightarrow> nat option) \<Rightarrow> heap \<Rightarrow> nat \<Rightarrow> client_key \<Rightarrow> bool \<Rightarrow> (heap \<times> int \<times> u32 option) option" where
  "ct_next_at m h t key out_ok =
     (if t = 0 \<or> \<not> out_ok then Some (h, - 1, None)
      else Option.bind (read_table h t) (\<lambda>(b, nb).
        let idx = bucket_index nb key in
        Option.bind (read_bucket h b idx) (\<lambda>first.
        Option.bind (find_node h key first) (\<lambda>n.
          if n \<noteq> 0
          then map_option (\<lambda>(k, c, nx). (h(n \<mapsto> Node_cell k (c + 1) nx), 0, Some (c + 1))) (read_node h n)
          else (case m h of
                  None \<Rightarrow> Some (h, - 1, None)
                | Some a \<Rightarrow>
                    Option.bind (read_bucket h b idx) (\<lambda>first.
                      map_option (\<lambda>h'. (h', 0, Some 1)) (write_bucket (h(a \<mapsto> Node_cell key 1 first)) b idx a)))))))"

partial_function (option) find_prev :: "heap \<Rightarrow> client_key \<Rightarrow> nat \<Rightarrow> nat \<Rightarrow> (nat \<times> nat) option" where
  "find_prev h key prev n =
     (if n = 0 then Some (prev, 0)
      else Option.bind (read_node h n) (\<lambda>(k, c, nx). if key_eq k key then Some (prev, n) else find_prev h key n nx))"

definition ct_reset_at :: "heap \<Rightarrow> nat \<Rightarrow> client_key \<Rightarrow> heap option" where
  "ct_reset_at h t key =
     (if t = 0 then Some h
      else Option.bind (read_table h t) (\<lambda>(b, nb).
        let idx = bucket_index nb key in
        Option.bind (read_bucket h b idx) (\<lambda>first.
        Option.bind (find_prev h key 0 first) (\<lambda>(prev, n).
          if n = 0 then Some h
          else Option.bind (read_node h n) (\<lambda>(_, _, nx).
            Option.bind
              (if prev \<noteq> 0 then map_option (\<lambda>(k, c, _). h(prev \<mapsto> Node_cell k c nx)) (read_node h prev)
               else write_bucket h b idx nx)
              (heap_free n))))))"

section \<open>A table in the heap\<close>

text \<open>A chain from \<open>p\<close> up to \<open>q\<close> at the addresses \<open>as\<close>.\<close>

fun chain_seg :: "heap \<Rightarrow> nat \<Rightarrow> node list \<Rightarrow> nat list \<Rightarrow> nat \<Rightarrow> bool" where
  "chain_seg h p [] [] q = (p = q)"
| "chain_seg h p (n # ns) (a # as) q =
     (p = a \<and> a \<noteq> 0 \<and> (\<exists>nx. h a = Some (Node_cell (node_key n) (node_counter n) nx) \<and> chain_seg h nx ns as q))"
| "chain_seg h p ns as q = False"

abbreviation chain_at :: "heap \<Rightarrow> nat \<Rightarrow> node list \<Rightarrow> nat list \<Rightarrow> bool" where
  "chain_at h p ns as \<equiv> chain_seg h p ns as 0"

text \<open>The table \<open>t\<close> at \<open>p\<close>, its array at \<open>b\<close> with the pointers \<open>heads\<close>, the chains at the addresses \<open>ass\<close>.\<close>

definition table_at :: "heap \<Rightarrow> nat \<Rightarrow> client_table \<Rightarrow> nat \<Rightarrow> nat list \<Rightarrow> nat list list \<Rightarrow> bool" where
  "table_at h p t b heads ass =
     (p \<noteq> 0 \<and> b \<noteq> 0 \<and> h p = Some (Table_cell b (nb t)) \<and> h b = Some (Bucket_cell heads) \<and>
      length heads = nb t \<and> length (buckets t) = nb t \<and> length ass = nb t \<and>
      (\<forall>i < nb t. chain_at h (heads ! i) (buckets t ! i) (ass ! i)) \<and> distinct (p # b # concat ass))"

definition table_cells :: "nat \<Rightarrow> nat \<Rightarrow> nat list list \<Rightarrow> nat set" where
  "table_cells p b ass = set (p # b # concat ass)"

lemma chain_seg_frame:
  "chain_seg h p ns as q \<Longrightarrow> \<forall>a \<in> set as. h' a = h a \<Longrightarrow> chain_seg h' p ns as q"
  by (induction h p ns as q rule: chain_seg.induct) auto

lemma chain_seg_length: "chain_seg h p ns as q \<Longrightarrow> length as = length ns"
  by (induction h p ns as q rule: chain_seg.induct) auto

lemma chain_seg_append:
  "length ns1 = length as1 \<Longrightarrow>
     chain_seg h p (ns1 @ ns2) (as1 @ as2) q \<longleftrightarrow> (\<exists>r. chain_seg h p ns1 as1 r \<and> chain_seg h r ns2 as2 q)"
  by (induction ns1 as1 arbitrary: p rule: list_induct2) auto

lemma chain_nonzero: "chain_seg h p ns as q \<Longrightarrow> 0 \<notin> set as"
  by (induction h p ns as q rule: chain_seg.induct) auto

text \<open>A heap without some of its structures.\<close>

definition without :: "nat set \<Rightarrow> heap \<Rightarrow> heap" where
  "without A h = (\<lambda>a. if a \<in> A then None else h a)"

lemma without_apply: "without A h a = (if a \<in> A then None else h a)"
  by (simp add: without_def)

lemma without_simps [simp]:
  "without {} h = h" "without A (without B h) = without (B \<union> A) h" "(without A h)(a := None) = without (insert a A) h"
  by (auto simp: without_def fun_eq_iff)

lemma chain_live: "chain_seg h p ns as q \<Longrightarrow> a \<in> set as \<Longrightarrow> h a \<noteq> None"
  by (induction h p ns as q rule: chain_seg.induct) auto

lemma table_live: "table_at h p t b heads ass \<Longrightarrow> \<forall>a \<in> table_cells p b ass. h a \<noteq> None"
  unfolding table_at_def table_cells_def using chain_live by (fastforce simp: in_set_conv_nth)

text \<open>Freeing a chain, and then all of them.\<close>

lemma free_chain_at:
  "chain_at h p ns as \<Longrightarrow> distinct as \<Longrightarrow> free_chain h p = Some (without (set as) h)"
proof (induction as arbitrary: h p ns)
  case Nil
  then have "p = 0" by (cases ns) auto
  then show ?case by (subst free_chain.simps) simp
next
  case (Cons a as)
  then obtain n ns' nx where c: "ns = n # ns'" "p = a" "a \<noteq> 0"
    "h a = Some (Node_cell (node_key n) (node_counter n) nx)" "chain_at h nx ns' as"
    by (cases ns) auto
  have "chain_at (without {a} h) nx ns' as"
    using Cons.prems(2) by (intro chain_seg_frame [OF c(5)]) (auto simp: without_apply)
  from Cons.IH [OF this] Cons.prems(2) have "free_chain (without {a} h) nx = Some (without (set (a # as)) h)" by simp
  moreover have "heap_free a h = Some (without {a} h)" using c(3,4) by (simp add: heap_free_def without_def fun_upd_def)
  ultimately show ?case using c by (subst free_chain.simps) (simp add: read_node_def)
qed

lemma free_buckets_at:
  assumes t: "table_at h p t b heads ass" and i: "i \<le> nb t"
  shows "free_buckets (without (set (concat (take i ass))) h) p i = Some (without (set (concat ass)) h)"
  using i
proof (induction "nb t - i" arbitrary: i)
  case 0
  have "p \<notin> set (concat ass)" "take i ass = ass" using 0 t by (auto simp: table_at_def)
  then show ?case using 0 t
    by (subst free_buckets.simps) (simp add: read_table_def table_at_def without_apply del: set_concat)
next
  case (Suc d)
  let ?h = "without (set (concat (take i ass))) h"
  have i: "i < nb t" using Suc by simp
  have ass: "ass = take i ass @ ass ! i # drop (Suc i) ass" using i t by (intro id_take_nth_drop) (simp add: table_at_def)
  have d: "distinct (p # b # concat (take i ass @ ass ! i # drop (Suc i) ass))"
    using t unfolding ass [symmetric] by (simp add: table_at_def)
  then have r: "read_table ?h p = Some (b, nb t)" "read_bucket ?h b i = Some (heads ! i)"
    using t i by (auto simp: read_table_def read_bucket_def table_at_def without_apply)
  have "chain_at h (heads ! i) (buckets t ! i) (ass ! i)" using t i by (simp add: table_at_def)
  then have "chain_at ?h (heads ! i) (buckets t ! i) (ass ! i)"
    using d by (elim chain_seg_frame) (fastforce simp: without_apply)
  moreover have "distinct (ass ! i)" using d by simp
  ultimately have "free_chain ?h (heads ! i) = Some (without (set (ass ! i)) ?h)" by (rule free_chain_at)
  moreover have "without (set (ass ! i)) ?h = without (set (concat (take (i + 1) ass))) h"
    using i t by (simp add: table_at_def take_Suc_conv_app_nth Un_commute)
  moreover have "free_buckets (without (set (concat (take (i + 1) ass))) h) p (i + 1) = Some (without (set (concat ass)) h)"
    using Suc by (intro Suc.hyps(1)) simp_all
  ultimately show ?case using r i by (subst free_buckets.simps) (simp del: set_concat without_simps)
qed

lemma destroy_at:
  assumes "table_at h p t b heads ass"
  shows "rawudp_ct_destroy h p = Some (without (table_cells p b ass) h)"
proof -
  let ?h = "without (set (concat ass)) h"
  have "free_buckets h p 0 = Some ?h"
    using free_buckets_at [OF assms, of 0] by simp
  moreover have c: "?h p = Some (Table_cell b (nb t))" "?h b \<noteq> None" "p \<noteq> b" "p \<noteq> 0" "b \<noteq> 0"
    using assms by (auto simp: table_at_def without_apply)
  moreover have "heap_free b ?h = Some (without (insert b (set (concat ass))) h)"
    using c by (simp add: heap_free_def del: set_concat)
  moreover have "heap_free p (without (insert b (set (concat ass))) h) = Some (without (table_cells p b ass) h)"
    using c by (simp add: heap_free_def table_cells_def without_apply insert_commute del: set_concat split: if_splits)
  ultimately show ?thesis
    by (simp add: rawudp_ct_destroy_def read_table_def del: set_concat)
qed

section \<open>The other functions\<close>

definition calloc_ok :: "(heap \<Rightarrow> nat option) \<Rightarrow> bool" where
  "calloc_ok m = (\<forall>h a. m h = Some a \<longrightarrow> a \<noteq> 0 \<and> h a = None)"

lemma bucket_index: "bucket_index (nb t) key = bucket_of t key"
  by (simp add: bucket_index_def bucket_of_def)

text \<open>Replacing the chain of one bucket.\<close>

lemma distinct_replaced:
  assumes "distinct (xs @ concat ass)" "i < length ass" "distinct as'"
    and "set as' \<inter> (set (xs @ concat ass) - set (ass ! i)) = {}"
  shows "distinct (xs @ concat (ass[i := as']))"
proof -
  have ass: "ass = take i ass @ ass ! i # drop (Suc i) ass" using assms(2) by (rule id_take_nth_drop)
  have "distinct (xs @ concat (take i ass @ ass ! i # drop (Suc i) ass))"
    "set as' \<inter> (set (xs @ concat (take i ass @ ass ! i # drop (Suc i) ass)) - set (ass ! i)) = {}"
    using assms(1,4) unfolding ass [symmetric] .
  then show ?thesis using assms(2,3) unfolding upd_conv_take_nth_drop [OF assms(2)] by auto blast+
qed

lemma other_chain:
  assumes "distinct (xs @ concat ass)" "i < length ass" "j < length ass" "i \<noteq> j" "a \<in> set (ass ! i)"
  shows "a \<notin> set (ass ! j)" "a \<notin> set xs"
proof -
  have ass: "ass = take j ass @ ass ! j # drop (Suc j) ass" using assms(3) by (rule id_take_nth_drop)
  have "ass ! i \<in> set (take j ass @ drop (Suc j) ass)"
  proof (cases "i < j")
    case True
    then have "take j ass ! i = ass ! i" "i < length (take j ass)" using assms(3) by simp_all
    then show ?thesis by (metis Un_iff nth_mem set_append)
  next
    case False
    then have "drop (Suc j) ass ! (i - Suc j) = ass ! i" "i - Suc j < length (drop (Suc j) ass)"
      using assms(2-4) by simp_all
    then show ?thesis by (metis Un_iff nth_mem set_append)
  qed
  moreover have "distinct (xs @ concat (take j ass @ ass ! j # drop (Suc j) ass))" using assms(1) unfolding ass [symmetric] .
  ultimately show "a \<notin> set (ass ! j)" "a \<notin> set xs" using assms(5) by auto
qed

lemma table_at_update:
  assumes t: "table_at h p t b heads ass" "idx < nb t"
    and c: "chain_at h' hd' ns' as'" "distinct as'"
    and f: "h' p = h p" "h' b = Some (Bucket_cell (heads[idx := hd']))"
      "\<forall>a. a \<notin> set (ass ! idx) \<longrightarrow> a \<in> set (concat ass) \<longrightarrow> h' a = h a"
    and new: "set as' \<inter> (table_cells p b ass - set (ass ! idx)) = {}"
  shows "table_at h' p (t\<lparr>buckets := (buckets t)[idx := ns']\<rparr>) b (heads[idx := hd']) (ass[idx := as'])"
proof -
  have d: "distinct ([p, b] @ concat ass)" and l: "length ass = nb t" "length heads = nb t" "length (buckets t) = nb t"
    using t by (simp_all add: table_at_def)
  have "distinct ([p, b] @ concat (ass[idx := as']))"
  proof (rule distinct_replaced [OF d _ c(2)])
    show "idx < length ass" using t(2) l(1) by simp
    have "set ([p, b] @ concat ass) = table_cells p b ass" by (simp add: table_cells_def)
    then show "set as' \<inter> (set ([p, b] @ concat ass) - set (ass ! idx)) = {}" using new by (simp only:)
  qed
  moreover have "chain_at h' (heads[idx := hd'] ! i) ((buckets t)[idx := ns'] ! i) (ass[idx := as'] ! i)" if "i < nb t" for i
  proof (cases "i = idx")
    case True
    with c(1) that l show ?thesis by simp
  next
    case False
    have "chain_at h (heads ! i) (buckets t ! i) (ass ! i)" using t that by (simp add: table_at_def)
    moreover have "\<forall>a \<in> set (ass ! i). h' a = h a"
    proof
      fix a assume a: "a \<in> set (ass ! i)"
      then have "a \<notin> set (ass ! idx)" "a \<in> set (concat ass)"
        using other_chain(1) [OF d _ _ False a] that t(2) l(1) nth_mem [of i ass] by auto
      with f(3) show "h' a = h a" by blast
    qed
    ultimately have "chain_at h' (heads ! i) (buckets t ! i) (ass ! i)" by (rule chain_seg_frame)
    with False show ?thesis by simp
  qed
  ultimately show ?thesis using t f by (simp add: table_at_def)
qed

text \<open>A chain with a key, taken apart at its first node with the key.\<close>

lemma chain_with_key:
  obtains "key \<notin> set (chain_keys ns)"
    | ns1 n ns2 where "ns = ns1 @ n # ns2" "node_key n = key" "key \<notin> set (chain_keys ns1)"
proof (cases "\<exists>n \<in> set ns. node_key n = key")
  case True
  then obtain ns1 n ns2 where "ns = ns1 @ n # ns2" "node_key n = key" "\<forall>n \<in> set ns1. node_key n \<noteq> key"
    using split_list_first_prop [of ns "\<lambda>n. node_key n = key"] by blast
  then show thesis by (intro that(2)) (auto simp: chain_keys_def)
next
  case False
  then show thesis by (intro that(1)) (auto simp: chain_keys_def)
qed

lemma chain_bump_at:
  "key \<notin> set (chain_keys ns1) \<Longrightarrow> node_key n = key \<Longrightarrow>
     chain_bump key (ns1 @ n # ns2) = Some (node_counter n + 1, ns1 @ n\<lparr>node_counter := node_counter n + 1\<rparr> # ns2)"
  by (induction ns1) auto

lemma chain_unlink_at:
  "key \<notin> set (chain_keys ns1) \<Longrightarrow> node_key n = key \<Longrightarrow> chain_unlink key (ns1 @ n # ns2) = ns1 @ ns2"
  "key \<notin> set (chain_keys ns1) \<Longrightarrow> chain_unlink key ns1 = ns1"
  by (induction ns1) auto

text \<open>The two walks pass the nodes of other clients.\<close>

lemma walks_pass:
  "chain_seg h p ns as q \<Longrightarrow> key \<notin> set (chain_keys ns) \<Longrightarrow> find_node h key p = find_node h key q"
  "chain_seg h p ns as q \<Longrightarrow> key \<notin> set (chain_keys ns) \<Longrightarrow> find_prev h key prev p = find_prev h key (last (prev # as)) q"
proof (induction h p ns as q arbitrary: prev rule: chain_seg.induct)
  case (2 h p n ns a as q)
  {
    case 1
    with 2 show ?case by (subst find_node.simps) (auto simp: read_node_def)
  next
    case 2
    with "2.IH" show ?case by (subst find_prev.simps) (auto simp: read_node_def)
  }
qed simp_all

lemma walks_stop: "find_node h key 0 = Some 0" "find_prev h key prev 0 = Some (prev, 0)"
  by (subst find_node.simps, simp) (subst find_prev.simps, simp)

lemma walks_find:
  assumes "n \<noteq> 0" "h n = Some (Node_cell key c nx)"
  shows "find_node h key n = Some n" "find_prev h key prev n = Some (prev, n)"
proof -
  have r: "read_node h n = Some (key, c, nx)" by (simp add: read_node_def assms(2))
  show "find_node h key n = Some n" using assms(1) r by (subst find_node.simps) simp
  show "find_prev h key prev n = Some (prev, n)" using assms(1) r by (subst find_prev.simps) simp
qed

text \<open>What a function reads of a table on its way to a chain.\<close>

lemma table_reads:
  assumes "table_at h p t b heads ass" "i < nb t"
  shows "p \<noteq> 0" "read_table h p = Some (b, nb t)" "read_bucket h b i = Some (heads ! i)"
    "chain_at h (heads ! i) (buckets t ! i) (ass ! i)" "distinct (ass ! i)" "length heads = nb t"
    "set (ass ! i) \<subseteq> table_cells p b ass" "p \<notin> set (ass ! i)" "b \<notin> set (ass ! i)" "p \<noteq> b" "h b = Some (Bucket_cell heads)"
proof -
  have l: "length ass = nb t" "length heads = nb t" and d: "distinct (p # b # concat ass)"
    using assms(1) by (simp_all add: table_at_def)
  show "p \<noteq> 0" "read_table h p = Some (b, nb t)" "read_bucket h b i = Some (heads ! i)"
    "chain_at h (heads ! i) (buckets t ! i) (ass ! i)" "length heads = nb t" "p \<noteq> b" "h b = Some (Bucket_cell heads)"
    using assms by (simp_all add: table_at_def read_table_def read_bucket_def)
  have "ass = take i ass @ ass ! i # drop (Suc i) ass" using assms(2) l by (intro id_take_nth_drop) simp
  with d have "distinct (p # b # concat (take i ass @ ass ! i # drop (Suc i) ass))" by metis
  then show "distinct (ass ! i)" "p \<notin> set (ass ! i)" "b \<notin> set (ass ! i)" by simp_all
  have "ass ! i \<in> set ass" using assms(2) l by simp
  then show "set (ass ! i) \<subseteq> table_cells p b ass" by (auto simp: table_cells_def)
qed

lemma cells_replaced:
  assumes "i < length ass" "set as' \<subseteq> insert a (set (ass ! i))" "set (ass ! i) - {a} \<subseteq> set as'"
  shows "table_cells p b (ass[i := as']) \<union> {a} = table_cells p b ass \<union> {a}"
proof -
  have ass: "ass = take i ass @ ass ! i # drop (Suc i) ass" using assms(1) by (rule id_take_nth_drop)
  have "table_cells p b ass = table_cells p b (take i ass @ ass ! i # drop (Suc i) ass)" using ass by simp
  with assms(2,3) show ?thesis
    unfolding upd_conv_take_nth_drop [OF assms(1)] by (auto simp: table_cells_def)
qed

text \<open>The counter of a client is incremented in place.\<close>

lemma bump_at:
  assumes "chain_at h q (ns1 @ n # ns2) as" "distinct as" "key \<notin> set (chain_keys ns1)" "node_key n = key"
  obtains a nx where "find_node h key q = Some a" "a \<noteq> 0" "a \<in> set as" "h a = Some (Node_cell key (node_counter n) nx)"
    "chain_at (h(a \<mapsto> Node_cell key (node_counter n + 1) nx)) q (ns1 @ n\<lparr>node_counter := node_counter n + 1\<rparr> # ns2) as"
proof -
  have "length as = length ns1 + Suc (length ns2)" using chain_seg_length [OF assms(1)] by simp
  then obtain as1 a as2 where as: "as = as1 @ a # as2" "length ns1 = length as1"
    by (metis append_take_drop_id length_append add_left_cancel length_take min.absorb2 le_add1 length_Suc_conv)
  then obtain r nx where s: "chain_seg h q ns1 as1 r" "r = a" "a \<noteq> 0" "h a = Some (Node_cell key (node_counter n) nx)" "chain_at h nx ns2 as2"
    using assms(1,4) by (auto simp: chain_seg_append)
  let ?h = "h(a \<mapsto> Node_cell key (node_counter n + 1) nx)"
  have "chain_seg ?h q ns1 as1 a" "chain_at ?h nx ns2 as2"
    using s assms(2) as(1) by (auto elim!: chain_seg_frame)
  then have "chain_at ?h q (ns1 @ n\<lparr>node_counter := node_counter n + 1\<rparr> # ns2) as"
    using s(3) as assms(4) by (auto simp: chain_seg_append)
  moreover have "find_node h key q = Some a"
    using walks_pass(1) [OF s(1) assms(3)] walks_find(1) [of a h key] s(2-4) by simp
  ultimately show thesis using that s(3,4) as(1) by auto
qed

lemma next_at:
  assumes t: "table_at h p t b heads ass" and inv: "ct_inv t" and m: "calloc_ok m"
  shows "\<exists>h' r out t' heads' ass'. ct_next_at m h p key out_ok = Some (h', r, out) \<and>
      rawudp_ct_next (m h \<noteq> None) (Some t) key out_ok = (r, Some t', out) \<and> table_at h' p t' b heads' ass' \<and>
      without (table_cells p b ass') h' = without (table_cells p b ass) h"
proof -
  let ?i = "bucket_of t key"
  have i: "?i < nb t" using bucket_of_less [OF inv] .
  note r = table_reads [OF t i]
  have l: "?i < length ass" using t i by (simp add: table_at_def)
  consider "\<not> out_ok"
    | "out_ok" "key \<notin> set (chain_keys (buckets t ! ?i))" "m h = None"
    | a where "out_ok" "key \<notin> set (chain_keys (buckets t ! ?i))" "m h = Some a"
    | ns1 n ns2 where "out_ok" "buckets t ! ?i = ns1 @ n # ns2" "node_key n = key" "key \<notin> set (chain_keys ns1)"
    using chain_with_key [of key "buckets t ! ?i"] by (metis not_None_eq)
  then show ?thesis
  proof cases
    case 1
    with t show ?thesis by (auto simp: ct_next_at_def rawudp_ct_next_def)
  next
    case 2
    have "find_node h key (heads ! ?i) = Some 0" using walks_pass(1) [OF r(4) 2(2)] walks_stop by simp
    moreover have "chain_bump key (buckets t ! ?i) = None" using 2(2) by (simp add: chain_bump_None_iff chain_map_None_iff)
    ultimately show ?thesis
      using t 2 r(1-3) by (auto simp: ct_next_at_def rawudp_ct_next_def bucket_index Let_def)
  next
    case (3 a)
    have a: "a \<noteq> 0" "h a = None" using m 3(3) by (auto simp: calloc_ok_def)
    have "\<forall>c \<in> table_cells p b ass. h c \<noteq> None" using table_live [OF t] .
    then have fresh: "a \<notin> table_cells p b ass" using a(2) by auto
    let ?n = "\<lparr>node_key = key, node_counter = 1\<rparr>" and ?first = "heads ! ?i"
    let ?h = "h(a \<mapsto> Node_cell key 1 ?first, b \<mapsto> Bucket_cell (heads[?i := a]))"
    have ab: "a \<noteq> b" "a \<noteq> p" "a \<notin> set (ass ! ?i)" using fresh r(7) by (auto simp: table_cells_def)
    have "chain_at ?h ?first (buckets t ! ?i) (ass ! ?i)" using r(9) ab by (intro chain_seg_frame [OF r(4)]) auto
    then have "chain_at ?h a (?n # buckets t ! ?i) (a # ass ! ?i)" using a(1) ab by simp
    then have "table_at ?h p (t\<lparr>buckets := (buckets t)[?i := ?n # buckets t ! ?i]\<rparr>) b (heads[?i := a]) (ass[?i := a # ass ! ?i])"
    proof (rule table_at_update [OF t i])
      show "distinct (a # ass ! ?i)" using r(5) ab by simp
      show "set (a # ass ! ?i) \<inter> (table_cells p b ass - set (ass ! ?i)) = {}" using fresh by auto
      show "\<forall>c. c \<notin> set (ass ! ?i) \<longrightarrow> c \<in> set (concat ass) \<longrightarrow> ?h c = h c"
        using fresh t by (auto simp: table_cells_def table_at_def)
    qed (use ab r(10) in auto)
    moreover have "table_cells p b (ass[?i := a # ass ! ?i]) = insert a (table_cells p b ass)"
    proof -
      have "a # ass ! ?i \<in> set (ass[?i := a # ass ! ?i])" using l by (rule set_update_memI)
      then have "a \<in> set (concat (ass[?i := a # ass ! ?i]))" unfolding set_concat by (rule UN_I) simp
      then have "a \<in> table_cells p b (ass[?i := a # ass ! ?i])" by (simp add: table_cells_def del: set_concat)
      moreover have "table_cells p b (ass[?i := a # ass ! ?i]) \<union> {a} = table_cells p b ass \<union> {a}"
        by (rule cells_replaced [OF l]) auto
      ultimately show ?thesis by auto
    qed
    then have "without (table_cells p b (ass[?i := a # ass ! ?i])) ?h = without (table_cells p b ass) h"
      using a(2) by (auto simp: without_def fun_eq_iff table_cells_def)
    moreover have "find_node h key ?first = Some 0" using walks_pass(1) [OF r(4) 3(2)] walks_stop by simp
    then have "ct_next_at m h p key out_ok = Some (?h, 0, Some 1)"
      using 3 r(1-3,6,11) i ab by (simp add: ct_next_at_def bucket_index write_bucket_def Let_def)
    moreover have "chain_bump key (buckets t ! ?i) = None" using 3(2) by (simp add: chain_bump_None_iff chain_map_None_iff)
    then have "rawudp_ct_next (m h \<noteq> None) (Some t) key out_ok =
        (0, Some (t\<lparr>buckets := (buckets t)[?i := ?n # buckets t ! ?i]\<rparr>), Some 1)"
      using 3 by (simp add: rawudp_ct_next_def Let_def)
    ultimately show ?thesis by blast
  next
    case (4 ns1 n ns2)
    let ?c = "node_counter n + 1"
    let ?ns = "ns1 @ n\<lparr>node_counter := ?c\<rparr> # ns2"
    obtain a nx where a: "find_node h key (heads ! ?i) = Some a" "a \<noteq> 0" "a \<in> set (ass ! ?i)"
      "h a = Some (Node_cell key (node_counter n) nx)" "chain_at (h(a \<mapsto> Node_cell key ?c nx)) (heads ! ?i) ?ns (ass ! ?i)"
      using bump_at [OF r(4) [unfolded 4(2)] r(5) 4(4,3)] by blast
    let ?h = "h(a \<mapsto> Node_cell key ?c nx)"
    have "table_at ?h p (t\<lparr>buckets := (buckets t)[?i := ?ns]\<rparr>) b (heads[?i := heads ! ?i]) (ass[?i := ass ! ?i])"
      using a(3) r(8,9,11) by (intro table_at_update [OF t i a(5) r(5)]) auto
    then have "table_at ?h p (t\<lparr>buckets := (buckets t)[?i := ?ns]\<rparr>) b heads ass" by simp
    moreover have "without (table_cells p b ass) ?h = without (table_cells p b ass) h"
      using a(3) r(7) by (auto simp: without_def fun_eq_iff)
    moreover have "ct_next_at m h p key out_ok = Some (?h, 0, Some ?c)"
      using 4(1) a(1,2,4) r(1-3) by (simp add: ct_next_at_def bucket_index read_node_def Let_def)
    moreover have "rawudp_ct_next (m h \<noteq> None) (Some t) key out_ok =
        (0, Some (t\<lparr>buckets := (buckets t)[?i := ?ns]\<rparr>), Some ?c)"
      using 4 chain_bump_at [OF 4(4,3), of ns2] by (simp add: rawudp_ct_next_def Let_def)
    ultimately show ?thesis by blast
  qed
qed

text \<open>A client is taken out of its chain, and its node is freed.\<close>

lemma unlink_at:
  assumes c: "chain_at h q (ns1 @ n # ns2) as" and d: "distinct as" and k: "key \<notin> set (chain_keys ns1)" "node_key n = key"
  obtains as1 a as2 nx where "as = as1 @ a # as2" "a \<noteq> 0" "h a = Some (Node_cell key (node_counter n) nx)"
    "find_prev h key 0 q = Some (last (0 # as1), a)"
    "as1 = [] \<Longrightarrow> q = a \<and> chain_at h nx (ns1 @ ns2) (as1 @ as2)"
    "as1 \<noteq> [] \<Longrightarrow> \<exists>k' c' nx'. last as1 \<noteq> 0 \<and> h (last as1) = Some (Node_cell k' c' nx') \<and>
       chain_at (h(last as1 \<mapsto> Node_cell k' c' nx)) q (ns1 @ ns2) (as1 @ as2)"
proof -
  have "length as = length ns1 + Suc (length ns2)" using chain_seg_length [OF c] by simp
  then obtain as1 a as2 where as: "as = as1 @ a # as2" "length ns1 = length as1"
    by (metis append_take_drop_id length_append add_left_cancel length_take min.absorb2 le_add1 length_Suc_conv)
  then obtain r nx where s: "chain_seg h q ns1 as1 r" "r = a" "a \<noteq> 0" "h a = Some (Node_cell key (node_counter n) nx)" "chain_at h nx ns2 as2"
    using c k(2) by (auto simp: chain_seg_append)
  show thesis
  proof (rule that [OF as(1) s(3,4)])
    show "find_prev h key 0 q = Some (last (0 # as1), a)"
      using walks_pass(2) [OF s(1) k(1), of 0] walks_find(2) [of a h key _ _ "last (0 # as1)"] s(2-4) by simp
    show "q = a \<and> chain_at h nx (ns1 @ ns2) (as1 @ as2)" if "as1 = []" using that as(2) s by simp
    assume "as1 \<noteq> []"
    then obtain bs l where l: "as1 = bs @ [l]" by (metis append_butlast_last_id)
    then obtain ms m where m: "ns1 = ms @ [m]" "length ms = length bs" using as(2) by (cases ns1 rule: rev_cases) auto
    with l s(1) have h: "chain_seg h q ms bs l" "l \<noteq> 0" "h l = Some (Node_cell (node_key m) (node_counter m) r)"
      by (auto simp: chain_seg_append)
    let ?h = "h(l \<mapsto> Node_cell (node_key m) (node_counter m) nx)"
    have "chain_seg ?h q ms bs l" "chain_at ?h nx ns2 as2"
      using h(1) s(5) d as(1) l by (auto elim!: chain_seg_frame)
    then have "chain_at ?h q ((ms @ [m]) @ ns2) ((bs @ [l]) @ as2)"
      using h(2) m(2) unfolding append_assoc by (auto simp: chain_seg_append)
    with h(2,3) l m(1) show "\<exists>k' c' nx'. last as1 \<noteq> 0 \<and> h (last as1) = Some (Node_cell k' c' nx') \<and>
       chain_at (h(last as1 \<mapsto> Node_cell k' c' nx)) q (ns1 @ ns2) (as1 @ as2)" by simp
  qed
qed

lemma reset_at:
  assumes t: "table_at h p t b heads ass" and inv: "ct_inv t"
  shows "\<exists>h' t' heads' ass'. ct_reset_at h p key = Some h' \<and> rawudp_ct_reset (Some t) key = Some t' \<and>
      table_at h' p t' b heads' ass' \<and> without (table_cells p b ass') h' = without (table_cells p b ass) h"
proof -
  let ?i = "bucket_of t key"
  have i: "?i < nb t" using bucket_of_less [OF inv] .
  note r = table_reads [OF t i]
  have l: "?i < length ass" using t i by (simp add: table_at_def)
  show ?thesis
  proof (cases rule: chain_with_key [of key "buckets t ! ?i"])
    case 1
    have "find_prev h key 0 (heads ! ?i) = Some (last (0 # ass ! ?i), 0)"
      using walks_pass(2) [OF r(4) 1, of 0] walks_stop by simp
    then have "ct_reset_at h p key = Some h" using r(1-3) by (simp add: ct_reset_at_def bucket_index Let_def)
    moreover have "rawudp_ct_reset (Some t) key = Some t"
      using chain_unlink_at(2) [OF 1] by (simp add: rawudp_ct_reset_def Let_def)
    ultimately show ?thesis using t by blast
  next
    case (2 ns1 n ns2)
    obtain as1 a as2 nx where a: "ass ! ?i = as1 @ a # as2" "a \<noteq> 0" "h a = Some (Node_cell key (node_counter n) nx)"
      "find_prev h key 0 (heads ! ?i) = Some (last (0 # as1), a)"
      "as1 = [] \<Longrightarrow> heads ! ?i = a \<and> chain_at h nx (ns1 @ ns2) (as1 @ as2)"
      "as1 \<noteq> [] \<Longrightarrow> \<exists>k' c' nx'. last as1 \<noteq> 0 \<and> h (last as1) = Some (Node_cell k' c' nx') \<and>
         chain_at (h(last as1 \<mapsto> Node_cell k' c' nx)) (heads ! ?i) (ns1 @ ns2) (as1 @ as2)"
      using unlink_at [OF r(4) [unfolded 2(1)] r(5) 2(3,2)] by metis
    let ?t = "t\<lparr>buckets := (buckets t)[?i := ns1 @ ns2]\<rparr>" and ?ass = "ass[?i := as1 @ as2]"
    have reset: "rawudp_ct_reset (Some t) key = Some ?t"
      using chain_unlink_at(1) [OF 2(3,2), of ns2] 2(1) by (simp add: rawudp_ct_reset_def Let_def)
    have d: "distinct (as1 @ a # as2)" using r(5) a(1) by simp
    have c: "table_cells p b ?ass \<union> {a} = table_cells p b ass"
    proof -
      have "table_cells p b ?ass \<union> {a} = table_cells p b ass \<union> {a}" using a(1) by (intro cells_replaced [OF l]) auto
      moreover have "a \<in> table_cells p b ass" using a(1) r(7) by auto
      ultimately show ?thesis by auto
    qed
    have kept: "table_at (without {a} h') p ?t b (heads[?i := first]) ?ass"
      if "chain_at h' first (ns1 @ ns2) (as1 @ as2)" "h' p = h p" "h' b = Some (Bucket_cell (heads[?i := first]))"
        "\<forall>c. c \<notin> set (ass ! ?i) \<longrightarrow> c \<noteq> b \<longrightarrow> h' c = h c" for h' first
    proof (rule table_at_update [OF t i])
      show "chain_at (without {a} h') first (ns1 @ ns2) (as1 @ as2)"
        using d by (intro chain_seg_frame [OF that(1)]) (auto simp: without_apply)
      show "distinct (as1 @ as2)" using d by simp
      have ap: "a \<noteq> p" "a \<noteq> b" using r(8,9) a(1) by auto
      show "without {a} h' p = h p" "without {a} h' b = Some (Bucket_cell (heads[?i := first]))"
        using that(2,3) ap by (simp_all add: without_apply)
      have "b \<notin> set (concat ass)" using t by (simp add: table_at_def)
      then show "\<forall>c. c \<notin> set (ass ! ?i) \<longrightarrow> c \<in> set (concat ass) \<longrightarrow> without {a} h' c = h c"
        using that(4) a(1) by (auto simp: without_apply)
      show "set (as1 @ as2) \<inter> (table_cells p b ass - set (ass ! ?i)) = {}" using a(1) by auto
    qed
    have rest: "without (table_cells p b ?ass) (without {a} h') = without (table_cells p b ass) h"
      if "\<forall>c. c \<notin> table_cells p b ass \<longrightarrow> h' c = h c" for h'
      using that c by (auto simp: without_def fun_eq_iff)
    show ?thesis
    proof (cases "as1 = []")
      case True
      let ?h = "h(b \<mapsto> Bucket_cell (heads[?i := nx]))"
      have "chain_at ?h nx (ns1 @ ns2) (as1 @ as2)"
        using a(1) a(5) [OF True] r(9) by (auto elim!: chain_seg_frame)
      from kept [OF this] rest [of ?h] r(10) have
        "table_at (without {a} ?h) p ?t b (heads[?i := nx]) ?ass" "without (table_cells p b ?ass) (without {a} ?h) = without (table_cells p b ass) h"
        by (simp_all add: table_cells_def)
      moreover have "ct_reset_at h p key = Some (without {a} ?h)"
        using True a(1-4) r(1-3,6,9,11) i
        by (auto simp: ct_reset_at_def bucket_index read_node_def write_bucket_def heap_free_def without_def fun_eq_iff Let_def)
      ultimately show ?thesis using reset by blast
    next
      case False
      then obtain k' c' nx' where p: "last as1 \<noteq> 0" "h (last as1) = Some (Node_cell k' c' nx')"
        "chain_at (h(last as1 \<mapsto> Node_cell k' c' nx)) (heads ! ?i) (ns1 @ ns2) (as1 @ as2)"
        using a(6) by blast
      let ?h = "h(last as1 \<mapsto> Node_cell k' c' nx)"
      have la: "last as1 \<in> set (ass ! ?i)" "last as1 \<noteq> a" using False d a(1) by auto
      have "?h p = h p" "?h b = Some (Bucket_cell (heads[?i := heads ! ?i]))"
        "\<forall>c. c \<notin> set (ass ! ?i) \<longrightarrow> c \<noteq> b \<longrightarrow> ?h c = h c"
        using la(1) r(8,9,11) by auto
      note kept [OF p(3) this]
      moreover have "without (table_cells p b ?ass) (without {a} ?h) = without (table_cells p b ass) h"
        using la(1) r(7) by (intro rest) auto
      moreover have "ct_reset_at h p key = Some (without {a} ?h)"
        using False a(1-4) p(1,2) la(2) r(1-3)
        by (auto simp: ct_reset_at_def bucket_index read_node_def heap_free_def without_def fun_eq_iff Let_def)
      ultimately show ?thesis using reset by blast
    qed
  qed
qed

section \<open>From the creation of a table to its end\<close>

datatype ct_call = Next client_key bool | Reset client_key

text \<open>A client's calls on the table at \<open>t\<close>, with the results of \<open>rawudp_ct_next\<close>; and on lists.\<close>

fun ct_calls_at :: "(heap \<Rightarrow> nat option) \<Rightarrow> ct_call list \<Rightarrow> heap \<Rightarrow> nat \<Rightarrow> (heap \<times> (int \<times> u32 option) list) option" where
  "ct_calls_at m [] h t = Some (h, [])"
| "ct_calls_at m (Next key out_ok # cs) h t =
     Option.bind (ct_next_at m h t key out_ok) (\<lambda>(h', r, out).
       map_option (\<lambda>(h'', rs). (h'', (r, out) # rs)) (ct_calls_at m cs h' t))"
| "ct_calls_at m (Reset key # cs) h t = Option.bind (ct_reset_at h t key) (\<lambda>h'. ct_calls_at m cs h' t)"

lemma ct_next_inv:
  assumes "ct_inv t" "rawudp_ct_next ok (Some t) key out_ok = (r, Some t', out)"
  shows "ct_inv t'"
proof (cases "out_ok \<and> (ok \<or> ct_lookup t key \<noteq> None)")
  case True
  with ct_next_success [OF assms(1), of ok key] assms(2) show ?thesis by auto
next
  case False
  then have "rawudp_ct_next ok (Some t) key out_ok = (- 1, Some t, None)"
    by (auto simp: rawudp_ct_next_def ct_lookup_def chain_bump_None_iff [symmetric] Let_def split: option.splits)
  with assms show ?thesis by simp
qed

lemma calls_at:
  assumes "calloc_ok m"
  shows "table_at h p t b heads ass \<Longrightarrow> ct_inv t \<Longrightarrow>
    \<exists>h' rs t' heads' ass'. ct_calls_at m cs h p = Some (h', rs) \<and> table_at h' p t' b heads' ass' \<and>
      without (table_cells p b ass') h' = without (table_cells p b ass) h"
proof (induction cs arbitrary: h t heads ass)
  case (Cons c cs)
  show ?case
  proof (cases c)
    case (Next key out_ok)
    obtain h1 r out t1 heads1 ass1 where n: "ct_next_at m h p key out_ok = Some (h1, r, out)"
      "rawudp_ct_next (m h \<noteq> None) (Some t) key out_ok = (r, Some t1, out)" "table_at h1 p t1 b heads1 ass1"
      "without (table_cells p b ass1) h1 = without (table_cells p b ass) h"
      using next_at [OF Cons.prems assms] by blast
    from Cons.IH [OF n(3) ct_next_inv [OF Cons.prems(2) n(2)]] n(1,4) show ?thesis by (auto simp: Next)
  next
    case (Reset key)
    obtain h1 t1 heads1 ass1 where n: "ct_reset_at h p key = Some h1" "rawudp_ct_reset (Some t) key = Some t1"
      "table_at h1 p t1 b heads1 ass1" "without (table_cells p b ass1) h1 = without (table_cells p b ass) h"
      using reset_at [OF Cons.prems] by blast
    have "ct_inv t1" using ct_reset_correct [OF Cons.prems(2), of key] n(2) by auto
    from Cons.IH [OF n(3) this] n(1,4) show ?thesis by (auto simp: Reset)
  qed
qed auto

lemma calls_on_NULL: "\<exists>rs. ct_calls_at m cs h 0 = Some (h, rs)"
proof (induction cs)
  case (Cons c cs)
  then show ?case by (cases c) (auto simp: ct_next_at_def ct_reset_at_def)
qed simp

lemma created_at:
  assumes "calloc_ok m"
  obtains "ct_create_at m h = Some (h, 0)"
    | h1 p b where "ct_create_at m h = Some (h1, p)" "without (table_cells p b (replicate 1024 [])) h1 = h"
      "table_at h1 p \<lparr>buckets = replicate 1024 [], nb = 1024\<rparr> b (replicate 1024 0) (replicate 1024 [])"
proof (cases "m h")
  case None
  then show thesis by (intro that(1)) (simp add: ct_create_at_def)
next
  case (Some t)
  let ?h1 = "h(t \<mapsto> Table_cell 0 1024)"
  have t: "t \<noteq> 0" "h t = None" using assms Some by (auto simp: calloc_ok_def)
  show thesis
  proof (cases "m ?h1")
    case None
    have "(?h1)(t := None) = h" using t by (auto simp: fun_eq_iff)
    then show thesis using t Some None by (intro that(1)) (simp add: ct_create_at_def heap_free_def Let_def)
  next
    case (Some b)
    let ?h2 = "?h1(t \<mapsto> Table_cell b 1024, b \<mapsto> Bucket_cell (replicate 1024 0))"
    have "b \<noteq> 0 \<and> ?h1 b = None" using assms Some unfolding calloc_ok_def by blast
    then have b: "b \<noteq> 0" "b \<noteq> t" "h b = None" by (auto split: if_splits)
    have "ct_create_at m h = Some (?h2, t)" using Some \<open>m h = Some t\<close> by (simp add: ct_create_at_def Let_def)
    moreover have "without (table_cells t b (replicate 1024 [])) ?h2 = h"
      using t b by (auto simp: without_def table_cells_def fun_eq_iff)
    moreover have "table_at ?h2 t \<lparr>buckets = replicate 1024 [], nb = 1024\<rparr> b (replicate 1024 0) (replicate 1024 [])"
    proof -
      have "concat (replicate 1024 []) = ([] :: nat list)" by (simp add: concat_eq_Nil_conv)
      then show ?thesis using t b by (simp add: table_at_def)
    qed
    ultimately show thesis by (rule that(2))
  qed
qed

text \<open>
  Property C29. Whatever calls are made on a client table between its creation and its end, and whichever allocations
  fail, no function uses a pointer to memory that is not allocated or is freed already, indexes outside of the
  buckets or walks for ever, and \<open>rawudp_ct_destroy\<close> leaves the heap as it was before the creation: every node, the array
  and the table are freed, once, and nothing else is. When the creation fails the pointer is NULL and all
  of it does nothing.
\<close>

theorem ct_destroy_frees_all:
  assumes "calloc_ok m"
  shows "\<exists>h1 t h2 rs. ct_create_at m h = Some (h1, t) \<and> ct_calls_at m cs h1 t = Some (h2, rs) \<and> rawudp_ct_destroy h2 t = Some h"
proof (cases rule: created_at [OF assms, of h])
  case 1
  obtain rs where "ct_calls_at m cs h 0 = Some (h, rs)" using calls_on_NULL by blast
  then show ?thesis using 1 by (auto simp: rawudp_ct_destroy_def)
next
  case (2 h1 p b)
  have "ct_inv \<lparr>buckets = replicate 1024 [], nb = 1024\<rparr>"
    using ct_create_correct [of "\<lparr>buckets = replicate 1024 [], nb = 1024\<rparr>"] by (simp add: rawudp_ct_create_def)
  from calls_at [OF assms 2(3) this, of cs] obtain h2 rs t' heads' ass' where
    c: "ct_calls_at m cs h1 p = Some (h2, rs)" "table_at h2 p t' b heads' ass'" "without (table_cells p b ass') h2 = h"
    using 2(2) by auto
  with 2(1) destroy_at [OF c(2)] show ?thesis by auto
qed

text \<open>An allocator with room for three structures above address 8.\<close>

definition small_calloc :: "heap \<Rightarrow> nat option" where
  "small_calloc h = List.find (\<lambda>a. h a = None) [8, 9, 10]"

lemma small_calloc_ok: "calloc_ok small_calloc"
  unfolding calloc_ok_def small_calloc_def by (auto simp: find_Some_iff split: if_splits)

theorem ct_destroy_frees_all_witness:
  "\<exists>h1 t h2 rs. ct_create_at small_calloc [3 \<mapsto> Bucket_cell [1]] = Some (h1, t) \<and>
     ct_calls_at small_calloc [Next (sample_key 1) True, Next (sample_key 2) True, Next (sample_key 1) True, Reset (sample_key 1)] h1 t =
       Some (h2, rs) \<and> rawudp_ct_destroy h2 t = Some [3 \<mapsto> Bucket_cell [1]]"
  by (rule ct_destroy_frees_all [OF small_calloc_ok])

end
