(* ===== verification/Taxi_Driver.thy ===== *)
theory Taxi_Driver
  imports C_Prelude
begin

text \<open>
  The driver process of \<open>taxi_control/main.c\<close>: \<open>driver_loop\<close> and its timer helpers. One round of
  the loop is \<open>driver_round\<close>, the function from its first line \<open>driver_process\<close>; what the system calls of the round answer (\<open>poll\<close>, \<open>read\<close>, \<open>recv\<close>,
  \<open>timerfd_gettime\<close>, \<open>timerfd_settime\<close>) is the record \<open>round_in\<close>, and what the round does to the
  outside is a list of actions. The driver's state is the flag \<open>busy\<close>.
\<close>

section \<open>The code\<close>

definition MSGSZ :: nat where "MSGSZ = 256"

datatype poll_res = PollReady | PollInterrupted | PollFailed
datatype read_res = ReadDone | ReadAgain | ReadFailed

text \<open>A message is the bytes received; the empty message is the end of the stream.\<close>

datatype recv_res = RecvAgain | RecvFailed | RecvMsg string

record round_in =
  in_poll :: poll_res
  in_timer :: bool                 \<comment> \<open>\<open>pfds[1].revents & POLLIN\<close>\<close>
  in_read :: read_res
  in_hangup :: bool                \<comment> \<open>\<open>pfds[0].revents & (POLLHUP | POLLERR | POLLNVAL)\<close>\<close>
  in_sock :: bool                  \<comment> \<open>\<open>pfds[0].revents & POLLIN\<close>\<close>
  in_recv :: recv_res
  in_gettime :: "(int \<times> int) option"  \<comment> \<open>seconds and nanoseconds left; \<open>None\<close> on an error\<close>
  in_settime :: bool               \<comment> \<open>whether arming the timer succeeds\<close>

text \<open>\<open>Arm s\<close> sets the timer to \<open>s\<close> seconds, 0 disarms it.\<close>

datatype action = Arm int | Reply string

datatype outcome = Continue bool | Exit int

definition timer_set_secs :: "int \<Rightarrow> action" where
  "timer_set_secs seconds = Arm (if seconds > 0 then seconds else 0)"

definition timer_remaining_secs :: "(int \<times> int) option \<Rightarrow> int" where
  "timer_remaining_secs g =
     (case g of None \<Rightarrow> 0
      | Some (sec, nsec) \<Rightarrow> if nsec \<noteq> 0 then to_int sec + 1 else to_int sec)"

definition busy_reply :: "round_in \<Rightarrow> action" where
  "busy_reply r = Reply (snprintf_buf 64 (''Busy '' @ show_int (timer_remaining_secs (in_gettime r))))"

text \<open>The treatment of a received message, from \<open>msg[n] = 0\<close> on.\<close>

definition driver_message :: "bool \<Rightarrow> round_in \<Rightarrow> string \<Rightarrow> action list \<times> outcome" where
  "driver_message busy r bytes =
     (let msg = cstr bytes
      in if strncmp_eq msg ''QUIT'' 4 then ([Reply ''Bye''], Exit 0)
         else if strncmp_eq msg ''STATUS'' 6 then
           (if busy then [busy_reply r] else [Reply ''Available''], Continue busy)
         else if strncmp_eq msg ''TASK'' 4 then
           (let p = dropWhile isspace (drop 4 msg);
                sec = strtol_val p
            in if strtol p = None \<or> sec \<le> 0 \<or> sec > 86400
               then ([Reply ''Error BadTimer''], Continue busy)
               else if busy then ([busy_reply r], Continue busy)
               else if \<not> in_settime r then ([timer_set_secs (to_int sec)], Exit 1)
               else ([timer_set_secs (to_int sec), Reply ''OK''], Continue True))
         else ([Reply ''Error UnknownCommand''], Continue busy))"

text \<open>The socket part of a round, after the timer has been looked at.\<close>

definition driver_socket :: "bool \<Rightarrow> round_in \<Rightarrow> action list \<times> outcome" where
  "driver_socket busy r =
     (if in_hangup r then ([], Exit 0)
      else if in_sock r then
        (case in_recv r of
           RecvAgain \<Rightarrow> ([], Continue busy)
         | RecvFailed \<Rightarrow> ([], Exit 1)
         | RecvMsg bytes \<Rightarrow>
             if bytes = [] then ([], Exit 0)
             else driver_message busy r (take (MSGSZ - 1) bytes))
      else ([], Continue busy))"

definition driver_round :: "bool \<Rightarrow> round_in \<Rightarrow> action list \<times> outcome" where
  "driver_round busy r =
     (case in_poll r of
        PollInterrupted \<Rightarrow> ([], Continue busy)
      | PollFailed \<Rightarrow> ([], Exit 1)
      | PollReady \<Rightarrow>
          if in_timer r then
            (if in_read r = ReadFailed then ([], Exit 1)
             else (let (acts, res) = driver_socket False r in (timer_set_secs 0 # acts, res)))
          else driver_socket busy r)"

text \<open>The loop: the actions of each round, and the exit code when it has ended.\<close>

fun driver_loop :: "bool \<Rightarrow> round_in list \<Rightarrow> action list list \<times> outcome" where
  "driver_loop busy [] = ([], Continue busy)"
| "driver_loop busy (r # rs) =
     (case driver_round busy r of
        (acts, Exit c) \<Rightarrow> ([acts], Exit c)
      | (acts, Continue b) \<Rightarrow> (let (log, res) = driver_loop b rs in (acts # log, res)))"

text \<open>
  \<open>driver_loop\<close> of the code from its first line: without a timer the process ends at once with
  exit code 1; otherwise the loop starts with \<open>busy = 0\<close>. The argument is whether \<open>timerfd_create\<close>
  succeeds.
\<close>

definition driver_process :: "bool \<Rightarrow> round_in list \<Rightarrow> action list list \<times> outcome" where
  "driver_process timerfd rs = (if \<not> timerfd then ([], Exit 1) else driver_loop False rs)"

section \<open>The driver's protocol\<close>

text \<open>A task is accepted by the reply \<open>OK\<close>; a timer event is a round in which the timer is readable.\<close>

definition accepts :: "action list \<Rightarrow> bool" where
  "accepts acts \<longleftrightarrow> Reply ''OK'' \<in> set acts"

definition expires :: "round_in \<Rightarrow> bool" where
  "expires r \<longleftrightarrow> in_poll r = PollReady \<and> in_timer r"

lemma busy_reply_not_OK [simp]: "busy_reply r \<noteq> Reply ''OK''" "Reply ''OK'' \<noteq> busy_reply r"
  by (simp_all add: busy_reply_def snprintf_buf_def)

lemma timer_set_secs_not_Reply [simp]: "timer_set_secs s \<noteq> Reply m" "Reply m \<noteq> timer_set_secs s"
  by (simp_all add: timer_set_secs_def)

lemma driver_message_accepts:
  "driver_message busy r bytes = (acts, res) \<Longrightarrow> accepts acts \<Longrightarrow>
     \<not> busy \<and> res = Continue True \<and>
     (\<exists>sec. 1 \<le> sec \<and> sec \<le> 86400 \<and> strtol_val (drop 4 (cstr bytes)) = sec \<and>
            acts = [Arm sec, Reply ''OK''])"
  by (auto simp: driver_message_def accepts_def Let_def strtol_val_def timer_set_secs_def
      to_int_id INT_MIN_def INT_MAX_def split: if_splits)

lemma driver_message_busy:
  "driver_message busy r bytes = (acts, Continue b) \<Longrightarrow> b = (busy \<or> accepts acts)"
  by (auto simp: driver_message_def accepts_def Let_def split: if_splits)

lemma driver_socket_accepts:
  "driver_socket busy r = (acts, res) \<Longrightarrow> accepts acts \<Longrightarrow>
     \<not> busy \<and> res = Continue True \<and>
     (\<exists>bytes sec. in_recv r = RecvMsg bytes \<and> 1 \<le> sec \<and> sec \<le> 86400 \<and>
        strtol_val (drop 4 (cstr (take (MSGSZ - 1) bytes))) = sec \<and> acts = [Arm sec, Reply ''OK''])"
  unfolding driver_socket_def
  by (auto split: if_splits recv_res.splits dest!: driver_message_accepts) (auto simp: accepts_def)

lemma driver_socket_busy:
  "driver_socket busy r = (acts, Continue b) \<Longrightarrow> b = (busy \<or> accepts acts)"
  unfolding driver_socket_def
  by (auto split: if_splits recv_res.splits dest!: driver_message_busy) (auto simp: accepts_def)

lemma accepts_Arm [simp]: "accepts (timer_set_secs s # acts) = accepts acts"
  by (auto simp: accepts_def)

lemma driver_round_accepts:
  assumes "driver_round busy r = (acts, res)" and "accepts acts"
  shows "(busy \<longrightarrow> expires r) \<and> res = Continue True"
  using assms unfolding driver_round_def
  by (auto split: if_splits poll_res.splits prod.splits dest!: driver_socket_accepts simp: expires_def)
    (auto simp: accepts_def)

lemma driver_round_busy:
  "driver_round busy r = (acts, Continue b) \<Longrightarrow> b = (busy \<and> \<not> expires r \<or> accepts acts)"
  unfolding driver_round_def
  by (auto split: if_splits poll_res.splits prod.splits dest!: driver_socket_busy simp: expires_def)
    (auto simp: accepts_def)

text \<open>
  Property C13. The driver accepts a task (replies \<open>OK\<close>) only in a round in which it is not busy or its
  timer has just expired, and only for a message whose number of seconds lies between 1 and
  86400; it then arms the timer with exactly that number before it replies, and is busy.
\<close>

theorem driver_accepts_task:
  assumes "driver_round busy r = (acts, res)" and "accepts acts"
  shows "(busy \<longrightarrow> expires r) \<and> res = Continue True \<and>
     (\<exists>bytes sec. in_recv r = RecvMsg bytes \<and> 1 \<le> sec \<and> sec \<le> 86400 \<and>
        strtol_val (drop 4 (cstr (take (MSGSZ - 1) bytes))) = sec \<and>
        acts = (if expires r then [Arm 0] else []) @ [Arm sec, Reply ''OK''])"
  using assms unfolding driver_round_def
  by (auto split: if_splits poll_res.splits prod.splits dest!: driver_socket_accepts
      simp: expires_def timer_set_secs_def)
    (auto simp: accepts_def)

definition quiet_round :: "string \<Rightarrow> round_in" where
  "quiet_round m = \<lparr>in_poll = PollReady, in_timer = False, in_read = ReadDone, in_hangup = False,
     in_sock = True, in_recv = RecvMsg m, in_gettime = Some (41, 5), in_settime = True\<rparr>"

theorem driver_accepts_task_witness:
  "driver_round False (quiet_round ''TASK 30'') = ([Arm 30, Reply ''OK''], Continue True) \<and>
   accepts [Arm 30, Reply ''OK''] \<and>
   (\<exists>bytes. in_recv (quiet_round ''TASK 30'') = RecvMsg bytes \<and>
      strtol_val (drop 4 (cstr (take (MSGSZ - 1) bytes))) = 30)"
proof -
  have r: "driver_round False (quiet_round ''TASK 30'') = ([Arm 30, Reply ''OK''], Continue True)"
    by code_simp
  show ?thesis
    using r driver_accepts_task [OF r] by (auto simp: accepts_def)
qed

lemma driver_loop_busy_waits:
  "driver_loop True rs = (log, res) \<Longrightarrow> j < length log \<Longrightarrow> accepts (log ! j) \<Longrightarrow>
     \<exists>k \<le> j. expires (rs ! k)"
proof (induction rs arbitrary: log j)
  case (Cons r rs)
  obtain acts nx where rd: "driver_round True r = (acts, nx)" by force
  show ?case
  proof (cases "expires r")
    case True
    then show ?thesis by (intro exI [of _ 0]) simp
  next
    case False
    with driver_round_accepts [OF rd] have na: "\<not> accepts acts" by blast
    with Cons.prems rd obtain b log' where nx: "nx = Continue b" and
      lp: "driver_loop b rs = (log', res)" and log: "log = acts # log'"
      by (cases nx) (auto split: prod.splits simp: less_Suc_eq_0_disj)
    with Cons.prems na obtain j' where j: "j = Suc j'" "j' < length log'" "accepts (log' ! j')"
      by (cases j) auto
    from driver_round_busy [OF rd [unfolded nx]] False have "b = True" by blast
    with Cons.IH [of log' j'] lp j obtain k where "k \<le> j'" "expires (rs ! k)" by blast
    then show ?thesis using j by (intro exI [of _ "Suc k"]) simp
  qed
qed simp

text \<open>
  Property C25. A driver has one task at a time: in every run of the loop, from whatever state, the
  timer expires between two accepted tasks.
\<close>

theorem driver_one_task_at_a_time:
  assumes "driver_loop busy rs = (log, res)" and "i < j" and "j < length log"
    and "accepts (log ! i)" and "accepts (log ! j)"
  shows "\<exists>k. i < k \<and> k \<le> j \<and> expires (rs ! k)"
  using assms
proof (induction rs arbitrary: busy log i j)
  case (Cons r rs)
  obtain acts nx where rd: "driver_round busy r = (acts, nx)" by force
  obtain j' where j: "j = Suc j'" using Cons.prems(2) by (cases j) auto
  with Cons.prems(1,3) rd obtain b log' where nx: "nx = Continue b" and
    lp: "driver_loop b rs = (log', res)" and log: "log = acts # log'"
    by (cases nx) (auto split: prod.splits)
  show ?case
  proof (cases i)
    case 0
    with Cons.prems log have "accepts acts" by simp
    with driver_round_accepts [OF rd] nx have "b = True" by simp
    with driver_loop_busy_waits [of rs log' res j'] lp Cons.prems log j obtain k
      where "k \<le> j'" "expires (rs ! k)" by auto
    with 0 j show ?thesis by (intro exI [of _ "Suc k"]) simp
  next
    case (Suc i')
    with Cons.IH [OF lp, of i' j'] Cons.prems log j obtain k
      where "i' < k" "k \<le> j'" "expires (rs ! k)" by auto
    with Suc j show ?thesis by (intro exI [of _ "Suc k"]) simp
  qed
qed simp

theorem driver_one_task_at_a_time_witness:
  "let rs = [quiet_round ''TASK 5'', quiet_round ''TASK 6'', (quiet_round ''TASK 7'')\<lparr>in_timer := True\<rparr>];
       log = [[Arm 5, Reply ''OK''], [Reply ''Busy 42''], [Arm 0, Arm 7, Reply ''OK'']]
   in driver_loop False rs = (log, Continue True) \<and> (\<exists>k. 0 < k \<and> k \<le> 2 \<and> expires (rs ! k))"
proof -
  let ?rs = "[quiet_round ''TASK 5'', quiet_round ''TASK 6'', (quiet_round ''TASK 7'')\<lparr>in_timer := True\<rparr>]"
  have l: "driver_loop False ?rs =
      ([[Arm 5, Reply ''OK''], [Reply ''Busy 42''], [Arm 0, Arm 7, Reply ''OK'']], Continue True)"
    by code_simp
  show ?thesis
    using l driver_one_task_at_a_time [OF l, of 0 2] by (auto simp: accepts_def Let_def)
qed

text \<open>
  A driver process ends with exit code 0 or 1, and with 0 only after a round in which the command
  line process has hung up, closed the stream or sent a message that starts with \<open>QUIT\<close>.
\<close>

definition told_to_end :: "round_in \<Rightarrow> bool" where
  "told_to_end r \<longleftrightarrow> in_hangup r \<or>
     (\<exists>bytes. in_recv r = RecvMsg bytes \<and> (bytes = [] \<or> strncmp_eq (cstr (take (MSGSZ - 1) bytes)) ''QUIT'' 4))"

lemma driver_message_exit:
  "driver_message busy r bytes = (acts, Exit c) \<Longrightarrow>
     c = 1 \<or> c = 0 \<and> strncmp_eq (cstr bytes) ''QUIT'' 4"
  by (auto simp: driver_message_def Let_def split: if_splits)

lemma driver_round_exit:
  "driver_round busy r = (acts, Exit c) \<Longrightarrow> c = 1 \<or> c = 0 \<and> told_to_end r"
  unfolding driver_round_def driver_socket_def told_to_end_def
  by (auto split: if_splits poll_res.splits recv_res.splits prod.splits dest!: driver_message_exit)

lemma driver_loop_exit:
  "driver_loop busy rs = (log, Exit c) \<Longrightarrow> c = 1 \<or> c = 0 \<and> (\<exists>r \<in> set rs. told_to_end r)"
  by (induction busy rs arbitrary: log rule: driver_loop.induct)
    (fastforce split: prod.splits outcome.splits dest: driver_round_exit)+

lemma driver_process_exit:
  "driver_process timerfd rs = (log, Exit c) \<Longrightarrow>
     c = 1 \<or> c = 0 \<and> timerfd \<and> (\<exists>r \<in> set rs. told_to_end r)"
  by (auto simp: driver_process_def split: if_splits dest: driver_loop_exit)

definition is_reply :: "action \<Rightarrow> bool" where
  "is_reply a = (case a of Reply _ \<Rightarrow> True | Arm _ \<Rightarrow> False)"

text \<open>
  Every message to a driver is answered by exactly one reply, whatever it says and
  whether or not the driver is busy (as long as the timer can be armed), and only a message that
  starts with \<open>QUIT\<close> ends the driver.
\<close>

lemma driver_answers_once:
  assumes "in_settime r" and "driver_message busy r bytes = (acts, res)"
  shows "length (filter is_reply acts) = 1 \<and>
     (if take 4 (cstr bytes) = ''QUIT'' then res = Exit 0 \<and> acts = [Reply ''Bye'']
      else res = Continue (busy \<or> accepts acts))"
proof -
  have "cstr ''QUIT'' = ''QUIT''" "cstr (cstr bytes) = cstr bytes"
    by (simp add: cstr_def NUL_def) (simp add: cstr_id)
  then have "strncmp_eq (cstr bytes) ''QUIT'' 4 = (take 4 (cstr bytes) = ''QUIT'')"
    by (simp add: strncmp_eq_def)
  with assms show ?thesis
    by (auto simp: driver_message_def is_reply_def busy_reply_def timer_set_secs_def Let_def
        accepts_def snprintf_buf_def split: if_splits)
qed

lemma driver_answers_once_witness:
  "in_settime (quiet_round ''STATUS'') \<and>
   driver_message True (quiet_round ''STATUS'') ''STATUS'' = ([Reply ''Busy 42''], Continue True) \<and>
   length (filter is_reply [Reply ''Busy 42'']) = 1"
proof -
  have s: "in_settime (quiet_round ''STATUS'')" by (simp add: quiet_round_def)
  have m: "driver_message True (quiet_round ''STATUS'') ''STATUS'' = ([Reply ''Busy 42''], Continue True)"
    by code_simp
  show ?thesis using s m driver_answers_once [OF s m] by simp
qed

end
