(* ===== verification/Taxi_Cli.thy ===== *)
theory Taxi_Cli
  imports Taxi_Driver
begin

text \<open>
  The command line process of \<open>taxi_control/main.c\<close>: the growing array of drivers, the commands
  and the main loop. The state \<open>cli\<close> is the array's used part and its capacity, together with
  what the process has printed and done to descriptors. The answers of the system calls are
  arguments. A failed allocation or system call ends the process (\<open>Die\<close>); \<open>ChildProcess fd\<close> is the
  branch of the forked child, which goes on with \<open>driver_process\<close> of the theory \<open>Taxi_Driver\<close>. A read
  of \<open>pfds\<close> past its end is the action \<open>PastEnd\<close>: it gives whatever the memory there holds, an
  argument too, so that the model goes on where the process may.
\<close>

section \<open>State and system call answers\<close>

record driver_t =
  d_pid :: int
  d_fd :: int
  d_alive :: bool

datatype cli_act = Printed string | Closed int | Sent int string | PastEnd nat

record cli =
  drivers :: "driver_t list"
  drivers_cap :: nat
  cli_log :: "cli_act list"

datatype cli_error = Die string | ChildProcess int

definition init_cli :: cli where
  "init_cli = \<lparr>drivers = [], drivers_cap = 0, cli_log = []\<rparr>"

definition emit :: "cli_act \<Rightarrow> cli \<Rightarrow> cli" where
  "emit a s = s\<lparr>cli_log := cli_log s @ [a]\<rparr>"

text \<open>The results of the two \<open>fcntl\<close> calls.\<close>

definition set_nonblock :: "int \<times> int \<Rightarrow> int" where
  "set_nonblock r = (if fst r < 0 then - 1 else if snd r < 0 then - 1 else 0)"

record create_in =
  ci_socketpair :: "(int \<times> int) option"
  ci_fcntl0 :: "int \<times> int"
  ci_fcntl1 :: "int \<times> int"
  ci_fork :: int
  ci_realloc :: bool

datatype send_res = SendDone | SendBroken | SendFailed

section \<open>The table of drivers\<close>

definition drivers_push :: "bool \<Rightarrow> int \<Rightarrow> int \<Rightarrow> cli \<Rightarrow> cli_error + cli" where
  "drivers_push ok pid fd s =
     (let n = length (drivers s); new = \<lparr>d_pid = pid, d_fd = fd, d_alive = True\<rparr>
      in if n = drivers_cap s then
           (let nc = (if drivers_cap s \<noteq> 0 then drivers_cap s * 2 else 8)
            in if \<not> ok then Inl (Die ''realloc'')
               else Inr (s\<lparr>drivers_cap := nc, drivers := drivers s @ [new]\<rparr>))
         else Inr (s\<lparr>drivers := drivers s @ [new]\<rparr>))"

text \<open>The index of the first entry with the pid; \<open>None\<close> is the NULL result.\<close>

fun find_driver :: "int \<Rightarrow> driver_t list \<Rightarrow> nat option" where
  "find_driver pid [] = None"
| "find_driver pid (d # ds) = (if d_pid d = pid then Some 0 else map_option Suc (find_driver pid ds))"

definition dead :: "driver_t \<Rightarrow> driver_t" where
  "dead d = d\<lparr>d_alive := False, d_fd := - 1\<rparr>"

text \<open>\<open>d->alive = 0; close(d->fd); d->fd = -1;\<close> for the entry at \<open>i\<close>.\<close>

definition bury :: "nat \<Rightarrow> cli \<Rightarrow> cli" where
  "bury i s = emit (Closed (d_fd (drivers s ! i))) (s\<lparr>drivers := (drivers s)[i := dead (drivers s ! i)]\<rparr>)"

section \<open>Reaping children\<close>

fun reap_index :: "int \<Rightarrow> driver_t list \<Rightarrow> nat option" where
  "reap_index p [] = None"
| "reap_index p (d # ds) =
     (if d_alive d \<and> d_pid d = p then Some 0 else map_option Suc (reap_index p ds))"

definition reap_one :: "int \<Rightarrow> cli \<Rightarrow> cli" where
  "reap_one p s =
     (case reap_index p (drivers s) of
        None \<Rightarrow> s
      | Some i \<Rightarrow>
          if d_fd (drivers s ! i) \<ge> 0 then bury i s
          else s\<lparr>drivers := (drivers s)[i := dead (drivers s ! i)]\<rparr>)"

text \<open>The argument lists what the calls of \<open>waitpid(-1, &st, WNOHANG)\<close> return.\<close>

fun reap_children :: "int list \<Rightarrow> cli \<Rightarrow> cli" where
  "reap_children [] s = s"
| "reap_children (p # ps) s = (if p \<le> 0 then s else reap_children ps (reap_one p s))"

section \<open>The commands\<close>

definition cmd_create_driver :: "create_in \<Rightarrow> cli \<Rightarrow> cli_error + cli" where
  "cmd_create_driver c s =
     (case ci_socketpair c of
        None \<Rightarrow> Inl (Die ''socketpair'')
      | Some (fd0, fd1) \<Rightarrow>
          if set_nonblock (ci_fcntl0 c) \<noteq> 0 then Inl (Die ''nonblock'')
          else if set_nonblock (ci_fcntl1 c) \<noteq> 0 then Inl (Die ''nonblock'')
          else if ci_fork c < 0 then Inl (Die ''fork'')
          else if ci_fork c = 0 then Inl (ChildProcess fd1)
          else (case drivers_push (ci_realloc c) (ci_fork c) fd0 (emit (Closed fd1) s) of
                  Inl e \<Rightarrow> Inl e
                | Inr s' \<Rightarrow> Inr (emit (Printed (show_int (ci_fork c))) s')))"

text \<open>\<open>d\<close> is the index of an entry or NULL.\<close>

definition send_cmd :: "send_res \<Rightarrow> nat option \<Rightarrow> string \<Rightarrow> cli \<Rightarrow> cli" where
  "send_cmd r d cmd s =
     (case d of
        None \<Rightarrow> emit (Printed ''Error NoSuchDriver'') s
      | Some i \<Rightarrow>
          if \<not> d_alive (drivers s ! i) then emit (Printed ''Error NoSuchDriver'') s
          else (case r of
                  SendDone \<Rightarrow> emit (Sent (d_fd (drivers s ! i)) cmd) s
                | SendBroken \<Rightarrow> bury i (emit (Printed ''Error DriverDead'') s)
                | SendFailed \<Rightarrow> emit (Printed ''Error SendFailed'') s))"

definition cmd_send_task :: "send_res \<Rightarrow> int \<Rightarrow> int \<Rightarrow> cli \<Rightarrow> cli" where
  "cmd_send_task r pid sec s =
     (case find_driver pid (drivers s) of
        None \<Rightarrow> emit (Printed ''Error NoSuchDriver'') s
      | Some i \<Rightarrow>
          if \<not> d_alive (drivers s ! i) then emit (Printed ''Error NoSuchDriver'') s
          else send_cmd r (Some i) (snprintf_buf MSGSZ (''TASK '' @ show_int sec)) s)"

definition cmd_get_status :: "send_res \<Rightarrow> int \<Rightarrow> cli \<Rightarrow> cli" where
  "cmd_get_status r pid s =
     (case find_driver pid (drivers s) of
        None \<Rightarrow> emit (Printed ''Error NoSuchDriver'') s
      | Some i \<Rightarrow>
          if \<not> d_alive (drivers s ! i) then emit (Printed ''Error NoSuchDriver'') s
          else send_cmd r (Some i) ''STATUS'' s)"

text \<open>\<open>rs i\<close> is the answer of \<open>send\<close> for the entry at \<open>i\<close>.\<close>

fun get_drivers_from :: "(nat \<Rightarrow> send_res) \<Rightarrow> nat list \<Rightarrow> cli \<Rightarrow> cli" where
  "get_drivers_from rs [] s = s"
| "get_drivers_from rs (i # is) s =
     (if \<not> d_alive (drivers s ! i) then get_drivers_from rs is s
      else get_drivers_from rs is (send_cmd (rs i) (Some i) ''STATUS'' s))"

definition cmd_get_drivers :: "(nat \<Rightarrow> send_res) \<Rightarrow> cli \<Rightarrow> cli" where
  "cmd_get_drivers rs s = get_drivers_from rs [0..<length (drivers s)] s"

section \<open>Reading a command\<close>

text \<open>The next word of the C string at \<open>*ps\<close>, and where \<open>*ps\<close> points afterwards.\<close>

definition next_tok :: "string \<Rightarrow> string option \<times> string" where
  "next_tok ps =
     (let s = dropWhile isspace ps
      in if s = [] then (None, s)
         else (let st = takeWhile (\<lambda>c. \<not> isspace c) s;
                   s' = dropWhile (\<lambda>c. \<not> isspace c) s
               in (Some st, if s' \<noteq> [] then tl s' else s')))"

text \<open>The dispatch on the line; the boolean says that the loop ends.\<close>

definition do_command :: "create_in \<Rightarrow> (nat \<Rightarrow> send_res) \<Rightarrow> string \<Rightarrow> cli \<Rightarrow> cli_error + (bool \<times> cli)" where
  "do_command c rs line s =
     (let go = (\<lambda>s. Inr (False, s)); (cmd, p) = next_tok (cstr line)
      in case cmd of
        None \<Rightarrow> go s
      | Some w \<Rightarrow>
          if w = ''create_driver'' then
            (case cmd_create_driver c s of Inl e \<Rightarrow> Inl e | Inr s' \<Rightarrow> go s')
          else if w = ''send_task'' then
            (let (spid, p) = next_tok p; (st, p) = next_tok p
             in case (spid, st) of
               (Some a, Some b) \<Rightarrow>
                 (let pid = to_int (strtol_val a); t = to_int (strtol_val b)
                  in if pid \<le> 0 \<or> t \<le> 0 then go (emit (Printed ''Error BadArgs'') s)
                     else go (cmd_send_task (rs 0) pid t s))
             | _ \<Rightarrow> go (emit (Printed ''Error Usage: send_task <pid> <task_timer>'') s))
          else if w = ''get_status'' then
            (case next_tok p of
               (None, _) \<Rightarrow> go (emit (Printed ''Error Usage: get_status <pid>'') s)
             | (Some a, _) \<Rightarrow>
                 (let pid = to_int (strtol_val a)
                  in if pid \<le> 0 then go (emit (Printed ''Error BadArgs'') s)
                     else go (cmd_get_status (rs 0) pid s)))
          else if w = ''get_drivers'' then go (cmd_get_drivers rs s)
          else if w = ''exit'' \<or> w = ''quit'' then Inr (True, s)
          else go (emit (Printed ''Error UnknownCommand'') s))"

section \<open>Reading replies, the poll scan and the end\<close>

text \<open>The list is what the calls of \<open>recv\<close> return; a socket with nothing more to read gives \<open>EAGAIN\<close>.\<close>

fun handle_driver_readable :: "recv_res list \<Rightarrow> nat \<Rightarrow> cli \<Rightarrow> cli" where
  "handle_driver_readable [] i s = s"
| "handle_driver_readable (RecvAgain # rs) i s = s"
| "handle_driver_readable (RecvFailed # rs) i s = bury i s"
| "handle_driver_readable (RecvMsg m # rs) i s =
     (if m = [] then bury i s
      else handle_driver_readable rs i
             (emit (Printed (show_int (d_pid (drivers s ! i)) @ '': '' @ cstr (take (MSGSZ - 1) m))) s))"

text \<open>
  \<open>pfds[k].revents\<close>: whether a hang-up or error bit is set, and whether \<open>POLLIN\<close> is. For \<open>k\<close> at or
  above \<open>nfds\<close>, the number of entries allocated, it is the memory behind the array.
\<close>

type_synonym revents = "nat \<Rightarrow> bool \<times> bool"

text \<open>The loop over the drivers after the command, with the index \<open>idx\<close> into \<open>pfds\<close>.\<close>

fun scan :: "nat \<Rightarrow> revents \<Rightarrow> (nat \<Rightarrow> recv_res list) \<Rightarrow> nat list \<Rightarrow> nat \<Rightarrow> cli \<Rightarrow> cli" where
  "scan n pfds rv [] idx s = s"
| "scan n pfds rv (i # is) idx s =
     (if \<not> d_alive (drivers s ! i) then scan n pfds rv is idx s
      else (let s = (if idx \<ge> n then emit (PastEnd idx) s else s)
            in if fst (pfds idx) then scan n pfds rv is (idx + 1) (bury i s)
               else if snd (pfds idx) then scan n pfds rv is (idx + 1) (handle_driver_readable (rv i) i s)
               else scan n pfds rv is (idx + 1) s))"

text \<open>\<open>nfds\<close>: standard input and one entry for each driver that is alive.\<close>

definition nfds :: "cli \<Rightarrow> nat" where
  "nfds s = 1 + length (filter d_alive (drivers s))"

record main_in =
  mi_waitpid :: "int list"
  mi_calloc :: bool
  mi_poll :: poll_res
  mi_stdin :: bool              \<comment> \<open>\<open>pfds[0].revents & POLLIN\<close>\<close>
  mi_line :: "string option"    \<comment> \<open>the result of \<open>fgets\<close>\<close>
  mi_create :: create_in
  mi_send :: "nat \<Rightarrow> send_res"
  mi_revents :: revents
  mi_recv :: "nat \<Rightarrow> recv_res list"

text \<open>One round of \<open>main\<close>: the boolean says that the loop ends.\<close>

definition main_round :: "main_in \<Rightarrow> cli \<Rightarrow> cli_error + (bool \<times> cli)" where
  "main_round m s0 =
     (let s = reap_children (mi_waitpid m) s0; n = nfds s;
          scan_all = (\<lambda>s'. Inr (False,
            scan n (mi_revents m) (mi_recv m) [0..<length (drivers s')] 1 s'))
      in if \<not> mi_calloc m then Inl (Die ''calloc'')
         else (case mi_poll m of
           PollInterrupted \<Rightarrow> Inr (False, emit (Printed ''> '') s)
         | PollFailed \<Rightarrow> Inl (Die ''poll'')
         | PollReady \<Rightarrow>
             (let s = emit (Printed ''> '') s
              in if mi_stdin m then
                   (case mi_line m of
                      None \<Rightarrow> Inr (True, s)
                    | Some line \<Rightarrow>
                        (case do_command (mi_create m) (mi_send m) line s of
                           Inl e \<Rightarrow> Inl e
                         | Inr (True, s') \<Rightarrow> Inr (True, s')
                         | Inr (False, s') \<Rightarrow> scan_all s'))
                 else scan_all s)))"

text \<open>
  \<open>shutdown_all\<close>: \<open>QUIT\<close> to the living, then every open descriptor is closed, then the children are
  waited for.
\<close>

fun quit_all :: "driver_t list \<Rightarrow> cli \<Rightarrow> cli" where
  "quit_all [] s = s"
| "quit_all (d # ds) s = quit_all ds (if d_alive d then emit (Sent (d_fd d) ''QUIT'') s else s)"

fun close_all :: "driver_t list \<Rightarrow> cli \<Rightarrow> cli" where
  "close_all [] s = s"
| "close_all (d # ds) s = close_all ds (if d_fd d \<ge> 0 then emit (Closed (d_fd d)) s else s)"

text \<open>
  The last loop, over what the calls of \<open>waitpid(-1, &st, 0)\<close> give: a child that has ended, \<open>EINTR\<close>,
  or another error, as when there is no child left. The result says whether the loop has ended; the
  empty list is a call that is still waiting.
\<close>

datatype wait_res = Waited int | WaitInterrupted | WaitFailed

fun wait_all :: "wait_res list \<Rightarrow> bool" where
  "wait_all [] = False"
| "wait_all (Waited p # ws) = wait_all ws"
| "wait_all (WaitInterrupted # ws) = wait_all ws"
| "wait_all (WaitFailed # ws) = True"

definition shutdown_all :: "wait_res list \<Rightarrow> cli \<Rightarrow> bool \<times> cli" where
  "shutdown_all ws s =
     (wait_all ws,
      (close_all (drivers s) (quit_all (drivers s) s))\<lparr>drivers := map dead (drivers s)\<rparr>)"

text \<open>
  The whole process: rounds until one ends the loop, then the shutdown. The boolean says that the
  process has ended.
\<close>

fun cli_main :: "main_in list \<Rightarrow> wait_res list \<Rightarrow> cli \<Rightarrow> cli_error + (bool \<times> cli)" where
  "cli_main [] ws s = Inr (False, s)"
| "cli_main (m # ms) ws s =
     (case main_round m s of
        Inl e \<Rightarrow> Inl e
      | Inr (True, s') \<Rightarrow> Inr (shutdown_all ws s')
      | Inr (False, s') \<Rightarrow> cli_main ms ws s')"

section \<open>The table's invariant\<close>

text \<open>
  The array never holds more entries than its capacity, which is 0 or 8 doubled some times; an
  entry is alive exactly when it owns a descriptor, and no two entries own the same one.
\<close>

definition owned :: "cli \<Rightarrow> int list" where
  "owned s = map d_fd (filter d_alive (drivers s))"

definition capacity_ok :: "nat \<Rightarrow> bool" where
  "capacity_ok c \<longleftrightarrow> c = 0 \<or> (\<exists>k. c = 8 * 2 ^ k)"

definition cli_inv :: "cli \<Rightarrow> bool" where
  "cli_inv s \<longleftrightarrow> length (drivers s) \<le> drivers_cap s \<and> capacity_ok (drivers_cap s) \<and>
     (\<forall>d \<in> set (drivers s). d_alive d = (d_fd d \<ge> 0)) \<and> distinct (owned s)"

lemma emit_fields [simp]:
  "drivers (emit a s) = drivers s" "drivers_cap (emit a s) = drivers_cap s"
  "cli_log (emit a s) = cli_log s @ [a]"
  by (simp_all add: emit_def)

lemma cli_inv_emit [simp]: "cli_inv (emit a s) = cli_inv s"
  by (simp add: cli_inv_def owned_def)

lemma dead_fields [simp]: "\<not> d_alive (dead d)" "d_fd (dead d) = - 1" "d_pid (dead d) = d_pid d"
  by (simp_all add: dead_def)

text \<open>Most operations change the table only by marking one entry dead.\<close>

definition killed :: "nat \<Rightarrow> cli \<Rightarrow> cli \<Rightarrow> bool" where
  "killed i s t \<longleftrightarrow> drivers_cap t = drivers_cap s \<and>
     (drivers t = drivers s \<or> drivers t = (drivers s)[i := dead (drivers s ! i)])"

lemma killed_refl [simp, intro]: "killed i s s"
  by (simp add: killed_def)

lemma killed_emit [simp]: "killed i s (emit a t) = killed i s t" "killed i (emit a s) t = killed i s t"
  by (simp_all add: killed_def)

lemma killed_bury [simp, intro]: "killed i s (bury i s)"
  by (simp add: killed_def bury_def)

lemma killed_length: "killed i s t \<Longrightarrow> length (drivers t) = length (drivers s)"
  by (auto simp: killed_def)

lemma killed_nth: "killed i s t \<Longrightarrow> j \<noteq> i \<Longrightarrow> drivers t ! j = drivers s ! j"
  by (auto simp: killed_def)

lemma filter_update_dead:
  "\<not> P (dead d) \<Longrightarrow> \<exists>us vs ws. filter P ds = us @ vs @ ws \<and> filter P (ds[i := dead d]) = us @ ws"
proof (cases "i < length ds")
  case True
  assume "\<not> P (dead d)"
  then show ?thesis
    using True by (subst id_take_nth_drop [OF True], subst upd_conv_take_nth_drop [OF True])
      (rule exI [of _ "filter P (take i ds)"], rule exI [of _ "filter P [ds ! i]"],
        rule exI [of _ "filter P (drop (Suc i) ds)"], simp)
next
  case False
  then show ?thesis by (rule_tac exI [of _ "filter P ds"], rule_tac exI [of _ "[]"], rule_tac exI [of _ "[]"])
      (simp add: list_update_beyond not_less)
qed

lemma killed_inv: "cli_inv s \<Longrightarrow> killed i s t \<Longrightarrow> cli_inv t"
proof -
  assume inv: "cli_inv s" and k: "killed i s t"
  have "distinct (owned t)"
  proof (cases "drivers t = drivers s")
    case True
    with inv show ?thesis by (simp add: cli_inv_def owned_def)
  next
    case False
    with k have t: "drivers t = (drivers s)[i := dead (drivers s ! i)]" by (auto simp: killed_def)
    obtain us vs ws where "filter d_alive (drivers s) = us @ vs @ ws"
      "filter d_alive (drivers t) = us @ ws"
      using filter_update_dead [of d_alive] unfolding t by (metis dead_fields(1))
    with inv show ?thesis by (auto simp: cli_inv_def owned_def)
  qed
  moreover have "\<forall>d \<in> set (drivers t). d_alive d = (d_fd d \<ge> 0)"
    using inv k set_update_subset_insert [of "drivers s" i] by (fastforce simp: cli_inv_def killed_def)
  ultimately show ?thesis
    using inv k killed_length [OF k] by (auto simp: cli_inv_def killed_def)
qed

lemma handle_driver_readable_killed: "killed i s (handle_driver_readable rs i s)"
proof (induction rs i s rule: handle_driver_readable.induct)
  case (4 m rs i s)
  then show ?case by (cases "m = []") auto
qed auto

lemma killed_bury_emit [simp]: "killed i s (bury i (emit a s))"
  by (metis killed_bury killed_emit(2))

lemma send_cmd_killed: "killed i s (send_cmd r (Some i) cmd s)"
  by (auto simp: send_cmd_def split: send_res.split)

lemma reap_one_killed: "killed (the (reap_index p (drivers s))) s (reap_one p s)"
  by (auto simp: reap_one_def killed_def bury_def split: option.split)

lemma reap_one_inv: "cli_inv s \<Longrightarrow> cli_inv (reap_one p s)"
  by (rule killed_inv [OF _ reap_one_killed])

lemma reap_children_inv: "cli_inv s \<Longrightarrow> cli_inv (reap_children ps s)"
  by (induction ps s rule: reap_children.induct) (auto simp: reap_one_inv)

lemma find_send_inv:
  "cli_inv s \<Longrightarrow> cli_inv (cmd_send_task r pid sec s)" "cli_inv s \<Longrightarrow> cli_inv (cmd_get_status r pid s)"
  by (auto simp: cmd_send_task_def cmd_get_status_def split: option.split
      intro: killed_inv [OF _ send_cmd_killed])

lemma get_drivers_inv: "cli_inv s \<Longrightarrow> cli_inv (cmd_get_drivers rs s)"
proof -
  have "cli_inv s \<Longrightarrow> cli_inv (get_drivers_from rs is s)" for "is"
    by (induction "is" arbitrary: s) (auto intro: killed_inv [OF _ send_cmd_killed])
  then show "cli_inv s \<Longrightarrow> cli_inv (cmd_get_drivers rs s)" by (simp add: cmd_get_drivers_def)
qed

text \<open>
  What \<open>socketpair\<close> gives is a pair of descriptors that the process does not own already.
\<close>

definition fresh_sockets :: "create_in \<Rightarrow> cli \<Rightarrow> bool" where
  "fresh_sockets c s \<longleftrightarrow> (\<forall>a b. ci_socketpair c = Some (a, b) \<longrightarrow> 0 \<le> a \<and> a \<notin> set (owned s))"

lemma capacity_ok_grow: "capacity_ok c \<Longrightarrow> capacity_ok (if c \<noteq> 0 then c * 2 else 8)"
  unfolding capacity_ok_def
proof (cases "c = 0")
  case False
  assume "c = 0 \<or> (\<exists>k. c = 8 * 2 ^ k)"
  with False obtain k where "c = 8 * 2 ^ k" by blast
  then have "c * 2 = 8 * 2 ^ Suc k" by simp
  with False show "(if c \<noteq> 0 then c * 2 else 8) = 0 \<or> (\<exists>k. (if c \<noteq> 0 then c * 2 else 8) = 8 * 2 ^ k)"
    by metis
qed (metis mult.right_neutral power_0)

lemma drivers_push_result:
  "drivers_push ok pid fd s = Inr t \<Longrightarrow>
     drivers t = drivers s @ [\<lparr>d_pid = pid, d_fd = fd, d_alive = True\<rparr>] \<and>
     drivers_cap t = (if length (drivers s) = drivers_cap s
       then (if drivers_cap s \<noteq> 0 then drivers_cap s * 2 else 8) else drivers_cap s)"
  by (auto simp: drivers_push_def Let_def split: if_splits)

lemma drivers_push_inv:
  assumes "cli_inv s" and "0 \<le> fd" and "fd \<notin> set (owned s)" and p: "drivers_push ok pid fd s = Inr t"
  shows "cli_inv t"
  using assms(1-3) drivers_push_result [OF p] capacity_ok_grow [of "drivers_cap s"]
  by (auto simp: cli_inv_def owned_def)

lemma create_driver_result:
  assumes "cmd_create_driver c s = Inr t"
  shows "\<exists>a b. ci_socketpair c = Some (a, b) \<and> 0 < ci_fork c \<and>
     (\<exists>u. drivers_push (ci_realloc c) (ci_fork c) a (emit (Closed b) s) = Inr u \<and>
          t = emit (Printed (show_int (ci_fork c))) u)"
  using assms unfolding cmd_create_driver_def
  by (auto split: option.splits if_splits sum.splits prod.splits)

lemma create_driver_inv:
  assumes inv: "cli_inv s" and fresh: "fresh_sockets c s" and res: "cmd_create_driver c s = Inr t"
  shows "cli_inv t"
proof -
  from create_driver_result [OF res] obtain a b u where sp: "ci_socketpair c = Some (a, b)"
    and u: "drivers_push (ci_realloc c) (ci_fork c) a (emit (Closed b) s) = Inr u"
    and t: "t = emit (Printed (show_int (ci_fork c))) u" by blast
  from fresh sp have "0 \<le> a" "a \<notin> set (owned (emit (Closed b) s))"
    by (auto simp: fresh_sockets_def owned_def)
  with drivers_push_inv [OF _ _ _ u] inv show ?thesis by (simp add: t)
qed

lemma next_tok_None: "next_tok p = (None, q) \<longleftrightarrow> dropWhile isspace p = [] \<and> q = []"
  by (auto simp: next_tok_def Let_def)

lemma do_command_inv:
  assumes inv: "cli_inv s" and fresh: "fresh_sockets c s" and res: "do_command c rs line s = Inr (q, t)"
  shows "cli_inv t"
proof (cases "fst (next_tok (cstr line)) = Some ''create_driver''")
  case True
  then have "cmd_create_driver c s = Inr t"
    using res by (auto simp: do_command_def Let_def split: sum.splits prod.splits)
  with create_driver_inv [OF inv fresh] show ?thesis by simp
next
  case False
  with res inv show ?thesis
    by (auto simp: do_command_def Let_def find_send_inv get_drivers_inv
        split: option.splits prod.splits if_splits)
qed

text \<open>The scan looks at \<open>pfds\<close> once for each driver that is alive when it is reached.\<close>

definition living :: "nat list \<Rightarrow> cli \<Rightarrow> nat" where
  "living is s = length (filter (\<lambda>i. d_alive (drivers s ! i)) is)"

lemma living_killed: "killed i s t \<Longrightarrow> i \<notin> set is \<Longrightarrow> living is t = living is s"
  unfolding living_def
  by (rule arg_cong [where f = length], rule filter_cong) (simp, metis killed_nth)

lemma living_all: "living [0..<length (drivers s)] s = length (filter d_alive (drivers s))"
proof -
  have "filter d_alive (drivers s) = map ((!) (drivers s)) (filter (\<lambda>i. d_alive (drivers s ! i)) [0..<length (drivers s)])"
    by (metis (no_types, lifting) filter_map comp_def map_nth filter_cong)
  then show ?thesis by (simp add: living_def)
qed

text \<open>The indices of \<open>pfds\<close> that were read past its end.\<close>

definition past_ends :: "cli \<Rightarrow> nat list" where
  "past_ends s = List.map_filter (\<lambda>a. case a of PastEnd k \<Rightarrow> Some k | _ \<Rightarrow> None) (cli_log s)"

lemma map_filter_snoc:
  "List.map_filter f (xs @ [x]) =
     List.map_filter f xs @ (case f x of None \<Rightarrow> [] | Some y \<Rightarrow> [y])"
  by (induction xs) (auto split: option.split)

lemma past_ends_emit [simp]:
  "past_ends (emit a s) = past_ends s @ (case a of PastEnd k \<Rightarrow> [k] | _ \<Rightarrow> [])"
  by (auto simp: past_ends_def map_filter_snoc split: cli_act.split)

lemma past_ends_update [simp]: "past_ends (s\<lparr>drivers := ds\<rparr>) = past_ends s"
  "past_ends (s\<lparr>drivers_cap := c\<rparr>) = past_ends s" "past_ends (s\<lparr>drivers_cap := c, drivers := ds\<rparr>) = past_ends s"
  by (simp_all add: past_ends_def)

lemma past_ends_bury [simp]: "past_ends (bury i s) = past_ends s"
  by (simp add: bury_def)

lemma past_ends_handle [simp]: "past_ends (handle_driver_readable rs i s) = past_ends s"
proof (induction rs i s rule: handle_driver_readable.induct)
  case (4 m rs i s)
  then show ?case by (cases "m = []") auto
qed auto

lemma past_ends_send [simp]: "past_ends (send_cmd r d cmd s) = past_ends s"
  by (auto simp: send_cmd_def split: option.split send_res.split)

lemma past_ends_reap [simp]: "past_ends (reap_children ps s) = past_ends s"
proof -
  have "past_ends (reap_one p s) = past_ends s" for p s
    by (auto simp: reap_one_def split: option.split)
  then show ?thesis by (induction ps s rule: reap_children.induct) auto
qed

lemma scan_result:
  "distinct is \<Longrightarrow>
     past_ends (scan n pfds rv is idx s) = past_ends s @ [max n idx..<idx + living is s] \<and>
     (cli_inv s \<longrightarrow> cli_inv (scan n pfds rv is idx s))"
proof (induction "is" arbitrary: idx s)
  case Nil
  then show ?case by (simp add: living_def)
next
  case (Cons i "is")
  show ?case
  proof (cases "d_alive (drivers s ! i)")
    case False
    then have "living (i # is) s = living is s" by (simp add: living_def)
    with False Cons show ?thesis by simp
  next
    case True
    then have l: "living (i # is) s = Suc (living is s)" by (simp add: living_def)
    define v where "v = (if idx \<ge> n then emit (PastEnd idx) s else s)"
    define u where "u = (if fst (pfds idx) then bury i v
      else if snd (pfds idx) then handle_driver_readable (rv i) i v else v)"
    have k: "killed i s u"
      using handle_driver_readable_killed [of i v "rv i"] killed_bury [of i v]
      by (auto simp: u_def v_def simp del: killed_bury)
    then have lu: "living is u = living is s" using Cons.prems by (auto intro: living_killed)
    have sc: "scan n pfds rv (i # is) idx s = scan n pfds rv is (idx + 1) u"
      using True by (simp add: u_def v_def Let_def)
    have inv: "cli_inv s \<longrightarrow> cli_inv u" using k killed_inv by blast
    have pu: "past_ends u = past_ends s @ (if idx \<ge> n then [idx] else [])"
      by (simp add: u_def v_def)
    have "(if idx \<ge> n then [idx] else []) @ [max n (idx + 1)..<idx + 1 + living is s] =
        [max n idx..<idx + living (i # is) s]"
      by (cases "n = Suc idx") (auto simp: l max_def upt_conv_Cons)
    with Cons.IH [of "idx + 1" u] Cons.prems sc lu inv pu show ?thesis by simp
  qed
qed

lemma killed_nfds: "killed i s t \<Longrightarrow> nfds t \<le> nfds s"
proof -
  assume k: "killed i s t"
  obtain us vs ws where "filter d_alive (drivers s) = us @ vs @ ws"
    "filter d_alive ((drivers s)[i := dead (drivers s ! i)]) = us @ ws"
    using filter_update_dead [of d_alive] by (metis dead_fields(1))
  with k show ?thesis by (auto simp: killed_def nfds_def)
qed

lemma nfds_emit [simp]: "nfds (emit a s) = nfds s"
  by (simp add: nfds_def)

lemma find_send_nfds:
  "nfds (cmd_send_task r pid sec s) \<le> nfds s" "nfds (cmd_get_status r pid s) \<le> nfds s"
  using killed_nfds [OF send_cmd_killed]
  by (auto simp: cmd_send_task_def cmd_get_status_def split: option.split)

lemma get_drivers_nfds: "nfds (cmd_get_drivers rs s) \<le> nfds s"
proof -
  have "nfds (get_drivers_from rs is s) \<le> nfds s" for "is"
    by (induction "is" arbitrary: s) (auto intro: order_trans killed_nfds [OF send_cmd_killed])
  then show ?thesis by (simp add: cmd_get_drivers_def)
qed

lemma do_command_nfds:
  "do_command c rs line s = Inr (q, t) \<Longrightarrow> fst (next_tok (cstr line)) \<noteq> Some ''create_driver'' \<Longrightarrow>
     nfds t \<le> nfds s"
  by (auto simp: do_command_def Let_def find_send_nfds get_drivers_nfds
      split: option.splits prod.splits if_splits)

lemma do_command_create:
  "fst (next_tok (cstr line)) = Some ''create_driver'' \<Longrightarrow>
     do_command c rs line s = (case cmd_create_driver c s of Inl e \<Rightarrow> Inl e | Inr t \<Rightarrow> Inr (False, t))"
  by (auto simp: do_command_def Let_def split: prod.splits)

lemma create_driver_nfds: "cmd_create_driver c s = Inr t \<Longrightarrow> nfds t = Suc (nfds s)"
  using create_driver_result [of c s t] drivers_push_result by (fastforce simp: nfds_def)

lemma do_command_past_ends:
  "do_command c rs line s = Inr (q, t) \<Longrightarrow> past_ends t = past_ends s"
proof -
  have "past_ends (get_drivers_from rs is s) = past_ends s" for "is" rs s
    by (induction "is" arbitrary: s) auto
  then have g: "past_ends (cmd_get_drivers rs s) = past_ends s" for rs s
    by (simp add: cmd_get_drivers_def)
  have f: "past_ends (cmd_send_task r pid sec s) = past_ends s" "past_ends (cmd_get_status r pid s) = past_ends s"
    for r pid sec s
    by (auto simp: cmd_send_task_def cmd_get_status_def split: option.split)
  have p: "past_ends u = past_ends s" if "drivers_push ok pid fd s = Inr u" for ok pid fd s u
    using that by (auto simp: drivers_push_def Let_def split: if_splits)
  have c: "past_ends u = past_ends s" if "cmd_create_driver c s = Inr u" for u
    using create_driver_result [OF that] p by fastforce
  assume "do_command c rs line s = Inr (q, t)"
  then show ?thesis
    by (auto simp: do_command_def Let_def g f dest: c split: option.splits prod.splits if_splits sum.splits)
qed

lemma scan_all:
  assumes "1 \<le> n"
  shows "past_ends (scan n pfds rv [0..<length (drivers s)] (Suc 0) s) = past_ends s @ [n..<nfds s]"
    and "cli_inv s \<Longrightarrow> cli_inv (scan n pfds rv [0..<length (drivers s)] (Suc 0) s)"
  using scan_result [of "[0..<length (drivers s)]" n pfds rv "Suc 0" s] assms
  by (auto simp: living_all nfds_def max_def)

text \<open>The round carries out \<open>create_driver\<close>.\<close>

definition creates :: "main_in \<Rightarrow> bool" where
  "creates m \<longleftrightarrow> mi_poll m = PollReady \<and> mi_stdin m \<and>
     (\<exists>line. mi_line m = Some line \<and> fst (next_tok (cstr line)) = Some ''create_driver'')"

text \<open>
  Property C19. A round of the main loop reads \<open>pfds\<close> past its end exactly when it has carried out
  \<open>create_driver\<close>: the array was sized before the command, and the loop after it visits the new
  driver too, at the index just behind the last entry. No other command, reply, hang-up or reaped
  child makes a round read out of bounds.
\<close>

theorem main_round_reads_past_end:
  assumes "main_round m s0 = Inr (q, t)"
  shows "past_ends t = past_ends s0 @
           (if creates m then [nfds (reap_children (mi_waitpid m) s0)] else [])"
proof -
  define s where "s = reap_children (mi_waitpid m) s0"
  define u where "u = emit (Printed ''> '') s"
  define n where "n = nfds s"
  have n: "1 \<le> n" "nfds u = n" by (simp_all add: n_def u_def nfds_def)
  have pu: "past_ends u = past_ends s0" by (simp add: u_def s_def)
  note sc = scan_all(1) [OF n(1), where pfds = "mi_revents m" and rv = "mi_recv m"]
  note unfold = main_round_def Let_def s_def [symmetric] n_def [symmetric] u_def [symmetric]
  show ?thesis
  proof (cases "mi_poll m = PollReady \<and> mi_stdin m \<and> mi_line m \<noteq> None")
    case False
    then show ?thesis
      using assms sc [of u] n pu unfolding unfold
      by (auto simp: creates_def split: poll_res.splits option.splits if_splits)
  next
    case True
    then obtain line where line: "mi_line m = Some line" by auto
    then obtain v where v: "do_command (mi_create m) (mi_send m) line u = Inr (q, v)"
      and t: "t = (if q then v else scan n (mi_revents m) (mi_recv m) [0..<length (drivers v)] 1 v)"
      using assms True unfolding unfold by (auto split: if_splits sum.splits prod.splits bool.splits)
    have pv: "past_ends v = past_ends s0" using do_command_past_ends [OF v] pu by simp
    show ?thesis
    proof (cases "creates m")
      case create: True
      then have c: "fst (next_tok (cstr line)) = Some ''create_driver''"
        using line by (simp add: creates_def)
      with v have "\<not> q" "nfds v = Suc n"
        using do_command_create [OF c] create_driver_nfds n by (auto split: sum.splits)
      then show ?thesis
        using t sc [of v] pv create by (simp add: n_def s_def)
    next
      case False
      then have "fst (next_tok (cstr line)) \<noteq> Some ''create_driver''"
        using True line by (auto simp: creates_def)
      then have "nfds v \<le> n" using do_command_nfds [OF v] n by simp
      then show ?thesis
        using t sc [of v] pv False by simp
    qed
  qed
qed

definition no_sockets :: create_in where
  "no_sockets = \<lparr>ci_socketpair = None, ci_fcntl0 = (0, 0), ci_fcntl1 = (0, 0), ci_fork = 0, ci_realloc = True\<rparr>"

text \<open>A round in which a line is typed and nothing else happens.\<close>

definition typed :: "string \<Rightarrow> create_in \<Rightarrow> main_in" where
  "typed line c = \<lparr>mi_waitpid = [], mi_calloc = True, mi_poll = PollReady, mi_stdin = True,
     mi_line = Some line, mi_create = c, mi_send = (\<lambda>_. SendDone), mi_revents = (\<lambda>_. (False, False)),
     mi_recv = (\<lambda>_. [])\<rparr>"

definition sockets :: "int \<Rightarrow> int \<Rightarrow> int \<Rightarrow> create_in" where
  "sockets a b pid = no_sockets\<lparr>ci_socketpair := Some (a, b), ci_fork := pid\<rparr>"

definition one_driver :: cli where
  "one_driver = \<lparr>drivers = [\<lparr>d_pid = 501, d_fd = 3, d_alive = True\<rparr>], drivers_cap = 8,
     cli_log = [Printed ''> '', Closed 4, Printed ''501'', PastEnd 1]\<rparr>"

lemma create_first: "main_round (typed (''create_driver'' @ [NL]) (sockets 3 4 501)) init_cli = Inr (False, one_driver)"
  by code_simp

theorem main_round_reads_past_end_witness:
  "main_round (typed (''create_driver'' @ [NL]) (sockets 3 4 501)) init_cli = Inr (False, one_driver) \<and>
   creates (typed (''create_driver'' @ [NL]) (sockets 3 4 501)) \<and> past_ends one_driver = [1]"
proof -
  have "creates (typed (''create_driver'' @ [NL]) (sockets 3 4 501))"
    by (simp add: creates_def typed_def) code_simp
  then show ?thesis
    using create_first main_round_reads_past_end [OF create_first]
    by (simp add: typed_def init_cli_def past_ends_def nfds_def)
qed

section \<open>Every reachable state\<close>

lemma main_round_inv:
  assumes inv: "cli_inv s0" and fresh: "fresh_sockets (mi_create m) (reap_children (mi_waitpid m) s0)"
    and res: "main_round m s0 = Inr (q, t)"
  shows "cli_inv t"
proof -
  define u where "u = emit (Printed ''> '') (reap_children (mi_waitpid m) s0)"
  define n where "n = nfds (reap_children (mi_waitpid m) s0)"
  have u: "cli_inv u" "fresh_sockets (mi_create m) u"
    using inv fresh by (simp_all add: u_def reap_children_inv fresh_sockets_def owned_def)
  have "1 \<le> n" by (simp add: n_def nfds_def)
  note sc = scan_all(2) [OF this]
  note dc = do_command_inv [OF u]
  show ?thesis
    using res u sc unfolding main_round_def Let_def u_def [symmetric] n_def [symmetric]
    by (auto split: poll_res.splits option.splits if_splits sum.splits prod.splits bool.splits dest: dc)
qed

text \<open>
  The states the process can be in at the start of a round, for system calls that hand out sockets
  it does not own.
\<close>

inductive cli_reachable :: "cli \<Rightarrow> bool" where
  start: "cli_reachable init_cli"
| round: "cli_reachable s \<Longrightarrow> fresh_sockets (mi_create m) (reap_children (mi_waitpid m) s) \<Longrightarrow>
     main_round m s = Inr (False, t) \<Longrightarrow> cli_reachable t"

lemma cli_reachable_inv: "cli_reachable s \<Longrightarrow> cli_inv s"
proof (induction rule: cli_reachable.induct)
  case start
  show ?case by (simp add: cli_inv_def init_cli_def capacity_ok_def owned_def)
next
  case (round s m t)
  then show ?case by (blast intro: main_round_inv)
qed

text \<open>
  Property C11. In every state the command line process can reach, the array holds no more drivers
  than its capacity, which is 0 or 8 doubled some times; a driver is alive exactly when it owns a
  descriptor (so a dead driver's descriptor is never sent to, polled or closed again), and no two
  drivers own the same one. The shutdown from such a state leaves no driver alive.
\<close>

theorem reachable_table_ok:
  assumes "cli_reachable s"
  shows "length (drivers s) \<le> drivers_cap s \<and> (drivers_cap s = 0 \<or> (\<exists>k. drivers_cap s = 8 * 2 ^ k)) \<and>
    (\<forall>d \<in> set (drivers s). d_alive d = (d_fd d \<ge> 0)) \<and> distinct (map d_fd (filter d_alive (drivers s))) \<and>
    (\<forall>d \<in> set (drivers (snd (shutdown_all ws s))). \<not> d_alive d)"
  using cli_reachable_inv [OF assms]
  by (auto simp: cli_inv_def capacity_ok_def owned_def shutdown_all_def)

theorem reachable_table_ok_witness:
  "cli_reachable one_driver \<and> drivers_cap one_driver = 8 \<and> length (drivers one_driver) \<le> 8"
proof -
  have "fresh_sockets (mi_create (typed (''create_driver'' @ [NL]) (sockets 3 4 501)))
      (reap_children (mi_waitpid (typed (''create_driver'' @ [NL]) (sockets 3 4 501))) init_cli)"
    by (simp add: fresh_sockets_def typed_def sockets_def no_sockets_def init_cli_def owned_def)
  then have r: "cli_reachable one_driver"
    by (rule cli_reachable.round [OF cli_reachable.start _ create_first])
  then show ?thesis
    using reachable_table_ok [OF r] by (simp add: one_driver_def)
qed

text \<open>
  The process ends only when \<open>waitpid\<close> has failed for another reason than a signal, that is when no
  child is left, and then no driver is alive and no descriptor is kept.
\<close>

lemma wait_all_iff: "wait_all ws \<longleftrightarrow> WaitFailed \<in> set ws"
  by (induction ws rule: wait_all.induct) auto

lemma cli_main_ends:
  "cli_main ms ws s = Inr (True, t) \<Longrightarrow>
     WaitFailed \<in> set ws \<and> (\<forall>d \<in> set (drivers t). \<not> d_alive d \<and> d_fd d = - 1)"
  by (induction ms ws s rule: cli_main.induct)
    (auto simp: shutdown_all_def wait_all_iff split: sum.splits prod.splits bool.splits)

section \<open>Commands\<close>

lemma next_tok_word:
  assumes "w \<noteq> []" "\<forall>c \<in> set w. \<not> isspace c" "isspace c"
  shows "next_tok (w @ c # rest) = (Some w, rest)"
proof -
  have "dropWhile isspace (w @ c # rest) = w @ c # rest"
    using assms by (cases w) auto
  with assms show ?thesis
    by (simp add: next_tok_def takeWhile_append dropWhile_append)
qed

lemma next_tok_show_int: "isspace c \<Longrightarrow> next_tok (show_int i @ c # rest) = (Some (show_int i), rest)"
  by (rule next_tok_word) (simp_all add: show_int_no_space)

text \<open>The line a user types for \<open>send_task\<close>.\<close>

definition send_task_line :: "int \<Rightarrow> int \<Rightarrow> string" where
  "send_task_line pid t = ''send_task '' @ show_int pid @ '' '' @ show_int t @ [NL]"

lemma do_command_send_task:
  assumes "0 < pid" "pid \<le> INT_MAX" "0 < t" "t \<le> INT_MAX"
  shows "do_command c rs (send_task_line pid t) s = Inr (False, cmd_send_task (rs 0) pid t s)"
proof -
  have "NUL \<notin> set (''send_task '' @ show_int pid @ '' '' @ show_int t)"
    by (simp add: NUL_def NUL_notin_show_int [unfolded NUL_def])
  from cstr_line [OF this] have c: "cstr (send_task_line pid t) = send_task_line pid t"
    by (simp add: send_task_line_def)
  have n: "next_tok (send_task_line pid t) = (Some ''send_task'', show_int pid @ CHR '' '' # show_int t @ [NL])"
    using next_tok_word [of "''send_task''" "CHR '' ''" "show_int pid @ CHR '' '' # show_int t @ [NL]"]
    by (simp add: send_task_line_def isspace_def)
  have i: "INT_MIN \<le> pid" "INT_MIN \<le> t" using assms by (simp_all add: INT_MIN_def)
  show ?thesis
    using assms i next_tok_show_int [of NL t "[]"]
    by (simp add: do_command_def c n next_tok_show_int strtol_val_show_int to_int_id Let_def)
qed

text \<open>What a driver does with the message \<open>cmd_send_task\<close> composes.\<close>

lemma driver_takes_task:
  assumes "0 < t" "t \<le> INT_MAX"
  shows "driver_message busy r (''TASK '' @ show_int t) =
     (if t > 86400 then ([Reply ''Error BadTimer''], Continue busy)
      else if busy then ([busy_reply r], Continue busy)
      else if in_settime r then ([Arm t, Reply ''OK''], Continue True) else ([Arm t], Exit 1))"
proof -
  have c: "cstr (''TASK '' @ show_int t) = ''TASK '' @ show_int t"
    by (rule cstr_id) (simp add: NUL_def NUL_notin_show_int [unfolded NUL_def])
  have lit: "cstr ''QUIT'' = ''QUIT''" "cstr ''STATUS'' = ''STATUS''" "cstr ''TASK'' = ''TASK''"
    by (simp_all add: cstr_def NUL_def)
  have d: "dropWhile isspace (CHR '' '' # show_int t) = show_int t"
    using show_int_no_space [of t] by (cases "show_int t") auto
  have "INT_MIN \<le> t" using assms by (simp add: INT_MIN_def)
  then have v: "strtol (show_int t) = Some (t, [])"
    using strtol_show_int [of t "[]"] assms
    by (simp add: INT_MIN_def INT_MAX_def LONG_MIN_def LONG_MAX_def)
  have "cstr (''TASK '' @ show_int t) = CHR ''T'' # CHR ''A'' # CHR ''S'' # CHR ''K'' # CHR '' '' # show_int t"
    using c by simp
  then show ?thesis
    using assms \<open>INT_MIN \<le> t\<close> c [simplified]
    by (simp add: driver_message_def strncmp_eq_def lit d v strtol_val_def to_int_id timer_set_secs_def
        cstr_id [OF NUL_notin_cstr] numeral_eq_Suc del: Suc_eq_numeral)
qed

text \<open>
  Property C24. The two processes agree on the protocol: the line \<open>send_task <pid> <seconds>\<close>, typed
  for a driver that is alive, with 1 to 86400 seconds, makes the command line send a message
  that fits the driver's buffer, and on which an idle driver arms its timer for exactly that
  many seconds and replies \<open>OK\<close>, while a busy one only reports the time left.
\<close>

theorem send_task_reaches_driver:
  assumes "find_driver pid (drivers s) = Some i" and "d_alive (drivers s ! i)" and "rs 0 = SendDone"
    and "0 < pid" "pid \<le> INT_MAX" and "1 \<le> t" "t \<le> 86400" and "in_settime r"
  shows "\<exists>msg. do_command c rs (send_task_line pid t) s =
             Inr (False, emit (Sent (d_fd (drivers s ! i)) msg) s) \<and> length msg \<le> MSGSZ - 1 \<and>
           driver_message False r msg = ([Arm t, Reply ''OK''], Continue True) \<and>
           driver_message True r msg = ([busy_reply r], Continue True)"
proof -
  have t: "0 < t" "t \<le> INT_MAX" using assms by (simp_all add: INT_MAX_def)
  have len: "length (''TASK '' @ show_int t) \<le> 15" using show_int_length t by simp
  then have "snprintf_buf MSGSZ (''TASK '' @ show_int t) = ''TASK '' @ show_int t"
    by (simp add: snprintf_buf_def MSGSZ_def)
  then have "cmd_send_task (rs 0) pid t s = emit (Sent (d_fd (drivers s ! i)) (''TASK '' @ show_int t)) s"
    using assms by (simp add: cmd_send_task_def send_cmd_def)
  then have "do_command c rs (send_task_line pid t) s =
      Inr (False, emit (Sent (d_fd (drivers s ! i)) (''TASK '' @ show_int t)) s)"
    using do_command_send_task [OF assms(4,5) t] by simp
  moreover have "length (''TASK '' @ show_int t) \<le> MSGSZ - 1" using len by (simp add: MSGSZ_def)
  moreover have "driver_message b r (''TASK '' @ show_int t) =
      (if b then ([busy_reply r], Continue b) else ([Arm t, Reply ''OK''], Continue True))" for b
    using driver_takes_task [OF t, of b r] assms by simp
  ultimately show ?thesis
    by (intro exI [of _ "''TASK '' @ show_int t"]) (simp only: if_True if_False simp_thms)
qed

theorem send_task_reaches_driver_witness:
  "send_task_line 501 30 = ''send_task 501 30'' @ [NL] \<and>
   (\<exists>msg. do_command no_sockets (\<lambda>_. SendDone) (send_task_line 501 30) one_driver =
        Inr (False, emit (Sent 3 msg) one_driver) \<and>
      driver_message False (quiet_round []) msg = ([Arm 30, Reply ''OK''], Continue True))"
proof -
  have l: "send_task_line 501 30 = ''send_task 501 30'' @ [NL]" by code_simp
  have d: "find_driver 501 (drivers one_driver) = Some 0" "d_alive (drivers one_driver ! 0)"
    "d_fd (drivers one_driver ! 0) = 3"
    by (simp_all add: one_driver_def)
  have "in_settime (quiet_round [])" by (simp add: quiet_round_def)
  then obtain msg where
    "do_command no_sockets (\<lambda>_. SendDone) (send_task_line 501 30) one_driver =
       Inr (False, emit (Sent (d_fd (drivers one_driver ! 0)) msg) one_driver)"
    "driver_message False (quiet_round []) msg = ([Arm 30, Reply ''OK''], Continue True)"
    using send_task_reaches_driver [OF d(1,2), of "\<lambda>_. SendDone" 30 "quiet_round []" no_sockets]
    by (auto simp: INT_MAX_def)
  with l d(3) show ?thesis by auto
qed

text \<open>
  Entries of ended drivers stay in the array and \<open>find_driver\<close> stops at the first entry
  with the pid. When the system gives a new driver the pid of one that has ended, the new driver,
  though alive, is out of reach: \<open>get_status\<close> and \<open>send_task\<close> report that there is no such driver and
  send nothing.
\<close>

lemma reused_pid_unreachable:
  assumes "i < j" and "j < length (drivers s)" and "d_pid (drivers s ! i) = pid"
    and "d_pid (drivers s ! j) = pid" and "d_alive (drivers s ! j)"
    and "\<forall>k < j. d_pid (drivers s ! k) = pid \<longrightarrow> \<not> d_alive (drivers s ! k)"
  shows "cmd_get_status r pid s = emit (Printed ''Error NoSuchDriver'') s \<and>
         cmd_send_task r pid sec s = emit (Printed ''Error NoSuchDriver'') s"
proof -
  have f: "\<exists>k \<le> i. find_driver pid ds = Some k \<and> d_pid (ds ! k) = pid"
    if "i < length ds" "d_pid (ds ! i) = pid" for i ds
    using that
  proof (induction ds arbitrary: i)
    case (Cons d ds)
    show ?case
    proof (cases "d_pid d = pid")
      case False
      with Cons.prems obtain i' where i: "i = Suc i'" "i' < length ds" "d_pid (ds ! i') = pid"
        by (cases i) auto
      with Cons.IH [of i'] obtain k where "k \<le> i'" "find_driver pid ds = Some k" "d_pid (ds ! k) = pid"
        by auto
      with False i show ?thesis by auto
    qed simp
  qed simp
  from f [of i "drivers s"] assms obtain k where "k \<le> i" "find_driver pid (drivers s) = Some k"
    "d_pid (drivers s ! k) = pid" by auto
  with assms show ?thesis by (simp add: cmd_get_status_def cmd_send_task_def)
qed

definition two_drivers :: cli where
  "two_drivers = \<lparr>drivers = [\<lparr>d_pid = 501, d_fd = - 1, d_alive = False\<rparr>, \<lparr>d_pid = 501, d_fd = 3, d_alive = True\<rparr>],
     drivers_cap = 8, cli_log = cli_log one_driver @ [Closed 3, Printed ''> '', Closed 4, Printed ''501'', PastEnd 1]\<rparr>"

lemma create_again:
  "main_round ((typed (''create_driver'' @ [NL]) (sockets 3 4 501))\<lparr>mi_waitpid := [501, 0]\<rparr>) one_driver =
     Inr (False, two_drivers)"
  by code_simp

lemma reused_pid_unreachable_witness:
  "cli_reachable two_drivers \<and> d_pid (drivers two_drivers ! 1) = 501 \<and> d_alive (drivers two_drivers ! 1) \<and>
   cmd_get_status SendDone 501 two_drivers = emit (Printed ''Error NoSuchDriver'') two_drivers"
proof -
  have "cli_reachable one_driver"
    by (rule cli_reachable.round [OF cli_reachable.start _ create_first])
      (simp add: fresh_sockets_def typed_def sockets_def no_sockets_def init_cli_def owned_def)
  then have "cli_reachable two_drivers"
    by (rule cli_reachable.round [OF _ _ create_again])
      (simp add: fresh_sockets_def typed_def sockets_def no_sockets_def one_driver_def owned_def
        reap_one_def bury_def numeral_eq_Suc)
  then show ?thesis
    using reused_pid_unreachable [of 0 1 two_drivers 501 SendDone 1]
    by (simp add: two_drivers_def)
qed

end
