(* ===== verification/Address_Book.thy ===== *)
theory Address_Book
  imports C_Prelude
begin

text \<open>
  What the two phone books have in common, the array of \<open>functions/functions.c\<close> and the linked
  list of \<open>dynmem/dynmem.c\<close>: the entry, its input, the output, and the menu loop. The two
  locales state what the menu relies on: \<open>safe_book\<close> that the operations keep the representation
  whatever is typed, \<open>phone_book\<close> that they are the operations of a list of entries. The programs
  interpret both.
\<close>

section \<open>Entries, input and output\<close>

definition MAX_LEN :: nat where "MAX_LEN = 10"

record abonent =
  name :: string
  second_name :: string
  tel :: string

text \<open>What the programs print: a constructor per message, a \<open>Row\<close> for a line \<open>"%d: %s %s %s"\<close>.\<close>

datatype field = Name | Second_name | Tel

datatype book_out =
    Menu | Ask field | AskNumber | Row nat abonent | Heading | Count nat | EmptyBook
  | NoRoom | NoMemory | Added | Removed | BadNumber | Found nat | NotFound | Bye | BadChoice

text \<open>
  The faults: a \<open>scanf("%s")\<close> that writes past its buffer of \<open>MAX_LEN\<close> bytes, an access through a
  pointer that is no live allocation, and a walk along a list that never ends.
\<close>

datatype book_fault = Overrun | BadPointer | Endless

type_synonym 's result = "book_fault + book_out list \<times> string \<times> 's"

text \<open>
  \<open>scanf("%s", buf)\<close> for a buffer of \<open>MAX_LEN\<close> bytes that holds \<open>old\<close>: at the end of the input it
  leaves the buffer as it is.
\<close>

definition scan_field :: "string \<Rightarrow> string \<Rightarrow> book_fault + string \<times> string" where
  "scan_field old stdin =
     (case scanf_s stdin of
        None \<Rightarrow> Inr (old, [])
      | Some (w, rest) \<Rightarrow> if length w < MAX_LEN then Inr (cstr w, rest) else Inl Overrun)"

text \<open>The three fields of an entry that holds \<open>old\<close>.\<close>

definition scan_abonent :: "abonent \<Rightarrow> string \<Rightarrow> book_fault + abonent \<times> string" where
  "scan_abonent old stdin =
     (case scan_field (name old) stdin of Inl f \<Rightarrow> Inl f | Inr (n, r1) \<Rightarrow>
      case scan_field (second_name old) r1 of Inl f \<Rightarrow> Inl f | Inr (sn, r2) \<Rightarrow>
      case scan_field (tel old) r2 of Inl f \<Rightarrow> Inl f | Inr (t, r3) \<Rightarrow>
        Inr (\<lparr>name = n, second_name = sn, tel = t\<rparr>, r3))"

definition asks :: "book_out list" where "asks = [Ask Name, Ask Second_name, Ask Tel]"

section \<open>The menu loop\<close>

text \<open>
  The loop of both \<open>main\<close> functions over their \<open>switch\<close>, the handler \<open>h\<close>. The list gives each round
  what its environment decides (the contents of uninitialised variables, the answers of \<open>malloc\<close>);
  the flag of the result tells whether the loop has ended with choice 5 within these rounds.
\<close>

fun menu_loop :: "(int \<Rightarrow> 'e \<Rightarrow> string \<Rightarrow> 's \<Rightarrow> 's result) \<Rightarrow> 'e list \<Rightarrow> int \<Rightarrow> string \<Rightarrow> 's
    \<Rightarrow> book_fault + bool \<times> book_out list \<times> string \<times> 's" where
  "menu_loop h [] choice stdin s = Inr (False, [], stdin, s)"
| "menu_loop h (e # es) choice stdin s =
     (let (choice', r) = scan_number choice stdin
      in case h choice' e r s of
           Inl f \<Rightarrow> Inl f
         | Inr (out, r', s') \<Rightarrow>
             if choice' = 5 then Inr (True, Menu # out, r', s')
             else (case menu_loop h es choice' r' s' of
                     Inl f \<Rightarrow> Inl f
                   | Inr (b, out', r'', s'') \<Rightarrow> Inr (b, Menu # out @ out', r'', s'')))"

section \<open>The specification: a list of entries\<close>

definition remove_nth :: "nat \<Rightarrow> 'a list \<Rightarrow> 'a list" where
  "remove_nth n xs = take n xs @ drop (Suc n) xs"

definition all_rows :: "abonent list \<Rightarrow> book_out list" where
  "all_rows xs = map (\<lambda>(i, x). Row i x) (enumerate 0 xs)"

definition matches :: "string \<Rightarrow> abonent list \<Rightarrow> book_out list" where
  "matches nm xs = map (\<lambda>(i, x). Row i x) (filter (\<lambda>(i, x). name x = nm) (enumerate 0 xs))"

fun is_row :: "book_out \<Rightarrow> bool" where
  "is_row (Row _ _) = True"
| "is_row _ = False"

definition rows :: "book_out list \<Rightarrow> book_out list" where
  "rows out = filter is_row out"

datatype cmd = Add abonent | Remove nat | Search string | Print

fun spec_step :: "cmd \<Rightarrow> abonent list \<Rightarrow> abonent list" where
  "spec_step (Add a) xs = xs @ [a]"
| "spec_step (Remove n) xs = remove_nth n xs"
| "spec_step _ xs = xs"

fun spec_rows :: "cmd \<Rightarrow> abonent list \<Rightarrow> book_out list" where
  "spec_rows (Search nm) xs = matches nm xs"
| "spec_rows Print xs = all_rows xs"
| "spec_rows _ xs = []"

fun script_rows :: "cmd list \<Rightarrow> abonent list \<Rightarrow> book_out list" where
  "script_rows [] xs = []"
| "script_rows (c # cs) xs = spec_rows c xs @ script_rows cs (spec_step c xs)"

text \<open>What one types: a word per field, each on its own line.\<close>

definition word :: "string \<Rightarrow> bool" where
  "word w = (w \<noteq> [] \<and> length w < MAX_LEN \<and> (\<forall>c \<in> set w. \<not> isspace c \<and> c \<noteq> NUL))"

definition typable :: "abonent \<Rightarrow> bool" where
  "typable a = (word (name a) \<and> word (second_name a) \<and> word (tel a))"

definition type_abonent :: "abonent \<Rightarrow> string" where
  "type_abonent a = NL # name a @ NL # second_name a @ NL # tel a"

fun choice_of :: "cmd \<Rightarrow> int" where
  "choice_of (Add _) = 1"
| "choice_of (Remove _) = 2"
| "choice_of (Search _) = 3"
| "choice_of Print = 4"

fun type_args :: "cmd \<Rightarrow> string" where
  "type_args (Add a) = type_abonent a"
| "type_args (Remove n) = NL # show_int (int n)"
| "type_args (Search nm) = NL # nm"
| "type_args Print = []"

fun type_script :: "cmd list \<Rightarrow> string" where
  "type_script [] = NL # show_int 5"
| "type_script (c # cs) = NL # show_int (choice_of c) @ type_args c @ type_script cs"

text \<open>Commands that make sense on a book: a number in range, a search in a book with entries.\<close>

fun fits :: "(abonent list \<Rightarrow> bool) \<Rightarrow> cmd \<Rightarrow> abonent list \<Rightarrow> bool" where
  "fits room (Add a) xs = (typable a \<and> room xs)"
| "fits room (Remove n) xs = (n < length xs \<and> int n \<le> INT_MAX)"
| "fits room (Search nm) xs = (xs \<noteq> [] \<and> word nm)"
| "fits room Print xs = True"

fun script_fits :: "('e \<Rightarrow> abonent list \<Rightarrow> bool) \<Rightarrow> 'e list \<Rightarrow> cmd list \<Rightarrow> abonent list \<Rightarrow> bool" where
  "script_fits room es [] xs = (length es = 1)"
| "script_fits room es (c # cs) xs =
     (es \<noteq> [] \<and> fits (room (hd es)) c xs \<and> script_fits room (tl es) cs (spec_step c xs))"

definition after_script :: "cmd list \<Rightarrow> abonent list \<Rightarrow> abonent list" where
  "after_script cs xs = fold spec_step cs xs"

section \<open>Lemmas on input and output\<close>

lemma rows_simps [simp]:
  "rows [] = []" "rows (Row i a # out) = Row i a # rows out" "rows (out @ out') = rows out @ rows out'"
  "\<not> is_row b \<Longrightarrow> rows (b # out) = rows out"
  by (simp_all add: rows_def)

lemma rows_asks [simp]: "rows asks = []"
  by (simp add: asks_def)

lemma rows_map_Row [simp]: "rows (map (\<lambda>(i, x). Row i x) l) = map (\<lambda>(i, x). Row i x) l"
  by (induction l) auto

lemma rows_all_rows [simp]: "rows (all_rows xs) = all_rows xs"
  by (simp add: all_rows_def)

lemma rows_matches [simp]: "rows (matches nm xs) = matches nm xs"
  by (simp add: matches_def)

lemma scan_field_word:
  assumes "word w"
  shows "scan_field old (NL # w @ NL # rest) = Inr (w, NL # rest)"
proof -
  have "cstr w = w" using assms by (intro cstr_id) (auto simp: word_def)
  moreover have "scanf_s (w @ NL # rest) = Some (w, NL # rest)"
    using assms by (intro scanf_s_word) (auto simp: word_def)
  ultimately show ?thesis
    using assms by (simp add: scan_field_def scanf_s_skip_space word_def)
qed

lemma scan_abonent_typed:
  assumes "typable a"
  shows "scan_abonent old (type_abonent a @ NL # rest) = Inr (a, NL # rest)"
  using assms by (simp add: scan_abonent_def type_abonent_def typable_def scan_field_word)

lemma scan_field_fault: "scan_field old stdin = Inl f \<Longrightarrow> f = Overrun"
  by (auto simp: scan_field_def split: option.splits if_splits)

lemma scan_abonent_fault: "scan_abonent old stdin = Inl f \<Longrightarrow> f = Overrun"
  by (fastforce simp: scan_abonent_def split: sum.splits prod.splits dest: scan_field_fault)

lemma scan_field_end [simp]: "scan_field old [] = Inr (old, [])"
  by (simp add: scan_field_def)

lemma scan_abonent_end [simp]: "scan_abonent old [] = Inr (old, [])"
  by (simp add: scan_abonent_def)

text \<open>Every typed script starts a new line.\<close>

lemma type_script_NL: "\<exists>r. type_script cs = NL # r"
  by (cases cs) auto

lemma type_args_NL: "\<exists>r. type_args c @ type_script cs = NL # r"
  using type_script_NL [of cs] by (cases c) (auto simp: type_abonent_def)

lemma choice_of_range: "INT_MIN \<le> choice_of c" "choice_of c \<le> INT_MAX" "choice_of c \<noteq> 5"
  by (cases c; simp add: INT_MIN_def INT_MAX_def)+

text \<open>A script the two programs are tried on.\<close>

definition ann :: abonent where
  "ann = \<lparr>name = ''Ann'', second_name = ''Lee'', tel = ''555''\<rparr>"

definition bob :: abonent where
  "bob = \<lparr>name = ''Bob'', second_name = ''Ray'', tel = ''777''\<rparr>"

definition book_script :: "cmd list" where
  "book_script = [Add ann, Add bob, Remove 0, Search ''Bob'']"

lemma book_script_words [simp]: "typable ann" "typable bob" "word ''Bob''"
  by (simp_all add: typable_def word_def ann_def bob_def MAX_LEN_def isspace_def NUL_def)

lemma book_script_rows [simp]:
  "script_rows book_script [] = [Row 0 bob]" "after_script book_script [] = [bob]"
  by (simp_all add: book_script_def remove_nth_def matches_def after_script_def bob_def)

section \<open>The contracts of a book\<close>

text \<open>
  \<open>safe_book\<close>: \<open>holds s xs\<close> says that the state \<open>s\<close> represents the entries \<open>xs\<close>. Whatever is typed,
  a handler keeps that some list is represented, or writes past a buffer of its own.
\<close>

locale safe_book =
  fixes h :: "int \<Rightarrow> 'e \<Rightarrow> string \<Rightarrow> 's \<Rightarrow> 's result"
    and holds :: "'s \<Rightarrow> abonent list \<Rightarrow> bool"
    and good :: "'e \<Rightarrow> bool"
  assumes keeps: "holds s xs \<Longrightarrow> good e \<Longrightarrow> h c e stdin s = Inr (out, rest, s') \<Longrightarrow> \<exists>xs'. holds s' xs'"
    and faults: "holds s xs \<Longrightarrow> good e \<Longrightarrow> h c e stdin s = Inl f \<Longrightarrow> f = Overrun"
begin

lemma loop_keeps:
  assumes "holds s xs" and "\<forall>e \<in> set es. good e"
  shows "menu_loop h es c stdin s = Inl Overrun \<or>
         (\<exists>b out rest s' xs'. menu_loop h es c stdin s = Inr (b, out, rest, s') \<and> holds s' xs')"
  using assms
proof (induction es arbitrary: c stdin s xs)
  case (Cons e es)
  obtain c' r where sn: "scan_number c stdin = (c', r)" by fastforce
  show ?case
  proof (cases "h c' e r s")
    case (Inl f)
    with Cons.prems faults sn show ?thesis by auto
  next
    case (Inr t)
    then obtain out r' s' where h: "h c' e r s = Inr (out, r', s')" by (cases t) auto
    with Cons.prems keeps obtain xs' where "holds s' xs'" by fastforce
    with Cons.IH [of s' xs' c' r'] Cons.prems sn h show ?thesis by auto
  qed
qed auto

end

text \<open>
  \<open>phone_book\<close>: on what one types for a command that fits, the handler does what the command does
  to the list and prints its rows; choice 5 leaves a \<open>final\<close> state.
\<close>

locale phone_book = safe_book h holds good
  for h :: "int \<Rightarrow> 'e \<Rightarrow> string \<Rightarrow> 's \<Rightarrow> 's result"
    and holds :: "'s \<Rightarrow> abonent list \<Rightarrow> bool"
    and good :: "'e \<Rightarrow> bool" +
  fixes room :: "'e \<Rightarrow> abonent list \<Rightarrow> bool"
    and final :: "'s \<Rightarrow> abonent list \<Rightarrow> bool"
  assumes does: "holds s xs \<Longrightarrow> good e \<Longrightarrow> fits (room e) c xs \<Longrightarrow>
      \<exists>out s'. h (choice_of c) e (type_args c @ NL # rest) s = Inr (out, NL # rest, s') \<and>
        rows out = spec_rows c xs \<and> holds s' (spec_step c xs)"
    and ends: "holds s xs \<Longrightarrow> good e \<Longrightarrow>
      \<exists>out s'. h 5 e rest s = Inr (out, rest, s') \<and> rows out = [] \<and> final s' xs"
begin

lemma loop_runs_script:
  assumes "holds s xs" and "\<forall>e \<in> set es. good e" and "script_fits room es cs xs"
  shows "\<exists>out s'. menu_loop h es c (type_script cs @ NL # rest) s = Inr (True, out, NL # rest, s') \<and>
           rows out = script_rows cs xs \<and> final s' (after_script cs xs)"
  using assms
proof (induction cs arbitrary: es c s xs)
  case Nil
  then obtain e where es: "es = [e]" by (cases es) auto
  have "scan_number c (NL # show_int 5 @ NL # rest) = (5, NL # rest)"
    by (rule scan_number_typed) (simp_all add: INT_MIN_def INT_MAX_def)
  with ends [of s xs e "NL # rest"] Nil es show ?case
    by (auto simp: after_script_def)
next
  case (Cons d cs)
  then obtain e es' where es: "es = e # es'" by (cases es) auto
  obtain r where r: "type_script cs @ NL # rest = NL # r"
    using type_script_NL [of cs] by auto
  then obtain q where q: "type_args d @ NL # r = NL # q"
    by (cases d) (auto simp: type_abonent_def)
  have sn: "scan_number c (NL # show_int (choice_of d) @ NL # q) = (choice_of d, NL # q)"
    using choice_of_range by (intro scan_number_typed)
  from does [of s xs e d r] Cons.prems es obtain out s' where
    h: "h (choice_of d) e (NL # q) s = Inr (out, NL # r, s')" "rows out = spec_rows d xs"
       "holds s' (spec_step d xs)" by (auto simp: q)
  from Cons.IH [of s' "spec_step d xs" es' "choice_of d"] Cons.prems es h(3) obtain out' s'' where
    "menu_loop h es' (choice_of d) (NL # r) s' = Inr (True, out', NL # rest, s'')"
    "rows out' = script_rows cs (spec_step d xs)" "final s'' (after_script cs (spec_step d xs))"
    by (auto simp: r)
  with sn h choice_of_range(3) [of d] es q r show ?case
    by (simp add: after_script_def)
qed

end

text \<open>
  At the end of the input the menu loop keeps its last choice. A handler that then succeeds
  again and again, without reading more, is carried out for ever.
\<close>

lemma menu_loop_endless:
  assumes "c \<noteq> 5" and "P s" and "\<And>e s. P s \<Longrightarrow> \<exists>out s'. h c e [] s = Inr (out, [], s') \<and> P s'"
  shows "\<exists>out s'. menu_loop h es c [] s = Inr (False, out, [], s') \<and> P s'"
  using assms(2)
proof (induction es arbitrary: s)
  case (Cons e es)
  from assms(3) [OF Cons.prems] obtain out s' where h: "h c e [] s = Inr (out, [], s')" "P s'" by blast
  from Cons.IH [OF h(2)] h(1) assms(1) show ?case by auto
qed auto

end
