(* ===== verification/Book_Array.thy ===== *)
theory Book_Array
  imports Address_Book
begin

text \<open>
  The phone book of \<open>functions/functions.c\<close>: an array of \<open>MAX_ABONENTS\<close> entries of which the first
  \<open>abonent_count\<close> are in use. The environment of a round is the text that the uninitialised local
  buffer of \<open>search_abonent\<close> holds.
\<close>

section \<open>State and operations\<close>

definition MAX_ABONENTS :: nat where "MAX_ABONENTS = 100"

record array_book =
  abonent_book :: "abonent list"
  abonent_count :: nat

definition init_book :: array_book where
  "init_book = \<lparr>abonent_book = replicate MAX_ABONENTS \<lparr>name = [], second_name = [], tel = []\<rparr>,
     abonent_count = 0\<rparr>"

definition add_abonent :: "string \<Rightarrow> array_book \<Rightarrow> array_book result" where
  "add_abonent stdin s =
     (if abonent_count s \<ge> MAX_ABONENTS then Inr ([NoRoom], stdin, s)
      else case scan_abonent (abonent_book s ! abonent_count s) stdin of
             Inl f \<Rightarrow> Inl f
           | Inr (a, rest) \<Rightarrow>
               Inr (asks, rest, s\<lparr>abonent_book := (abonent_book s)[abonent_count s := a],
                                  abonent_count := abonent_count s + 1\<rparr>))"

text \<open>The loop that closes the gap: \<open>abonent_book[i] = abonent_book[i + 1]\<close> for \<open>i < stop\<close>.\<close>

function shift_down :: "nat \<Rightarrow> nat \<Rightarrow> 'a list \<Rightarrow> 'a list" where
  "shift_down i stop b = (if i < stop then shift_down (Suc i) stop (b[i := b ! Suc i]) else b)"
  by auto
termination by (relation "measure (\<lambda>(i, stop, b). stop - i)") auto

declare shift_down.simps [simp del]

definition remove_abonent :: "string \<Rightarrow> array_book \<Rightarrow> array_book result" where
  "remove_abonent stdin s =
     (let (number, rest) = scan_number 0 stdin
      in if number < 0 \<or> number \<ge> int (abonent_count s) then Inr ([AskNumber, BadNumber], rest, s)
         else Inr ([AskNumber, Removed], rest,
                   s\<lparr>abonent_book := shift_down (nat number) (abonent_count s - 1) (abonent_book s),
                     abonent_count := abonent_count s - 1\<rparr>))"

text \<open>The loop over \<open>k\<close> entries from index \<open>i\<close> on, with the lines printed and the counter.\<close>

fun search_loop :: "string \<Rightarrow> nat \<Rightarrow> nat \<Rightarrow> abonent list \<Rightarrow> book_out list \<times> nat" where
  "search_loop nm i 0 b = ([], 0)"
| "search_loop nm i (Suc k) b =
     (let (out, counter) = search_loop nm (Suc i) k b
      in if name (b ! i) = nm then (Row i (b ! i) # out, counter + 1) else (out, counter))"

definition search_abonent :: "string \<Rightarrow> string \<Rightarrow> array_book \<Rightarrow> array_book result" where
  "search_abonent junk stdin s =
     (case scan_field junk stdin of
        Inl f \<Rightarrow> Inl f
      | Inr (nm, rest) \<Rightarrow>
          (let (out, counter) = search_loop nm 0 (abonent_count s) (abonent_book s)
           in Inr (Ask Name # out @ [if counter \<noteq> 0 then Found counter else NotFound], rest, s)))"

fun print_loop :: "nat \<Rightarrow> nat \<Rightarrow> abonent list \<Rightarrow> book_out list" where
  "print_loop i 0 b = []"
| "print_loop i (Suc k) b = Row i (b ! i) # print_loop (Suc i) k b"

definition print_book :: "array_book \<Rightarrow> book_out list" where
  "print_book s =
     (if abonent_count s = 0 then [EmptyBook]
      else Count (abonent_count s) # print_loop 0 (abonent_count s) (abonent_book s))"

definition handle_choice :: "int \<Rightarrow> string \<Rightarrow> string \<Rightarrow> array_book \<Rightarrow> array_book result" where
  "handle_choice choice junk stdin s =
     (if choice = 1 then add_abonent stdin s
      else if choice = 2 then remove_abonent stdin s
      else if choice = 3 then search_abonent junk stdin s
      else if choice = 4 then Inr (print_book s, stdin, s)
      else if choice = 5 then Inr ([Bye], stdin, s)
      else Inr ([BadChoice], stdin, s))"

definition array_main :: "string list \<Rightarrow> string
    \<Rightarrow> book_fault + bool \<times> book_out list \<times> string \<times> array_book" where
  "array_main junks stdin = menu_loop handle_choice junks 0 stdin init_book"

section \<open>The loops\<close>

lemma shift_down_eq:
  "i \<le> stop \<Longrightarrow> stop < length b \<Longrightarrow>
     shift_down i stop b = take i b @ take (stop - i) (drop (Suc i) b) @ drop stop b"
proof (induction i stop b rule: shift_down.induct)
  case (1 i stop b)
  show ?case
  proof (cases "i < stop")
    case True
    with 1 have "shift_down i stop b =
        take (Suc i) (b[i := b ! Suc i]) @ take (stop - Suc i) (drop (Suc (Suc i)) b) @ drop stop b"
      by (subst shift_down.simps) simp
    moreover have "take (Suc i) (b[i := b ! Suc i]) = take i b @ [b ! Suc i]"
      using True 1 by (simp add: take_Suc_conv_app_nth)
    moreover have "take (stop - i) (drop (Suc i) b) = b ! Suc i # take (stop - Suc i) (drop (Suc (Suc i)) b)"
      using True 1 by (simp add: Cons_nth_drop_Suc [symmetric] Suc_diff_Suc [symmetric])
    ultimately show ?thesis by simp
  next
    case False
    with 1 show ?thesis by (subst shift_down.simps) (simp add: id_take_nth_drop)
  qed
qed

lemma length_shift_down [simp]: "length (shift_down i stop b) = length b"
proof (induction i stop b rule: shift_down.induct)
  case (1 i stop b)
  then show ?case by (subst shift_down.simps) auto
qed

lemma shift_down_removes:
  assumes "i < n" "n \<le> length b"
  shows "take (n - 1) (shift_down i (n - 1) b) = remove_nth i (take n b)"
proof -
  have "shift_down i (n - 1) b = (take i b @ take (n - 1 - i) (drop (Suc i) b)) @ drop (n - 1) b"
    using assms by (simp add: shift_down_eq)
  moreover have "length (take i b @ take (n - 1 - i) (drop (Suc i) b)) = n - 1"
    using assms by simp
  moreover have "take i b @ take (n - 1 - i) (drop (Suc i) b) = remove_nth i (take n b)"
    using assms by (simp add: remove_nth_def drop_take min_def)
  ultimately show ?thesis by (metis append_eq_conv_conj)
qed

lemma search_loop_matches:
  "i + k \<le> length b \<Longrightarrow>
     search_loop nm i k b =
       (map (\<lambda>(i, x). Row i x) (filter (\<lambda>(i, x). name x = nm) (enumerate i (take k (drop i b)))),
        length (filter (\<lambda>(i, x). name x = nm) (enumerate i (take k (drop i b)))))"
  by (induction nm i k b rule: search_loop.induct) (auto simp: Cons_nth_drop_Suc [symmetric])

lemma print_loop_rows:
  "i + k \<le> length b \<Longrightarrow>
     print_loop i k b = map (\<lambda>(i, x). Row i x) (enumerate i (take k (drop i b)))"
  by (induction i k b rule: print_loop.induct) (auto simp: Cons_nth_drop_Suc [symmetric])

section \<open>The array as a list of entries\<close>

definition array_holds :: "array_book \<Rightarrow> abonent list \<Rightarrow> bool" where
  "array_holds s xs =
     (length (abonent_book s) = MAX_ABONENTS \<and> abonent_count s \<le> MAX_ABONENTS \<and>
      xs = take (abonent_count s) (abonent_book s))"

lemma array_holds_length: "array_holds s xs \<Longrightarrow> abonent_count s = length xs"
  by (auto simp: array_holds_def)

lemma array_holds_init [simp]: "array_holds init_book []"
  by (simp add: array_holds_def init_book_def)

lemma array_add_holds:
  assumes "array_holds s xs" "length xs < MAX_ABONENTS"
    and "scan_abonent (abonent_book s ! abonent_count s) stdin = Inr (a, rest)"
  shows "\<exists>s'. add_abonent stdin s = Inr (asks, rest, s') \<and> array_holds s' (xs @ [a])"
  using assms array_holds_length [OF assms(1)]
  by (auto simp: add_abonent_def array_holds_def take_Suc_conv_app_nth)

lemma add_abonent_full:
  "array_holds s xs \<Longrightarrow> length xs = MAX_ABONENTS \<Longrightarrow> add_abonent stdin s = Inr ([NoRoom], stdin, s)"
  using array_holds_length [of s xs] by (simp add: add_abonent_def)

lemma array_remove_holds:
  assumes "array_holds s xs" "scan_number 0 stdin = (i, rest)" "0 \<le> i" "i < int (length xs)"
  shows "\<exists>s'. remove_abonent stdin s = Inr ([AskNumber, Removed], rest, s') \<and>
           array_holds s' (remove_nth (nat i) xs)"
proof -
  have "nat i < abonent_count s" "abonent_count s \<le> length (abonent_book s)"
    using assms array_holds_length [OF assms(1)] by (auto simp: array_holds_def)
  from shift_down_removes [OF this] show ?thesis
    using assms array_holds_length [OF assms(1)]
    by (auto simp: remove_abonent_def array_holds_def)
qed

lemma remove_abonent_out:
  assumes "array_holds s xs" "scan_number 0 stdin = (i, rest)" "i < 0 \<or> int (length xs) \<le> i"
  shows "remove_abonent stdin s = Inr ([AskNumber, BadNumber], rest, s)"
  using assms array_holds_length [OF assms(1)] by (auto simp: remove_abonent_def)

lemma array_search_holds:
  assumes "array_holds s xs" "scan_field junk stdin = Inr (nm, rest)"
  shows "\<exists>out. search_abonent junk stdin s = Inr (out, rest, s) \<and> rows out = matches nm xs"
  using assms by (auto simp: search_abonent_def array_holds_def search_loop_matches matches_def)

lemma array_print_rows:
  assumes "array_holds s xs"
  shows "rows (print_book s) = all_rows xs"
proof -
  have "0 + abonent_count s \<le> length (abonent_book s)" using assms by (simp add: array_holds_def)
  from print_loop_rows [OF this] show ?thesis
    using assms by (simp add: print_book_def array_holds_def all_rows_def)
qed

lemma handle_choice_keeps:
  assumes "array_holds s xs"
  shows "handle_choice c junk stdin s = Inl Overrun \<or>
         (\<exists>out rest s' xs'. handle_choice c junk stdin s = Inr (out, rest, s') \<and> array_holds s' xs')"
proof -
  have add: "add_abonent stdin s = Inl Overrun \<or>
      (\<exists>out rest s' xs'. add_abonent stdin s = Inr (out, rest, s') \<and> array_holds s' xs')"
  proof (cases "length xs < MAX_ABONENTS")
    case True
    show ?thesis
    proof (cases "scan_abonent (abonent_book s ! abonent_count s) stdin")
      case (Inl f)
      with scan_abonent_fault True array_holds_length [OF assms] show ?thesis
        by (auto simp: add_abonent_def)
    next
      case (Inr p)
      then show ?thesis using array_add_holds [OF assms True] by (cases p) fastforce
    qed
  next
    case False
    with assms have "length xs = MAX_ABONENTS" by (auto simp: array_holds_def)
    with add_abonent_full assms show ?thesis by fastforce
  qed
  have remove: "\<exists>out rest s' xs'. remove_abonent stdin s = Inr (out, rest, s') \<and> array_holds s' xs'"
  proof -
    obtain i rest where "scan_number 0 stdin = (i, rest)" by fastforce
    then show ?thesis
      using array_remove_holds [OF assms] remove_abonent_out [OF assms] assms
      by (cases "0 \<le> i \<and> i < int (length xs)") fastforce+
  qed
  have search: "search_abonent junk stdin s = Inl Overrun \<or>
      (\<exists>out rest. search_abonent junk stdin s = Inr (out, rest, s))"
    by (cases "scan_field junk stdin")
      (auto simp: search_abonent_def split: prod.splits dest: scan_field_fault)
  show ?thesis
    using add remove search assms by (auto simp: handle_choice_def)
qed

lemma handle_choice_does:
  assumes "array_holds s xs" and "fits (\<lambda>xs. length xs < MAX_ABONENTS) c xs"
  shows "\<exists>out s'. handle_choice (choice_of c) junk (type_args c @ NL # rest) s = Inr (out, NL # rest, s') \<and>
           rows out = spec_rows c xs \<and> array_holds s' (spec_step c xs)"
proof (cases c)
  case (Add a)
  then show ?thesis
    using array_add_holds [OF assms(1)] assms(2) scan_abonent_typed
    by (fastforce simp: handle_choice_def)
next
  case (Remove n)
  have "scan_number 0 (NL # show_int (int n) @ NL # rest) = (int n, NL # rest)"
    using Remove assms by (intro scan_number_typed) (auto simp: INT_MIN_def)
  then show ?thesis
    using array_remove_holds [OF assms(1)] Remove assms(2) by (fastforce simp: handle_choice_def)
next
  case (Search nm)
  then show ?thesis
    using array_search_holds [OF assms(1)] scan_field_word assms
    by (fastforce simp: handle_choice_def)
next
  case Print
  then show ?thesis
    using array_print_rows [OF assms(1)] assms by (simp add: handle_choice_def)
qed

interpretation array: phone_book handle_choice array_holds "\<lambda>_. True"
    "\<lambda>_ xs. length xs < MAX_ABONENTS" array_holds
proof unfold_locales
  fix s xs e c stdin out rest s'
  assume "array_holds s xs" "handle_choice c e stdin s = Inr (out, rest, s')"
  then show "\<exists>xs'. array_holds s' xs'" using handle_choice_keeps [of s xs c e stdin] by auto
next
  fix s xs e c stdin f
  assume "array_holds s xs" "handle_choice c e stdin s = Inl f"
  then show "f = Overrun" using handle_choice_keeps [of s xs c e stdin] by auto
next
  fix s xs e c rest
  assume "array_holds s xs" "fits (\<lambda>xs. length xs < MAX_ABONENTS) c xs"
  then show "\<exists>out s'. handle_choice (choice_of c) e (type_args c @ NL # rest) s = Inr (out, NL # rest, s') \<and>
      rows out = spec_rows c xs \<and> array_holds s' (spec_step c xs)"
    by (rule handle_choice_does)
next
  fix s xs e rest
  assume "array_holds s xs"
  then show "\<exists>out s'. handle_choice 5 e rest s = Inr (out, rest, s') \<and> rows out = [] \<and> array_holds s' xs"
    by (auto simp: handle_choice_def)
qed

section \<open>The program\<close>

text \<open>
  Property C17. The phone book in the array does what a list of entries does: on any typed script of
  additions, removals by number, searches and prints that fits the book, followed by choice 5, the
  program ends, has printed exactly the rows that the script gives on the list, in order, and holds
  the entries of the list at the end. The script fits when at most 100 entries are in the book
  at a time, the numbers are in range, and the words are of 1 to 9 characters without white space.
\<close>

theorem array_main_runs_script:
  assumes "script_fits (\<lambda>_ xs. length xs < MAX_ABONENTS) junks cs []"
  shows "\<exists>out s. array_main junks (type_script cs @ NL # rest) = Inr (True, out, NL # rest, s) \<and>
           rows out = script_rows cs [] \<and> array_holds s (after_script cs [])"
  unfolding array_main_def
  by (rule array.loop_runs_script) (use assms in simp_all)

theorem array_main_runs_script_witness:
  "\<exists>out s. array_main [[], [], [], [], []] (type_script book_script @ [NL]) = Inr (True, out, [NL], s) \<and>
     rows out = [Row 0 bob] \<and> array_holds s [bob]"
  using array_main_runs_script [of "[[], [], [], [], []]" book_script "[]"]
  by (simp add: book_script_def [THEN arg_cong, of "\<lambda>cs. script_fits _ _ cs []"] remove_nth_def INT_MAX_def MAX_ABONENTS_def)

text \<open>
  Whatever is typed, for as many rounds as one likes, the program keeps within its
  array: the number of entries never exceeds 100 and no index leaves the array. Its one fault is a
  word too long for a buffer.
\<close>

lemma array_main_in_bounds:
  "array_main junks stdin = Inl Overrun \<or>
   (\<exists>b out rest s. array_main junks stdin = Inr (b, out, rest, s) \<and>
      length (abonent_book s) = MAX_ABONENTS \<and> abonent_count s \<le> MAX_ABONENTS)"
  using array.loop_keeps [OF array_holds_init, of junks 0 stdin]
  by (auto simp: array_main_def array_holds_def)

text \<open>
  The program does not notice the end of its input: from then on it repeats its stop
  choice, whatever that was (other than 5) and whatever the book holds, and never ends. After an addition it
  goes on adding copies of what the array holds there until the book is full.
\<close>

lemma array_main_ignores_end_of_input:
  assumes "array_holds s xs" and "choice \<noteq> 5"
  shows "\<exists>out s'. menu_loop handle_choice junks choice [] s = Inr (False, out, [], s') \<and>
           (choice = 1 \<longrightarrow> abonent_count s' = min MAX_ABONENTS (length xs + length junks))"
  using assms(1)
proof (induction junks arbitrary: s xs)
  case Nil
  then show ?case by (auto simp: array_holds_def)
next
  case (Cons junk junks)
  have "\<exists>out s' xs'. handle_choice choice junk [] s = Inr (out, [], s') \<and> array_holds s' xs' \<and>
      (choice = 1 \<longrightarrow> length xs' = min MAX_ABONENTS (Suc (length xs)))"
  proof -
    have "length xs \<le> MAX_ABONENTS" using Cons by (auto simp: array_holds_def)
    then have "choice = 1 \<Longrightarrow> ?thesis"
      using array_add_holds [OF Cons.prems(1), of "[]"] add_abonent_full [OF Cons.prems(1)] Cons.prems(1)
      by (cases "length xs = MAX_ABONENTS") (fastforce simp: handle_choice_def)+
    moreover have "choice \<noteq> 1 \<Longrightarrow> ?thesis"
      using handle_choice_keeps [OF Cons.prems(1), of choice junk "[]"] assms(2)
      by (auto simp: handle_choice_def remove_abonent_def search_abonent_def split: prod.splits if_splits)
    ultimately show ?thesis by blast
  qed
  then obtain out s' xs' where h: "handle_choice choice junk [] s = Inr (out, [], s')" "array_holds s' xs'"
    "choice = 1 \<longrightarrow> length xs' = min MAX_ABONENTS (Suc (length xs))" by blast
  from Cons.IH [OF h(2)] obtain out' s'' where
    "menu_loop handle_choice junks choice [] s' = Inr (False, out', [], s'')"
    "choice = 1 \<longrightarrow> abonent_count s'' = min MAX_ABONENTS (length xs' + length junks)" by auto
  with h assms(2) show ?case by (auto simp: min_def)
qed

lemma array_main_ignores_end_of_input_witness:
  "\<exists>out s'. menu_loop handle_choice (replicate 150 []) 1 [] init_book = Inr (False, out, [], s') \<and>
     abonent_count s' = 100"
  using array_main_ignores_end_of_input [of init_book "[]" 1 "replicate 150 []"]
  by (auto simp: MAX_ABONENTS_def)

lemma long_word_overruns:
  assumes "\<forall>c \<in> set w. \<not> isspace c" "MAX_LEN \<le> length w"
  shows "array_main (junk # junks) (NL # show_int 1 @ NL # w @ NL # rest) = Inl Overrun"
proof -
  have "w \<noteq> []" using assms by (auto simp: MAX_LEN_def)
  with assms have "scanf_s (w @ NL # rest) = Some (w, NL # rest)" by (intro scanf_s_word) auto
  moreover have "scan_number 0 (NL # show_int 1 @ NL # w @ NL # rest) = (1, NL # w @ NL # rest)"
    by (rule scan_number_typed) (simp_all add: INT_MIN_def INT_MAX_def)
  ultimately show ?thesis
    using assms
    by (simp add: array_main_def handle_choice_def add_abonent_def init_book_def MAX_ABONENTS_def
        scan_abonent_def scan_field_def scanf_s_skip_space)
qed

end
