(* ===== verification/Book_List.thy ===== *)
theory Book_List
  imports Address_Book
begin

text \<open>
  The phone book of \<open>dynmem/dynmem.c\<close>: a doubly linked list in the heap. The heap maps the addresses
  of live allocations to nodes; address 0 is NULL. An access through a pointer that is no live
  allocation, a freed one included, is the fault \<open>BadPointer\<close>. A walk along the list is a partial
  function: on a cyclic list it has no result, which the operations turn into \<open>Endless\<close>.
\<close>

section \<open>State and operations\<close>

record dnode =
  d_entry :: abonent
  d_next :: nat
  d_prev :: nat

record list_book =
  heap :: "nat \<rightharpoonup> dnode"
  head :: nat
  tail :: nat

definition init_list :: list_book where
  "init_list = \<lparr>heap = Map.empty, head = 0, tail = 0\<rparr>"

text \<open>
  What the environment decides in a round: the answer of \<open>malloc\<close> on the current heap (\<open>None\<close>
  when there is no memory), and what the new node, the local buffer and the local variable
  \<open>number\<close> hold before they are written.
\<close>

record list_env =
  e_malloc :: "(nat \<rightharpoonup> dnode) \<Rightarrow> nat option"
  e_node :: dnode
  e_name :: string
  e_number :: int

definition add_abonent :: "list_env \<Rightarrow> string \<Rightarrow> list_book \<Rightarrow> list_book result" where
  "add_abonent e stdin s =
     (case e_malloc e (heap s) of
        None \<Rightarrow> Inr ([NoMemory], stdin, s)
      | Some a \<Rightarrow>
          (case scan_abonent (d_entry (e_node e)) stdin of
             Inl f \<Rightarrow> Inl f
           | Inr (x, rest) \<Rightarrow>
               (let h = (heap s)(a \<mapsto> \<lparr>d_entry = x, d_next = 0, d_prev = tail s\<rparr>)
                in if tail s \<noteq> 0
                   then (case h (tail s) of
                           None \<Rightarrow> Inl BadPointer
                         | Some t \<Rightarrow>
                             Inr (asks @ [Added], rest,
                                  s\<lparr>heap := h(tail s \<mapsto> t\<lparr>d_next := a\<rparr>), tail := a\<rparr>))
                   else Inr (asks @ [Added], rest, s\<lparr>heap := h, head := a, tail := a\<rparr>))))"

text \<open>The entries met on the way along the \<open>next\<close> pointers from \<open>p\<close> on.\<close>

partial_function (option) walk :: "(nat \<rightharpoonup> dnode) \<Rightarrow> nat \<Rightarrow> (book_fault + abonent list) option" where
  "walk h p =
     (if p = 0 then Some (Inr [])
      else case h p of
             None \<Rightarrow> Some (Inl BadPointer)
           | Some n \<Rightarrow> Option.bind (walk h (d_next n))
               (\<lambda>r. Some (case r of Inl f \<Rightarrow> Inl f | Inr xs \<Rightarrow> Inr (d_entry n # xs))))"

definition walk_all :: "list_book \<Rightarrow> book_fault + abonent list" where
  "walk_all s = (case walk (heap s) (head s) of None \<Rightarrow> Inl Endless | Some r \<Rightarrow> r)"

definition print_book :: "list_book \<Rightarrow> book_fault + book_out list" where
  "print_book s =
     (if head s = 0 then Inr [EmptyBook]
      else case walk_all s of
             Inl f \<Rightarrow> Inl f
           | Inr xs \<Rightarrow> Inr (Heading # map (\<lambda>(i, x). Row i x) (enumerate 0 xs)))"

text \<open>The lines printed and the number of matches, with \<open>index\<close> counting the nodes.\<close>

fun search_nodes :: "string \<Rightarrow> nat \<Rightarrow> abonent list \<Rightarrow> book_out list \<times> nat" where
  "search_nodes nm index [] = ([], 0)"
| "search_nodes nm index (x # xs) =
     (let (out, found) = search_nodes nm (index + 1) xs
      in if name x = nm then (Row index x # out, found + 1) else (out, found))"

definition search_abonent :: "list_env \<Rightarrow> string \<Rightarrow> list_book \<Rightarrow> list_book result" where
  "search_abonent e stdin s =
     (if head s = 0 then Inr ([EmptyBook], stdin, s)
      else case scan_field (e_name e) stdin of Inl f \<Rightarrow> Inl f | Inr (nm, rest) \<Rightarrow>
           case walk_all s of Inl f \<Rightarrow> Inl f | Inr xs \<Rightarrow>
             (let (out, found) = search_nodes nm 0 xs
              in Inr (Ask Name # out @ [if found = 0 then NotFound else Found found], rest, s)))"

text \<open>
  The first loop of \<open>remove_abonent\<close>, \<open>k\<close> the value of \<open>number - index\<close> (none are left when it is not
  positive): the address it stops at.
\<close>

fun seek :: "(nat \<rightharpoonup> dnode) \<Rightarrow> nat \<Rightarrow> nat \<Rightarrow> book_fault + nat" where
  "seek h 0 current = Inr current"
| "seek h (Suc k) current =
     (if current = 0 then Inr 0
      else case h current of None \<Rightarrow> Inl BadPointer | Some n \<Rightarrow> seek h k (d_next n))"

text \<open>The two pointer updates around the node, then \<open>free\<close>.\<close>

definition unlink :: "nat \<Rightarrow> list_book \<Rightarrow> book_fault + list_book" where
  "unlink current s =
     (case heap s current of None \<Rightarrow> Inl BadPointer | Some n \<Rightarrow>
      (case (if d_prev n \<noteq> 0
             then (case heap s (d_prev n) of
                     None \<Rightarrow> Inl BadPointer
                   | Some q \<Rightarrow> Inr (s\<lparr>heap := (heap s)(d_prev n \<mapsto> q\<lparr>d_next := d_next n\<rparr>)\<rparr>))
             else Inr (s\<lparr>head := d_next n\<rparr>)) of
         Inl f \<Rightarrow> Inl f
       | Inr s1 \<Rightarrow>
           (case (if d_next n \<noteq> 0
                  then (case heap s1 (d_next n) of
                          None \<Rightarrow> Inl BadPointer
                        | Some q \<Rightarrow> Inr (s1\<lparr>heap := (heap s1)(d_next n \<mapsto> q\<lparr>d_prev := d_prev n\<rparr>)\<rparr>))
                  else Inr (s1\<lparr>tail := d_prev n\<rparr>)) of
              Inl f \<Rightarrow> Inl f
            | Inr s2 \<Rightarrow> Inr (s2\<lparr>heap := (heap s2)(current := None)\<rparr>))))"

definition remove_abonent :: "list_env \<Rightarrow> string \<Rightarrow> list_book \<Rightarrow> list_book result" where
  "remove_abonent e stdin s =
     (if head s = 0 then Inr ([EmptyBook], stdin, s)
      else let (number, rest) = scan_number (e_number e) stdin
           in case seek (heap s) (nat number) (head s) of
                Inl f \<Rightarrow> Inl f
              | Inr current \<Rightarrow>
                  if current = 0 then Inr ([AskNumber, BadNumber], rest, s)
                  else case unlink current s of
                         Inl f \<Rightarrow> Inl f
                       | Inr s' \<Rightarrow> Inr ([AskNumber, Removed], rest, s'))"

text \<open>The loop of \<open>free_all\<close>; freeing what is not live is a fault as well.\<close>

partial_function (option) free_from :: "(nat \<rightharpoonup> dnode) \<Rightarrow> nat \<Rightarrow> (book_fault + (nat \<rightharpoonup> dnode)) option" where
  "free_from h current =
     (if current = 0 then Some (Inr h)
      else case h current of
             None \<Rightarrow> Some (Inl BadPointer)
           | Some n \<Rightarrow> free_from (h(current := None)) (d_next n))"

definition free_all :: "list_book \<Rightarrow> book_fault + list_book" where
  "free_all s =
     (case free_from (heap s) (head s) of
        None \<Rightarrow> Inl Endless
      | Some (Inl f) \<Rightarrow> Inl f
      | Some (Inr h) \<Rightarrow> Inr \<lparr>heap = h, head = 0, tail = 0\<rparr>)"

definition switch :: "int \<Rightarrow> list_env \<Rightarrow> string \<Rightarrow> list_book \<Rightarrow> list_book result" where
  "switch choice e stdin s =
     (if choice = 1 then add_abonent e stdin s
      else if choice = 2 then remove_abonent e stdin s
      else if choice = 3 then search_abonent e stdin s
      else if choice = 4 then
        (case print_book s of Inl f \<Rightarrow> Inl f | Inr out \<Rightarrow> Inr (out, stdin, s))
      else if choice = 5 then
        (case free_all s of Inl f \<Rightarrow> Inl f | Inr s' \<Rightarrow> Inr ([Bye], stdin, s'))
      else Inr ([BadChoice], stdin, s))"

text \<open>\<open>choice\<close> is uninitialised.\<close>

definition list_main :: "list_env list \<Rightarrow> int \<Rightarrow> string
    \<Rightarrow> book_fault + bool \<times> book_out list \<times> string \<times> list_book" where
  "list_main es choice stdin = menu_loop switch es choice stdin init_list"

section \<open>List segments\<close>

text \<open>
  \<open>dseg h q p as l r\<close>: from \<open>p\<close> the \<open>next\<close> pointers lead through the nodes \<open>as\<close> to \<open>r\<close>, and the \<open>prev\<close>
  pointers from the last of them, \<open>l\<close>, back to \<open>q\<close>.
\<close>

fun dseg :: "(nat \<rightharpoonup> dnode) \<Rightarrow> nat \<Rightarrow> nat \<Rightarrow> nat list \<Rightarrow> nat \<Rightarrow> nat \<Rightarrow> bool" where
  "dseg h q p [] l r = (l = q \<and> p = r)"
| "dseg h q p (a # as) l r =
     (p = a \<and> a \<noteq> 0 \<and> (case h a of None \<Rightarrow> False | Some n \<Rightarrow> d_prev n = q \<and> dseg h a (d_next n) as l r))"

definition entries :: "(nat \<rightharpoonup> dnode) \<Rightarrow> nat list \<Rightarrow> abonent list" where
  "entries h as = map (\<lambda>a. d_entry (the (h a))) as"

lemma dseg_append:
  "dseg h q p (as @ bs) l r \<longleftrightarrow> (\<exists>m k. dseg h q p as m k \<and> dseg h m k bs l r)"
  by (induction as arbitrary: q p) (auto split: option.splits)

lemma dseg_upd [simp]: "a \<notin> set as \<Longrightarrow> dseg (h(a := x)) q p as l r = dseg h q p as l r"
  by (induction as arbitrary: q p) (auto split: option.splits)

lemma dseg_dom: "dseg h q p as l r \<Longrightarrow> a \<in> set as \<Longrightarrow> a \<noteq> 0 \<and> (\<exists>n. h a = Some n)"
  by (induction as arbitrary: q p) (auto split: option.splits)

lemma entries_upd [simp]: "a \<notin> set as \<Longrightarrow> entries (h(a := x)) as = entries h as"
  by (induction as) (auto simp: entries_def)

lemma entries_simps [simp]:
  "entries h [] = []" "entries h (a # as) = d_entry (the (h a)) # entries h as"
  "entries h (as @ bs) = entries h as @ entries h bs" "length (entries h as) = length as"
  by (simp_all add: entries_def)

text \<open>The last node of a segment, and its first one.\<close>

lemma dseg_last: "dseg h q p as l r \<Longrightarrow> as \<noteq> [] \<Longrightarrow> l = last as"
  by (induction as arbitrary: q p) (auto split: option.splits if_splits)

lemma dseg_hd: "dseg h q p as l r \<Longrightarrow> as \<noteq> [] \<Longrightarrow> p = hd as"
  by (cases as) auto

lemma dseg_set_next:
  assumes "dseg h q p (as @ [a]) l r" "a \<notin> set as" "h a = Some n"
  shows "dseg (h(a \<mapsto> n\<lparr>d_next := r'\<rparr>)) q p (as @ [a]) l r'"
  using assms by (auto simp: dseg_append)

lemma dseg_set_prev:
  assumes "dseg h q p (b # bs) l r" "b \<notin> set bs" "h b = Some n"
  shows "dseg (h(b \<mapsto> n\<lparr>d_prev := q'\<rparr>)) q' p (b # bs) l r"
  using assms by auto

section \<open>The heap as a list of entries\<close>

definition list_nodes :: "list_book \<Rightarrow> nat list \<Rightarrow> bool" where
  "list_nodes s as =
     (dseg (heap s) 0 (head s) as (tail s) 0 \<and> distinct as \<and> dom (heap s) = set as)"

definition list_holds :: "list_book \<Rightarrow> abonent list \<Rightarrow> bool" where
  "list_holds s xs = (\<exists>as. list_nodes s as \<and> xs = entries (heap s) as)"

definition list_freed :: "list_book \<Rightarrow> abonent list \<Rightarrow> bool" where
  "list_freed s xs = (s = init_list)"

text \<open>What C promises of \<open>malloc\<close>: a failure, or an address that is not NULL and not in use.\<close>

definition honest :: "list_env \<Rightarrow> bool" where
  "honest e = (\<forall>h a. e_malloc e h = Some a \<longrightarrow> a \<noteq> 0 \<and> h a = None)"

definition has_memory :: "list_env \<Rightarrow> abonent list \<Rightarrow> bool" where
  "has_memory e xs = (\<forall>h. card (dom h) = length xs \<longrightarrow> finite (dom h) \<longrightarrow> e_malloc e h \<noteq> None)"

lemma list_nodes_init: "list_nodes init_list []"
  by (simp add: list_nodes_def init_list_def)

lemma list_holds_init [simp]: "list_holds init_list []"
  using list_nodes_init by (force simp: list_holds_def)

lemma list_nodes_nonzero: "list_nodes s as \<Longrightarrow> 0 \<notin> set as"
  using dseg_dom by (fastforce simp: list_nodes_def)

lemma list_nodes_empty: "list_nodes s as \<Longrightarrow> head s = 0 \<longleftrightarrow> as = []"
  by (cases as) (auto simp: list_nodes_def)

lemma list_nodes_tail: "list_nodes s as \<Longrightarrow> tail s = (if as = [] then 0 else last as)"
  using dseg_last [of "heap s" 0 "head s" as "tail s" 0] by (cases as) (auto simp: list_nodes_def)

lemma walk_dseg: "dseg h q p as l 0 \<Longrightarrow> walk h p = Some (Inr (entries h as))"
proof (induction as arbitrary: q p)
  case (Cons a as)
  then show ?case by (subst walk.simps) (auto split: option.splits)
qed (subst walk.simps, simp)

lemma walk_all_entries: "list_nodes s as \<Longrightarrow> walk_all s = Inr (entries (heap s) as)"
  by (auto simp: walk_all_def list_nodes_def dest: walk_dseg)

lemma seek_dseg:
  "dseg h q p as l 0 \<Longrightarrow> seek h k p = Inr (if k < length as then as ! k else 0)"
proof (induction as arbitrary: q p k)
  case Nil
  then show ?case by (cases k) auto
next
  case (Cons a as)
  then show ?case by (cases k) (auto split: option.splits)
qed

lemma search_nodes_matches:
  "search_nodes nm i xs =
     (map (\<lambda>(i, x). Row i x) (filter (\<lambda>(i, x). name x = nm) (enumerate i xs)),
      length (filter (\<lambda>(i, x). name x = nm) (enumerate i xs)))"
  by (induction nm i xs rule: search_nodes.induct) auto

lemma free_from_dseg:
  "dseg h q p as l 0 \<Longrightarrow> distinct as \<Longrightarrow> free_from h p = Some (Inr (h |` (- set as)))"
proof (induction as arbitrary: h q p)
  case Nil
  then show ?case by (subst free_from.simps) (simp add: restrict_map_def)
next
  case (Cons a as)
  then obtain n where n: "h a = Some n" "dseg h a (d_next n) as l 0" "p = a" "a \<noteq> 0"
    by (auto split: option.splits)
  with Cons.prems have "dseg (h(a := None)) a (d_next n) as l 0" by simp
  from Cons.IH [OF this] Cons.prems
  have "free_from (h(a := None)) (d_next n) = Some (Inr ((h(a := None)) |` (- set as)))"
    by (simp only: distinct.simps)
  moreover have "(h(a := None)) |` (- set as) = h |` (- set (a # as))"
    by (auto simp: restrict_map_def)
  ultimately show ?case using n by (subst free_from.simps) simp
qed

lemma free_all_frees:
  assumes "list_nodes s as"
  shows "free_all s = Inr init_list"
proof -
  have "heap s |` (- set as) = Map.empty"
    using assms by (auto simp: list_nodes_def restrict_map_def fun_eq_iff domIff)
  then show ?thesis
    using assms free_from_dseg by (auto simp: free_all_def list_nodes_def init_list_def)
qed

lemma add_abonent_nodes:
  assumes nodes: "list_nodes s as" and a: "e_malloc e (heap s) = Some a" "a \<noteq> 0" "heap s a = None"
    and x: "scan_abonent (d_entry (e_node e)) stdin = Inr (x, rest)"
  shows "\<exists>s'. add_abonent e stdin s = Inr (asks @ [Added], rest, s') \<and>
           list_nodes s' (as @ [a]) \<and> entries (heap s') (as @ [a]) = entries (heap s) as @ [x]"
proof (cases as rule: rev_cases)
  case Nil
  with assms list_nodes_tail [OF nodes] show ?thesis
    by (auto simp: add_abonent_def list_nodes_def Let_def)
next
  case (snoc as' t)
  have t: "tail s = t" "t \<noteq> 0" "t \<noteq> a" "a \<notin> set as'" "t \<notin> set as'"
    using list_nodes_tail [OF nodes] list_nodes_nonzero [OF nodes] nodes snoc a(3)
    by (auto simp: list_nodes_def)
  obtain n where n: "heap s t = Some n" using nodes snoc by (auto simp: list_nodes_def dseg_append split: option.splits)
  let ?h = "(heap s)(a \<mapsto> \<lparr>d_entry = x, d_next = 0, d_prev = t\<rparr>, t \<mapsto> n\<lparr>d_next := a\<rparr>)"
  let ?s = "s\<lparr>heap := ?h, tail := a\<rparr>"
  have "add_abonent e stdin s = Inr (asks @ [Added], rest, ?s)"
    using t n a x by (simp add: add_abonent_def Let_def)
  moreover have "dseg ?h 0 (head s) (as' @ [t]) t a"
    using nodes snoc t n by (auto simp: list_nodes_def dseg_append)
  then have "dseg ?h 0 (head s) ((as' @ [t]) @ [a]) a 0"
    using t a by (subst dseg_append) auto
  then have "list_nodes ?s (as @ [a])"
    using nodes snoc t a by (auto simp: list_nodes_def)
  moreover have "entries ?h (as @ [a]) = entries (heap s) as @ [x]"
    using snoc t n by simp
  ultimately show ?thesis by auto
qed

lemma unlink_node:
  assumes nodes: "list_nodes s (as @ c # bs)"
  shows "\<exists>s'. unlink c s = Inr s' \<and> list_nodes s' (as @ bs) \<and>
           entries (heap s') (as @ bs) = entries (heap s) (as @ bs)"
proof -
  from nodes obtain n where n: "heap s c = Some n" "dseg (heap s) 0 (head s) as (d_prev n) c"
    "dseg (heap s) c (d_next n) bs (tail s) 0"
    by (auto simp: list_nodes_def dseg_append split: option.splits)
  have d: "distinct as" "distinct bs" "c \<notin> set as" "c \<notin> set bs" "set as \<inter> set bs = {}"
    "dom (heap s) = insert c (set as \<union> set bs)"
    using nodes by (auto simp: list_nodes_def)
  define s1 where "s1 = (if as = [] then s\<lparr>head := d_next n\<rparr>
    else s\<lparr>heap := (heap s)(last as \<mapsto> (the (heap s (last as)))\<lparr>d_next := d_next n\<rparr>)\<rparr>)"
  have s1: "(if d_prev n \<noteq> 0
      then (case heap s (d_prev n) of None \<Rightarrow> Inl BadPointer
            | Some q \<Rightarrow> Inr (s\<lparr>heap := (heap s)(d_prev n \<mapsto> q\<lparr>d_next := d_next n\<rparr>)\<rparr>))
      else Inr (s\<lparr>head := d_next n\<rparr>)) = Inr s1 \<and>
    dseg (heap s1) 0 (head s1) as (d_prev n) (d_next n) \<and> dseg (heap s1) c (d_next n) bs (tail s) 0 \<and>
    heap s1 c = Some n \<and> dom (heap s1) = dom (heap s) \<and> tail s1 = tail s \<and>
    entries (heap s1) as = entries (heap s) as \<and> entries (heap s1) bs = entries (heap s) bs"
  proof (cases as rule: rev_cases)
    case Nil
    with n show ?thesis by (simp add: s1_def)
  next
    case (snoc as' p)
    with n obtain np where "heap s p = Some np" "d_prev n = p" "p \<noteq> 0"
      by (auto simp: dseg_append split: option.splits)
    with snoc n d show ?thesis
      using dseg_set_next [of "heap s" 0 "head s" as' p "d_prev n" c np "d_next n"]
      by (auto simp: s1_def)
  qed
  define s2 where "s2 = (if bs = [] then s1\<lparr>tail := d_prev n\<rparr>
    else s1\<lparr>heap := (heap s1)(hd bs \<mapsto> (the (heap s1 (hd bs)))\<lparr>d_prev := d_prev n\<rparr>)\<rparr>)"
  have s2: "(if d_next n \<noteq> 0
      then (case heap s1 (d_next n) of None \<Rightarrow> Inl BadPointer
            | Some q \<Rightarrow> Inr (s1\<lparr>heap := (heap s1)(d_next n \<mapsto> q\<lparr>d_prev := d_prev n\<rparr>)\<rparr>))
      else Inr (s1\<lparr>tail := d_prev n\<rparr>)) = Inr s2 \<and>
    dseg (heap s2) 0 (head s2) (as @ bs) (tail s2) 0 \<and> dom (heap s2) = dom (heap s) \<and>
    entries (heap s2) as = entries (heap s) as \<and> entries (heap s2) bs = entries (heap s) bs"
  proof (cases bs)
    case Nil
    with n s1 show ?thesis by (auto simp: s2_def)
  next
    case (Cons b bs')
    with s1 obtain nb where "heap s1 b = Some nb" "d_next n = b" "b \<noteq> 0"
      by (auto split: option.splits)
    with Cons s1 d show ?thesis
      using dseg_set_prev [of "heap s1" c "d_next n" b bs' "tail s" 0 nb "d_prev n"]
      by (auto simp: s2_def dseg_append)
  qed
  have "unlink c s = Inr (s2\<lparr>heap := (heap s2)(c := None)\<rparr>)"
    using n(1) s1 s2 by (simp add: unlink_def)
  moreover have "list_nodes (s2\<lparr>heap := (heap s2)(c := None)\<rparr>) (as @ bs)"
    using s2 d by (auto simp: list_nodes_def)
  ultimately show ?thesis
    using s2 d by auto
qed

section \<open>The operations on the represented list\<close>

lemma list_add_holds:
  assumes "list_holds s xs" "honest e" "e_malloc e (heap s) = Some a"
    and "scan_abonent (d_entry (e_node e)) stdin = Inr (x, rest)"
  shows "\<exists>s'. add_abonent e stdin s = Inr (asks @ [Added], rest, s') \<and> list_holds s' (xs @ [x])"
proof -
  obtain as where as: "list_nodes s as" "xs = entries (heap s) as"
    using assms by (auto simp: list_holds_def)
  have "a \<noteq> 0" "heap s a = None" using assms by (auto simp: honest_def)
  from add_abonent_nodes [OF as(1) assms(3) this assms(4)] as(2) show ?thesis
    unfolding list_holds_def by metis
qed

lemma list_holds_empty: "list_holds s xs \<Longrightarrow> head s = 0 \<longleftrightarrow> xs = []"
  using list_nodes_empty by (auto simp: list_holds_def entries_def)

lemma list_holds_walk: "list_holds s xs \<Longrightarrow> walk_all s = Inr xs"
  by (auto simp: list_holds_def walk_all_entries)

lemma list_holds_memory:
  assumes "list_holds s xs" "has_memory e xs"
  shows "\<exists>a. e_malloc e (heap s) = Some a"
proof -
  obtain as where "dom (heap s) = set as" "distinct as" "length as = length xs"
    using assms by (auto simp: list_holds_def list_nodes_def)
  then have "card (dom (heap s)) = length xs" "finite (dom (heap s))"
    by (simp_all add: distinct_card)
  with assms show ?thesis by (auto simp: has_memory_def)
qed

lemma list_remove_holds:
  assumes "list_holds s xs" "xs \<noteq> []" "scan_number (e_number e) stdin = (i, rest)"
  shows "\<exists>out s'. remove_abonent e stdin s = Inr (AskNumber # out, rest, s') \<and> rows out = [] \<and>
           (if nat i < length xs then list_holds s' (remove_nth (nat i) xs) else s' = s)"
proof -
  obtain as where as: "list_nodes s as" "xs = entries (heap s) as"
    using assms by (auto simp: list_holds_def)
  have h: "head s \<noteq> 0" using assms list_holds_empty by auto
  have seek: "seek (heap s) (nat i) (head s) = Inr (if nat i < length as then as ! nat i else 0)"
    using as(1) seek_dseg by (auto simp: list_nodes_def)
  show ?thesis
  proof (cases "nat i < length as")
    case True
    then have split: "as = take (nat i) as @ as ! nat i # drop (Suc (nat i)) as" by (rule id_take_nth_drop)
    from unlink_node [of s "take (nat i) as" "as ! nat i" "drop (Suc (nat i)) as"] as(1) split obtain s' where
      s': "unlink (as ! nat i) s = Inr s'" "list_nodes s' (take (nat i) as @ drop (Suc (nat i)) as)"
        "entries (heap s') (take (nat i) as @ drop (Suc (nat i)) as) =
         entries (heap s) (take (nat i) as @ drop (Suc (nat i)) as)"
      by auto
    moreover have "entries (heap s) (take (nat i) as @ drop (Suc (nat i)) as) = remove_nth (nat i) xs"
      by (simp add: as(2) entries_def remove_nth_def take_map drop_map)
    ultimately have "list_holds s' (remove_nth (nat i) xs)"
      unfolding list_holds_def by metis
    moreover have "as ! nat i \<noteq> 0" using list_nodes_nonzero [OF as(1)] True by (metis nth_mem)
    ultimately show ?thesis
      using h seek s' True assms(3) as(2) by (auto simp: remove_abonent_def)
  next
    case False
    then show ?thesis using h seek assms(3) as(2) by (auto simp: remove_abonent_def)
  qed
qed

lemma list_search_holds:
  assumes "list_holds s xs" "xs \<noteq> []" "scan_field (e_name e) stdin = Inr (nm, rest)"
  shows "\<exists>out. search_abonent e stdin s = Inr (out, rest, s) \<and> rows out = matches nm xs"
  using assms list_holds_empty [OF assms(1)] list_holds_walk [OF assms(1)]
  by (auto simp: search_abonent_def search_nodes_matches matches_def)

lemma list_print_rows:
  assumes "list_holds s xs"
  shows "\<exists>out. print_book s = Inr out \<and> rows out = all_rows xs"
  using list_holds_empty [OF assms] list_holds_walk [OF assms]
  by (auto simp: print_book_def all_rows_def)

lemma free_all_holds: "list_holds s xs \<Longrightarrow> free_all s = Inr init_list"
  using free_all_frees by (auto simp: list_holds_def)

lemma switch_keeps:
  assumes "list_holds s xs" "honest e"
  shows "switch c e stdin s = Inl Overrun \<or>
         (\<exists>out rest s' xs'. switch c e stdin s = Inr (out, rest, s') \<and> list_holds s' xs')"
proof -
  have add: "add_abonent e stdin s = Inl Overrun \<or>
      (\<exists>out rest s' xs'. add_abonent e stdin s = Inr (out, rest, s') \<and> list_holds s' xs')"
  proof (cases "e_malloc e (heap s)")
    case None
    then show ?thesis using assms by (auto simp: add_abonent_def)
  next
    case (Some a)
    show ?thesis
    proof (cases "scan_abonent (d_entry (e_node e)) stdin")
      case (Inl f)
      with scan_abonent_fault Some show ?thesis by (auto simp: add_abonent_def)
    next
      case (Inr p)
      then show ?thesis using list_add_holds [OF assms Some] by (cases p) fastforce
    qed
  qed
  have empty: "remove_abonent e stdin s = Inr ([EmptyBook], stdin, s)"
    "search_abonent e stdin s = Inr ([EmptyBook], stdin, s)" if "xs = []"
    using that list_holds_empty [OF assms(1)] by (simp_all add: remove_abonent_def search_abonent_def)
  have remove: "\<exists>out rest s' xs'. remove_abonent e stdin s = Inr (out, rest, s') \<and> list_holds s' xs'"
  proof (cases "xs = []")
    case False
    obtain i rest where "scan_number (e_number e) stdin = (i, rest)" by fastforce
    from list_remove_holds [OF assms(1) False this] assms(1) show ?thesis by (auto split: if_splits)
  qed (use empty assms in auto)
  have search: "search_abonent e stdin s = Inl Overrun \<or>
      (\<exists>out rest. search_abonent e stdin s = Inr (out, rest, s))"
    using list_holds_walk [OF assms(1)]
    by (cases "scan_field (e_name e) stdin")
      (auto simp: search_abonent_def split: prod.splits dest: scan_field_fault)
  show ?thesis
    using add remove search assms list_print_rows [OF assms(1)] free_all_holds [OF assms(1)]
      exI [of "list_holds init_list", OF list_holds_init]
    by (auto simp: switch_def)
qed

lemma switch_does:
  assumes "list_holds s xs" "honest e" "fits (has_memory e) c xs"
  shows "\<exists>out s'. switch (choice_of c) e (type_args c @ NL # rest) s = Inr (out, NL # rest, s') \<and>
           rows out = spec_rows c xs \<and> list_holds s' (spec_step c xs)"
proof (cases c)
  case (Add x)
  then obtain a where "e_malloc e (heap s) = Some a"
    using list_holds_memory [OF assms(1), of e] assms by auto
  from list_add_holds [OF assms(1,2) this] Add assms(3) scan_abonent_typed show ?thesis
    by (fastforce simp: switch_def)
next
  case (Remove n)
  have "scan_number (e_number e) (NL # show_int (int n) @ NL # rest) = (int n, NL # rest)"
    using Remove assms by (intro scan_number_typed) (auto simp: INT_MIN_def)
  moreover have "xs \<noteq> []" using Remove assms by auto
  ultimately show ?thesis
    using list_remove_holds [OF assms(1)] Remove assms(3) by (fastforce simp: switch_def)
next
  case (Search nm)
  then show ?thesis
    using list_search_holds [OF assms(1)] scan_field_word assms
    by (fastforce simp: switch_def)
next
  case Print
  then show ?thesis
    using list_print_rows [OF assms(1)] assms by (auto simp: switch_def)
qed

interpretation dlist: phone_book switch list_holds honest has_memory list_freed
proof unfold_locales
  fix s xs e c stdin out rest s'
  assume "list_holds s xs" "honest e" "switch c e stdin s = Inr (out, rest, s')"
  then show "\<exists>xs'. list_holds s' xs'" using switch_keeps [of s xs e c stdin] by auto
next
  fix s xs e c stdin f
  assume "list_holds s xs" "honest e" "switch c e stdin s = Inl f"
  then show "f = Overrun" using switch_keeps [of s xs e c stdin] by auto
next
  fix s xs e c rest
  assume "list_holds s xs" "honest e" "fits (has_memory e) c xs"
  then show "\<exists>out s'. switch (choice_of c) e (type_args c @ NL # rest) s = Inr (out, NL # rest, s') \<and>
      rows out = spec_rows c xs \<and> list_holds s' (spec_step c xs)"
    by (rule switch_does)
next
  fix s xs e rest
  assume "list_holds s xs" "honest e"
  then show "\<exists>out s'. switch 5 e rest s = Inr (out, rest, s') \<and> rows out = [] \<and> list_freed s' xs"
    using free_all_holds [of s xs] by (auto simp: switch_def list_freed_def)
qed

section \<open>The program\<close>

text \<open>
  Property C8. The phone book in the linked list does what a list of entries does: on any typed script
  of additions, removals by number, searches and prints that fits the book, followed by choice 5,
  the program ends, has printed exactly the rows the script gives on the list, and has freed every
  node. This holds for every \<open>malloc\<close> that returns unused addresses and does not run out of memory.
\<close>

theorem list_main_runs_script:
  assumes "\<forall>e \<in> set es. honest e" and "script_fits has_memory es cs []"
  shows "\<exists>out s. list_main es choice (type_script cs @ NL # rest) = Inr (True, out, NL # rest, s) \<and>
           rows out = script_rows cs [] \<and> heap s = Map.empty \<and> head s = 0 \<and> tail s = 0"
  using dlist.loop_runs_script [OF list_holds_init assms, of choice rest]
  by (auto simp: list_main_def list_freed_def init_list_def)

text \<open>A \<open>malloc\<close> that hands out one address per entry in use, as long as it is free.\<close>

definition next_address :: "(nat \<rightharpoonup> dnode) \<Rightarrow> nat option" where
  "next_address h = (let free = filter (\<lambda>a. h a = None) [1 ..< 1000] in case free of [] \<Rightarrow> None | a # _ \<Rightarrow> Some a)"

definition typing_env :: list_env where
  "typing_env = \<lparr>e_malloc = next_address,
     e_node = \<lparr>d_entry = \<lparr>name = ''?'', second_name = [], tel = []\<rparr>, d_next = 77, d_prev = 78\<rparr>,
     e_name = [], e_number = 0\<rparr>"

lemma typing_env_honest: "honest typing_env"
proof -
  have "a \<in> set (filter (\<lambda>a. h a = None) [1 ..< 1000])" if "next_address h = Some a" for h a
    using that by (auto simp: next_address_def Let_def split: list.splits simp del: set_filter filter_True)
  then show ?thesis by (force simp: honest_def typing_env_def)
qed

lemma typing_env_memory:
  assumes "length xs < 999"
  shows "has_memory typing_env xs"
proof -
  have "next_address h \<noteq> None" if "card (dom h) = length xs" "finite (dom h)" for h
  proof
    assume "next_address h = None"
    then have "filter (\<lambda>a. h a = None) [1 ..< 1000] = []"
      by (simp add: next_address_def Let_def split: list.splits)
    then have "{1 ..< 1000} \<subseteq> dom h" by (auto simp: filter_empty_conv domIff)
    from card_mono [OF that(2) this] that(1) assms show False by simp
  qed
  then show ?thesis by (simp add: has_memory_def typing_env_def)
qed

theorem list_main_runs_script_witness:
  "\<exists>out s. list_main (replicate 5 typing_env) 0 (type_script book_script @ [NL]) = Inr (True, out, [NL], s) \<and>
     rows out = [Row 0 bob] \<and> heap s = Map.empty"
proof -
  have "script_fits has_memory (replicate 5 typing_env) book_script []"
    by (simp add: book_script_def remove_nth_def INT_MAX_def typing_env_memory numeral_eq_Suc)
  then show ?thesis
    using list_main_runs_script [of "replicate 5 typing_env" book_script 0 "[]"] typing_env_honest
    by auto
qed

text \<open>
  Property C3. Memory safety of the linked list: whatever is typed, for as many rounds as one likes and
  whatever \<open>malloc\<close> answers within its contract, failures included, no pointer that is NULL, dangling
  or freed twice is followed or freed, every walk along the list ends, and the nodes reachable from
  \<open>head\<close> are exactly the live allocations, linked in both directions. The one fault is a word too
  long for a buffer.
\<close>

theorem list_main_memory_safe:
  assumes "\<forall>e \<in> set es. honest e"
  shows "list_main es choice stdin = Inl Overrun \<or>
         (\<exists>b out rest s as. list_main es choice stdin = Inr (b, out, rest, s) \<and>
            dseg (heap s) 0 (head s) as (tail s) 0 \<and> distinct as \<and> dom (heap s) = set as)"
  using dlist.loop_keeps [OF list_holds_init assms, of choice stdin]
  by (auto simp: list_main_def list_holds_def list_nodes_def)

theorem list_main_memory_safe_witness:
  "list_main (replicate 7 typing_env) 1 (''1 Ann'' @ [NL] @ ''Lee 5 1'') = Inl Overrun \<or>
   (\<exists>b out rest s as. list_main (replicate 7 typing_env) 1 (''1 Ann'' @ [NL] @ ''Lee 5 1'') = Inr (b, out, rest, s) \<and>
      dseg (heap s) 0 (head s) as (tail s) 0 \<and> distinct as \<and> dom (heap s) = set as)"
  by (rule list_main_memory_safe) (use typing_env_honest in simp)

text \<open>
  \<open>remove_abonent\<close> removes the entry with the number typed and keeps the others in order,
  does nothing for a number past the end, and takes every negative number for entry 0. On an
  empty book it leaves the number unread.
\<close>

lemma remove_abonent_correct:
  assumes "list_holds s xs" and "scan_number (e_number e) stdin = (i, rest)"
  shows "\<exists>out s'. remove_abonent e stdin s = Inr (out, if xs = [] then stdin else rest, s') \<and>
           list_holds s' (if i < 0 then tl xs else if i < int (length xs) then remove_nth (nat i) xs else xs)"
proof (cases "xs = []")
  case True
  then show ?thesis using assms list_holds_empty [OF assms(1)] by (auto simp: remove_abonent_def)
next
  case False
  have "remove_nth 0 xs = tl xs" by (simp add: remove_nth_def drop_Suc)
  then show ?thesis
    using list_remove_holds [OF assms(1) False assms(2)] assms(1) False by (auto split: if_splits)
qed

definition two_nodes :: list_book where
  "two_nodes = \<lparr>heap = [1 \<mapsto> \<lparr>d_entry = ann, d_next = 2, d_prev = 0\<rparr>, 2 \<mapsto> \<lparr>d_entry = bob, d_next = 0, d_prev = 1\<rparr>],
     head = 1, tail = 2\<rparr>"

lemma two_nodes_hold: "list_holds two_nodes [ann, bob]"
  unfolding list_holds_def
  by (rule exI [of _ "[1, 2]"]) (auto simp: list_nodes_def two_nodes_def)

lemma remove_abonent_correct_witness:
  "scan_number 0 (NL # ''-1'' @ [NL]) = (- 1, [NL]) \<and>
   (\<exists>out s'. remove_abonent typing_env (NL # ''-1'' @ [NL]) two_nodes = Inr (out, [NL], s') \<and> list_holds s' [bob])"
proof -
  have n: "scan_number 0 (NL # ''-1'' @ [NL]) = (- 1, [NL])" by code_simp
  then have "scan_number (e_number typing_env) (NL # ''-1'' @ [NL]) = (- 1, [NL])"
    by (simp add: typing_env_def)
  from remove_abonent_correct [OF two_nodes_hold this] n show ?thesis by simp
qed

end
