(* ===== verification/Transition.thy ===== *)
theory Transition
  imports Main
begin

text \<open>
  Programs that act in an order of their own choosing: a step function from an action and a state to the
  next state (\<open>None\<close> where the action cannot be taken), runs of actions, the states that
  runs reach, and invariants. The locale \<open>kept_invariant\<close> is what a concurrent component proves of its
  single steps; what it gives of runs and reachable states is proved here once.
\<close>

fun run_steps :: "('a \<Rightarrow> 's \<Rightarrow> 's option) \<Rightarrow> 'a list \<Rightarrow> 's \<Rightarrow> 's option" where
  "run_steps step [] s = Some s"
| "run_steps step (a # as) s = (case step a s of None \<Rightarrow> None | Some s' \<Rightarrow> run_steps step as s')"

inductive reach :: "('a \<Rightarrow> 's \<Rightarrow> 's option) \<Rightarrow> 's \<Rightarrow> 's \<Rightarrow> bool" for step s0 where
  start: "reach step s0 s0"
| next_step: "reach step s0 s \<Longrightarrow> step a s = Some s' \<Longrightarrow> reach step s0 s'"

lemma run_steps_Cons_Some:
  "run_steps step (a # as) s = Some s' \<longleftrightarrow> (\<exists>s1. step a s = Some s1 \<and> run_steps step as s1 = Some s')"
  by (auto split: option.splits)

lemma run_steps_append:
  "run_steps step (as @ bs) s = Option.bind (run_steps step as s) (run_steps step bs)"
  by (induction as arbitrary: s) (auto split: option.splits)

lemma run_steps_from_reached: "run_steps step as s = Some s' \<Longrightarrow> reach step s0 s \<Longrightarrow> reach step s0 s'"
proof (induction as arbitrary: s)
  case (Cons a as)
  then obtain s1 where s1: "step a s = Some s1" "run_steps step as s1 = Some s'"
    unfolding run_steps_Cons_Some by blast
  from Cons.IH [OF s1(2) reach.next_step [OF Cons.prems(2) s1(1)]] show ?case .
qed simp

text \<open>The reachable states are those that some run leads to.\<close>

lemma reach_run_steps: "reach step s0 s \<longleftrightarrow> (\<exists>as. run_steps step as s0 = Some s)"
proof
  show "\<exists>as. run_steps step as s0 = Some s" if "reach step s0 s"
    using that
  proof induction
    case start
    have "run_steps step [] s0 = Some s0" by simp
    then show ?case by blast
  next
    case (next_step s a s')
    then obtain as where "run_steps step as s0 = Some s" by blast
    with next_step.hyps(2) have "run_steps step (as @ [a]) s0 = Some s'" by (simp add: run_steps_append)
    then show ?case by blast
  qed
  show "reach step s0 s" if "\<exists>as. run_steps step as s0 = Some s"
    using that
  proof
    fix as assume "run_steps step as s0 = Some s"
    from run_steps_from_reached [OF this reach.start] show ?thesis .
  qed
qed

lemma run_reaches: "run_steps step as s0 = Some s \<Longrightarrow> reach step s0 s"
  unfolding reach_run_steps by (rule exI)

text \<open>A run that is computed, with what is to hold at its end.\<close>

lemma run_finds:
  assumes "case run_steps step as s0 of None \<Rightarrow> False | Some s \<Rightarrow> P s"
  obtains s where "reach step s0 s" "P s"
proof (cases "run_steps step as s0")
  case (Some s)
  with assms that run_reaches [OF Some] show thesis by simp
qed (use assms in simp)

locale kept_invariant =
  fixes step :: "'a \<Rightarrow> 's \<Rightarrow> 's option"
    and inv :: "'s \<Rightarrow> bool"
  assumes kept: "inv s \<Longrightarrow> step a s = Some s' \<Longrightarrow> inv s'"
begin

lemma run_keeps: "run_steps step as s = Some s' \<Longrightarrow> inv s \<Longrightarrow> inv s'"
proof (induction as arbitrary: s)
  case (Cons a as)
  then obtain s1 where "step a s = Some s1" "run_steps step as s1 = Some s'"
    unfolding run_steps_Cons_Some by blast
  with Cons kept show ?case by blast
qed simp

lemma reach_keeps: "reach step s0 s \<Longrightarrow> inv s0 \<Longrightarrow> inv s"
  unfolding reach_run_steps by (elim exE, rule run_keeps)

text \<open>
  A quantity that single steps from states of the invariant change as an action says is
  changed by a run as its actions say together.
\<close>

lemma run_accumulates:
  assumes "\<And>a s s'. inv s \<Longrightarrow> step a s = Some s' \<Longrightarrow> measure_of s' = measure_of s @ gives a"
  shows "run_steps step as s = Some s' \<Longrightarrow> inv s \<Longrightarrow> measure_of s' = measure_of s @ concat (map gives as)"
proof (induction as arbitrary: s)
  case (Cons a as)
  then obtain s1 where s1: "step a s = Some s1" "run_steps step as s1 = Some s'"
    unfolding run_steps_Cons_Some by blast
  with Cons.IH [OF s1(2) kept [OF Cons.prems(2) s1(1)]] assms [OF Cons.prems(2) s1(1)] show ?case by simp
qed simp

end

end
