(* ===== verification/Chat_Queue.thy ===== *)
theory Chat_Queue
  imports C_Prelude Transition
begin

text \<open>
  The chat over POSIX message queues: the server \<open>message_queues/chat_server.c\<close> and the client
  \<open>message_queues/chat_client.c\<close>. A message structure is a record of the C strings in its fields. The
  server's arrays of clients and history are the lists of their used entries. A handler returns the
  new state and the \<open>mq_send\<close> calls it makes, in order; a descriptor stands for the queue it was
  opened on. The second half puts the server beside the queues: a send to a full queue waits until
  the client of the queue has read a message.
\<close>

section \<open>The server\<close>

definition MAX_NAME :: nat where "MAX_NAME = 32"
definition MAX_TEXT :: nat where "MAX_TEXT = 256"
definition MAX_CLIENTS :: nat where "MAX_CLIENTS = 10"
definition MAX_HISTORY :: nat where "MAX_HISTORY = 100"

record chat_msg =
  m_type :: char
  m_name :: string
  m_qname :: string
  m_text :: string

record client_info =
  c_name :: string
  c_qname :: string
  c_q :: int

record chat_server =
  clients :: "client_info list"
  history :: "chat_msg list"

definition init_server :: chat_server where
  "init_server = \<lparr>clients = [], history = []\<rparr>"

type_synonym sends = "(int \<times> chat_msg) list"

definition send_to_all :: "chat_msg \<Rightarrow> chat_server \<Rightarrow> sends" where
  "send_to_all m s = map (\<lambda>c. (c_q c, m)) (filter (\<lambda>c. c_q c \<noteq> - 1) (clients s))"

text \<open>The message of the server with a text cut to its field.\<close>

definition server_says :: "string \<Rightarrow> chat_msg" where
  "server_says t = \<lparr>m_type = CHR ''S'', m_name = ''Server'', m_qname = [], m_text = snprintf_buf MAX_TEXT t\<rparr>"

definition remember :: "chat_msg \<Rightarrow> chat_server \<Rightarrow> chat_server" where
  "remember m s = (if length (history s) < MAX_HISTORY then s\<lparr>history := history s @ [m]\<rparr> else s)"

text \<open>\<open>q\<close> is the answer of \<open>mq_open\<close> on the queue of the client, - 1 when it fails.\<close>

definition handle_join :: "int \<Rightarrow> chat_msg \<Rightarrow> chat_server \<Rightarrow> chat_server \<times> sends" where
  "handle_join q m s =
     (if length (clients s) \<ge> MAX_CLIENTS
      then (s, if q \<noteq> - 1 then [(q, server_says (''Too many clients, '' @ m_name m @ '' rejected''))] else [])
      else if q = - 1 then (s, [])
      else let s1 = s\<lparr>clients := clients s @ [\<lparr>c_name = m_name m, c_qname = m_qname m, c_q = q\<rparr>]\<rparr>;
               replay = map (\<lambda>h. (q, h)) (history s1);
               join_msg = server_says (m_name m @ '' joined chat'');
               s2 = remember join_msg s1
           in (s2, replay @ send_to_all join_msg s2))"

definition handle_message :: "chat_msg \<Rightarrow> chat_server \<Rightarrow> chat_server \<times> sends" where
  "handle_message m s = (let s1 = remember m s in (s1, send_to_all m s1))"

text \<open>One round of \<open>main\<close>: the outcome of \<open>mq_receive\<close>, with the answer of the \<open>mq_open\<close> that a join makes.\<close>

datatype rx = RxFailed | Rx chat_msg int

fun serve :: "rx \<Rightarrow> chat_server \<Rightarrow> chat_server \<times> sends" where
  "serve RxFailed s = (s, [])"
| "serve (Rx m q) s =
     (if m_type m = CHR ''J'' then handle_join q m s
      else if m_type m = CHR ''M'' then handle_message m s
      else (s, []))"

fun serve_all :: "rx list \<Rightarrow> chat_server \<Rightarrow> chat_server \<times> sends" where
  "serve_all [] s = (s, [])"
| "serve_all (r # rs) s =
     (let (s1, out) = serve r s; (s2, out') = serve_all rs s1 in (s2, out @ out'))"

text \<open>What \<open>cleanup\<close> does on a signal: the descriptors it closes and the names it removes, and then it exits.\<close>

definition SRV_QUEUE :: string where "SRV_QUEUE = ''/chat_srv''"

definition cleanup :: "int \<Rightarrow> chat_server \<Rightarrow> int list \<times> string list" where
  "cleanup server_q s =
     ((if server_q \<noteq> - 1 then [server_q] else []) @ filter (\<lambda>q. q \<noteq> - 1) (map c_q (clients s)),
      if server_q \<noteq> - 1 then [SRV_QUEUE] else [])"

text \<open>
  \<open>main\<close> up to the signal that ends it: the names removed at its start, what is sent in its rounds, and what
  \<open>cleanup\<close> does; \<open>None\<close> when the server's queue cannot be opened (status 1).
\<close>

definition queue_server_main :: "int \<Rightarrow> rx list \<Rightarrow> string list \<times> (sends \<times> int list \<times> string list) option" where
  "queue_server_main server_q rs =
     ([SRV_QUEUE],
      if server_q = - 1 then None
      else (let (s, out) = serve_all rs init_server in Some (out, cleanup server_q s)))"

section \<open>The client\<close>

text \<open>The name typed, cut by \<open>fgets\<close> to its buffer and at the newline.\<close>

definition nickname_of :: "string \<Rightarrow> string option" where
  "nickname_of stdin =
     (case fgets MAX_NAME stdin of
        None \<Rightarrow> None
      | Some (l, _) \<Rightarrow> Some (takeWhile (\<lambda>c. c \<noteq> NL) (cstr l)))"

definition client_join :: "string \<Rightarrow> int \<Rightarrow> chat_msg" where
  "client_join nick pid =
     \<lparr>m_type = CHR ''J'', m_name = take (MAX_NAME - 1) nick,
      m_qname = take 63 (snprintf_buf 64 (''/chat_'' @ show_int pid)), m_text = []\<rparr>"

text \<open>A line typed (\<open>wgetnstr\<close> reads at most 255 characters): the message sent, \<open>None\<close> for the command to quit.\<close>

definition client_line :: "string \<Rightarrow> string \<Rightarrow> chat_msg option" where
  "client_line nick typed =
     (let line = take (MAX_TEXT - 1) typed
      in if line = ''/quit'' then None
         else Some \<lparr>m_type = CHR ''M'', m_name = take (MAX_NAME - 1) nick, m_qname = [],
                    m_text = take (MAX_TEXT - 1) line\<rparr>)"

text \<open>What the receiving thread prints for a message.\<close>

definition shown :: "chat_msg \<Rightarrow> string" where
  "shown m =
     (if m_type m = CHR ''S'' then ''['' @ m_text m @ '']'' @ [NL]
      else m_name m @ '': '' @ m_text m @ [NL])"

section \<open>What a client is sent\<close>

text \<open>
  What the clients are to see of the events a server gets, said without its state: a join is announced as long as
  fewer than ten clients have joined (\<open>n\<close>) and the client's queue opens, and a message is passed on.
\<close>

definition join_message :: "string \<Rightarrow> chat_msg" where
  "join_message name = \<lparr>m_type = CHR ''S'', m_name = ''Server'', m_qname = [], m_text = take 255 (name @ '' joined chat'')\<rparr>"

fun spoken :: "rx list \<Rightarrow> nat \<Rightarrow> chat_msg list" where
  "spoken [] n = []"
| "spoken (RxFailed # rs) n = spoken rs n"
| "spoken (Rx m q # rs) n =
     (if m_type m = CHR ''J'' then
        (if n < 10 \<and> q \<noteq> - 1 then join_message (m_name m) # spoken rs (Suc n) else spoken rs n)
      else if m_type m = CHR ''M'' then m # spoken rs n else spoken rs n)"

text \<open>The queues that joins open, and what a queue is sent.\<close>

fun opened :: "rx list \<Rightarrow> int list" where
  "opened [] = []"
| "opened (RxFailed # rs) = opened rs"
| "opened (Rx m q # rs) = (if m_type m = CHR ''J'' \<and> q \<noteq> - 1 then q # opened rs else opened rs)"

definition sent_to :: "int \<Rightarrow> sends \<Rightarrow> chat_msg list" where
  "sent_to q out = map snd (filter (\<lambda>p. fst p = q) out)"

lemma sent_to_simps [simp]:
  "sent_to q [] = []" "sent_to q ((q', m) # out) = (if q' = q then m # sent_to q out else sent_to q out)"
  "sent_to q (out @ out') = sent_to q out @ sent_to q out'"
  by (simp_all add: sent_to_def)

lemma serve_all_append:
  "serve_all (rs @ rs') s =
     (let (s1, out) = serve_all rs s; (s2, out') = serve_all rs' s1 in (s2, out @ out'))"
  by (induction rs arbitrary: s) (auto split: prod.splits)

lemma opened_append [simp]: "opened (rs @ rs') = opened rs @ opened rs'"
  by (induction rs rule: opened.induct) auto

lemma sent_to_replay [simp]: "sent_to q (map (\<lambda>h. (q', h)) hs) = (if q' = q then hs else [])"
  by (induction hs) auto

lemma sent_to_notin: "\<forall>p \<in> set out. fst p \<noteq> q \<Longrightarrow> sent_to q out = []"
  by (induction out) auto

lemma sent_to_all:
  assumes "distinct (map c_q (clients s))" and "c \<in> set (clients s)" and "c_q c \<noteq> - 1"
  shows "sent_to (c_q c) (send_to_all m s) = [m]"
proof -
  have "sent_to (c_q c) (map (\<lambda>c. (c_q c, m)) (filter (\<lambda>c. c_q c \<noteq> - 1) cs)) = (if c_q c \<in> set (map c_q cs) then [m] else [])"
    if "distinct (map c_q cs)" for cs
    using that assms(3) by (induction cs) (auto simp: image_iff)
  from this [OF assms(1)] assms(2) show ?thesis by (simp add: send_to_all_def)
qed

lemma send_to_all_targets: "\<forall>p \<in> set (send_to_all m s). fst p \<in> c_q ` set (clients s)"
  by (auto simp: send_to_all_def)

lemma handle_message_eq [simp]:
  "handle_message m s = (remember m s, send_to_all m (remember m s))"
  by (simp add: handle_message_def Let_def)

lemma remember_clients [simp]: "clients (remember m s) = clients s"
  by (simp add: remember_def)

lemma take_take_append: "take n (take n xs @ ys) = take n (xs @ ys)"
  by (simp add: min_def)

lemma remember_history:
  "length (history s) \<le> 100 \<Longrightarrow> history (remember m s) = take 100 (history s @ [m])"
  by (auto simp: remember_def MAX_HISTORY_def)

lemma server_says_join: "server_says (name @ '' joined chat'') = join_message name"
  by (simp add: server_says_def join_message_def snprintf_buf_def MAX_TEXT_def)

lemma join_accepted:
  assumes "m_type m = CHR ''J''" "length (clients s) < 10" "q \<noteq> - 1"
  defines "s1 \<equiv> s\<lparr>clients := clients s @ [\<lparr>c_name = m_name m, c_qname = m_qname m, c_q = q\<rparr>]\<rparr>"
  shows "serve (Rx m q) s = (remember (join_message (m_name m)) s1,
           map (\<lambda>h. (q, h)) (history s) @ send_to_all (join_message (m_name m)) (remember (join_message (m_name m)) s1))"
  using assms by (simp add: handle_join_def MAX_CLIENTS_def server_says_join Let_def)

lemma not_accepted:
  assumes "m_type m \<noteq> CHR ''M''" "m_type m = CHR ''J'' \<longrightarrow> 10 \<le> length (clients s) \<or> q = - 1"
  shows "fst (serve (Rx m q) s) = s" "\<forall>p \<in> set (snd (serve (Rx m q) s)). fst p \<in> set (opened [Rx m q])"
  using assms by (auto simp: handle_join_def MAX_CLIENTS_def)

lemma round_cases:
  fixes r :: rx and s :: chat_server
  obtains "r = RxFailed"
    | m q where "r = Rx m q" "m_type m = CHR ''J''" "length (clients s) < 10" "q \<noteq> - 1"
    | m q where "r = Rx m q" "m_type m = CHR ''M''"
    | m q where "r = Rx m q" "m_type m \<noteq> CHR ''M''" "m_type m = CHR ''J'' \<longrightarrow> 10 \<le> length (clients s) \<or> q = - 1"
  by (cases r) force+

text \<open>One round: what is said, remembered and sent, and who is in the table.\<close>

lemma serve_round:
  assumes "length (clients s) \<le> 10"
  shows "spoken (r # rs) (length (clients s)) =
           spoken [r] (length (clients s)) @ spoken rs (length (clients (fst (serve r s))))" (is ?spoken)
    and "length (history s) \<le> 100 \<Longrightarrow>
           history (fst (serve r s)) = take 100 (history s @ spoken [r] (length (clients s)))" (is "_ \<Longrightarrow> ?history")
    and "length (clients (fst (serve r s))) = min 10 (length (clients s) + length (opened [r]))" (is ?count)
    and "distinct (map c_q (clients s) @ opened (r # rs)) \<Longrightarrow>
           distinct (map c_q (clients (fst (serve r s))) @ opened rs)" (is "_ \<Longrightarrow> ?distinct")
    and "distinct (map c_q (clients s) @ opened [r]) \<Longrightarrow> c \<in> set (clients s) \<Longrightarrow> c_q c \<noteq> - 1 \<Longrightarrow>
           sent_to (c_q c) (snd (serve r s)) = spoken [r] (length (clients s))" (is "_ \<Longrightarrow> _ \<Longrightarrow> _ \<Longrightarrow> ?sent")
    and "q \<notin> c_q ` set (clients s) \<Longrightarrow> q \<notin> set (opened [r]) \<Longrightarrow> sent_to q (snd (serve r s)) = []" (is "_ \<Longrightarrow> _ \<Longrightarrow> ?others")
proof -
  show ?spoken using assms by (cases rule: round_cases [where r = r and s = s]) (auto simp: handle_join_def MAX_CLIENTS_def server_says_join Let_def)
  show ?history if "length (history s) \<le> 100"
    using that by (cases rule: round_cases [where r = r and s = s]) (auto simp: handle_join_def MAX_CLIENTS_def server_says_join Let_def remember_history)
  show ?count using assms by (cases rule: round_cases [where r = r and s = s]) (auto simp: handle_join_def MAX_CLIENTS_def server_says_join Let_def)
  show ?distinct if "distinct (map c_q (clients s) @ opened (r # rs))"
    using that by (cases rule: round_cases [where r = r and s = s])
      (auto simp: handle_join_def MAX_CLIENTS_def server_says_join Let_def split: if_splits)
  show ?sent if d: "distinct (map c_q (clients s) @ opened [r])" and c: "c \<in> set (clients s)" "c_q c \<noteq> - 1"
  proof (cases rule: round_cases [where r = r and s = s])
    case (2 m q)
    let ?s = "remember (join_message (m_name m))
      (s\<lparr>clients := clients s @ [\<lparr>c_name = m_name m, c_qname = m_qname m, c_q = q\<rparr>]\<rparr>)"
    have "sent_to (c_q c) (send_to_all (join_message (m_name m)) ?s) = [join_message (m_name m)]"
      using d c 2 by (intro sent_to_all) auto
    moreover have "c_q c \<noteq> q" using d c 2 by auto
    ultimately show ?thesis using 2 by (simp add: handle_join_def MAX_CLIENTS_def server_says_join Let_def)
  next
    case (3 m q)
    then have "sent_to (c_q c) (send_to_all m (remember m s)) = [m]" using d c by (intro sent_to_all) auto
    with 3 show ?thesis by simp
  next
    case (4 m q)
    have "sent_to (c_q c) (snd (serve (Rx m q) s)) = []"
      using not_accepted(2) [OF 4(2,3)] d c 4(1) by (intro sent_to_notin) (force split: if_splits)
    with 4 show ?thesis by (auto simp del: serve.simps)
  qed simp
  show ?others if q: "q \<notin> c_q ` set (clients s)" "q \<notin> set (opened [r])"
  proof (rule sent_to_notin, cases rule: round_cases [where r = r and s = s])
    case (4 m q')
    then show "\<forall>p \<in> set (snd (serve r s)). fst p \<noteq> q" using not_accepted(2) [OF 4(2,3)] q by auto
  qed (use q in \<open>auto simp: handle_join_def MAX_CLIENTS_def server_says_join Let_def send_to_all_def\<close>)
qed

lemma serve_keeps_clients: "c \<in> set (clients s) \<Longrightarrow> c \<in> set (clients (fst (serve r s)))"
  by (cases r) (auto simp: handle_join_def Let_def)

text \<open>The history, the number of clients, and what those in the table and the others are sent, over a run.\<close>

lemma serve_all_history:
  "length (clients s) \<le> 10 \<Longrightarrow> length (history s) \<le> 100 \<Longrightarrow>
     history (fst (serve_all rs s)) = take 100 (history s @ spoken rs (length (clients s)))"
proof (induction rs arbitrary: s)
  case (Cons r rs)
  note r = serve_round(1) [OF Cons.prems(1), where r = r and rs = rs] serve_round(2,3) [OF Cons.prems(1), where r = r]
  have "length (clients (fst (serve r s))) \<le> 10" "length (history (fst (serve r s))) \<le> 100"
    using r(2,3) Cons.prems(2) by simp_all
  from Cons.IH [OF this] show ?case
    by (simp only: r(1) r(2) [OF Cons.prems(2)] append_assoc [symmetric] take_take_append fst_conv serve_all.simps
        case_prod_beta Let_def)
qed simp

lemma serve_all_count:
  "length (clients s) \<le> 10 \<Longrightarrow>
     length (clients (fst (serve_all rs s))) = min 10 (length (clients s) + length (opened rs))"
proof (induction rs arbitrary: s)
  case (Cons r rs)
  note r = serve_round(3) [OF Cons.prems, where r = r]
  have "length (opened (r # rs)) = length (opened [r]) + length (opened rs)"
    using opened_append [of "[r]" rs] by simp
  with Cons.IH [of "fst (serve r s)"] r show ?case by (simp add: case_prod_beta Let_def del: serve.simps opened.simps)
qed simp

lemma serve_all_distinct:
  "length (clients s) \<le> 10 \<Longrightarrow> distinct (map c_q (clients s) @ opened (rs @ rs')) \<Longrightarrow>
     distinct (map c_q (clients (fst (serve_all rs s))) @ opened rs')"
proof (induction rs arbitrary: s)
  case (Cons r rs)
  have "length (clients (fst (serve r s))) \<le> 10" using serve_round(3) [OF Cons.prems(1), where r = r] by simp
  from Cons.IH [OF this] serve_round(4) [OF Cons.prems(1), of r "rs @ rs'"] Cons.prems(2)
  show ?case by (simp add: case_prod_beta Let_def del: serve.simps opened.simps)
qed simp

lemma spoken_append:
  "length (clients s) \<le> 10 \<Longrightarrow> spoken (rs @ rs') (length (clients s)) =
     spoken rs (length (clients s)) @ spoken rs' (length (clients (fst (serve_all rs s))))"
proof (induction rs arbitrary: s)
  case (Cons r rs)
  note r = serve_round(1) [OF Cons.prems, where r = r and rs = rs] serve_round(3) [OF Cons.prems, where r = r]
  have "length (clients (fst (serve r s))) \<le> 10" using r(2) by simp
  from Cons.IH [OF this] r(1) serve_round(1) [OF Cons.prems, of r "rs @ rs'"] show ?case by (simp add: case_prod_beta Let_def del: serve.simps spoken.simps)
qed simp

lemma serve_queues: "c_q ` set (clients (fst (serve r s))) \<subseteq> c_q ` set (clients s) \<union> set (opened [r])"
  by (cases rule: round_cases [where r = r and s = s]) (auto simp: handle_join_def MAX_CLIENTS_def Let_def)

lemma serve_all_sends_nothing:
  "length (clients s) \<le> 10 \<Longrightarrow> q \<notin> c_q ` set (clients s) \<Longrightarrow> q \<notin> set (opened rs) \<Longrightarrow>
     sent_to q (snd (serve_all rs s)) = [] \<and> q \<notin> c_q ` set (clients (fst (serve_all rs s)))"
proof (induction rs arbitrary: s)
  case (Cons r rs)
  have o: "q \<notin> set (opened [r])" "q \<notin> set (opened rs)" using Cons.prems(3) opened_append [of "[r]" rs] by auto
  have "length (clients (fst (serve r s))) \<le> 10" using serve_round(3) [OF Cons.prems(1), where r = r] by simp
  from Cons.IH [OF this _ o(2)] serve_round(6) [OF Cons.prems(1,2) o(1)] serve_queues [of r s] Cons.prems(2) o(1)
  show ?case by (auto simp: case_prod_beta Let_def simp del: serve.simps opened.simps)
qed simp

lemma serve_all_sends:
  "length (clients s) \<le> 10 \<Longrightarrow> distinct (map c_q (clients s) @ opened rs) \<Longrightarrow> c \<in> set (clients s) \<Longrightarrow> c_q c \<noteq> - 1 \<Longrightarrow>
     sent_to (c_q c) (snd (serve_all rs s)) = spoken rs (length (clients s)) \<and> c \<in> set (clients (fst (serve_all rs s)))"
proof (induction rs arbitrary: s)
  case (Cons r rs)
  note r = serve_round(1) [OF Cons.prems(1), where r = r and rs = rs] serve_round(3) [OF Cons.prems(1), where r = r] serve_round(4) [OF Cons.prems(1,2)]
  have d: "distinct (map c_q (clients s) @ opened [r])" using Cons.prems(2) opened_append [of "[r]" rs] by auto
  have "length (clients (fst (serve r s))) \<le> 10" using r(2) by simp
  from Cons.IH [OF this r(3) serve_keeps_clients [OF Cons.prems(3)] Cons.prems(4)] serve_round(5) [OF Cons.prems(1) d Cons.prems(3,4)]
  show ?case unfolding r(1) by (simp add: case_prod_beta Let_def del: serve.simps spoken.simps opened.simps)
qed simp

text \<open>
  Property C1. A client that joins while the server has room for it, whoever joins and writes before (\<open>before\<close>) and
  after (\<open>after\<close>), stays in the table with its name and its queue. In the order they were said it
  is sent the first 100 messages said before it joined, and then its own join and every message said since. As long
  as no more than 100 messages have been said, that is everything, so all clients have been sent the same.
\<close>

theorem clients_are_sent_transcript:
  fixes m :: chat_msg and q :: int and before after :: "rx list"
  assumes "m_type m = CHR ''J''" and "q \<noteq> - 1" and "length (opened before) < 10"
    and "distinct (opened (before @ Rx m q # after))"
    and "serve_all (before @ Rx m q # after) init_server = (s, out)"
  shows "(\<exists>c \<in> set (clients s). c_q c = q \<and> c_name c = m_name m) \<and>
         sent_to q out = take 100 (spoken before 0) @ join_message (m_name m) # spoken after (Suc (length (opened before))) \<and>
         (length (spoken (before @ Rx m q # after) 0) \<le> 100 \<longrightarrow> sent_to q out = spoken (before @ Rx m q # after) 0)"
proof -
  obtain s0 out0 where s0: "serve_all before init_server = (s0, out0)" by fastforce
  define c where "c = \<lparr>c_name = m_name m, c_qname = m_qname m, c_q = q\<rparr>"
  define s1 where "s1 = remember (join_message (m_name m)) (s0\<lparr>clients := clients s0 @ [c]\<rparr>)"
  have init: "length (clients init_server) \<le> 10" "length (history init_server) \<le> 100" by (simp_all add: init_server_def)
  have q: "q \<notin> set (opened before)" "distinct (opened before @ opened [Rx m q] @ opened after)"
    using assms(1,2,4) by auto
  have h: "history s0 = take 100 (spoken before 0)"
    using serve_all_history [OF init, of before] s0 by (simp add: init_server_def)
  have n: "length (clients s0) = length (opened before)"
    using serve_all_count [OF init(1), of before] s0 assms(3) by (simp add: init_server_def)
  have quiet: "sent_to q out0 = []"
    using serve_all_sends_nothing [OF init(1) _ q(1)] s0 by (simp add: init_server_def)
  have d0: "distinct (map c_q (clients s0) @ opened (Rx m q # after))"
    using serve_all_distinct [OF init(1), of before "Rx m q # after"] assms(4) s0 by (simp add: init_server_def)
  have join: "serve (Rx m q) s0 = (s1, map (\<lambda>h. (q, h)) (history s0) @ send_to_all (join_message (m_name m)) s1)"
    using join_accepted [OF assms(1) _ assms(2), of s0] n assms(3) by (simp add: s1_def c_def)
  have c: "c \<in> set (clients s1)" "c_q c = q" "length (clients s1) = Suc (length (opened before))"
    by (simp_all add: s1_def c_def n)
  have d1: "distinct (map c_q (clients s1) @ opened after)"
    using serve_round(4) [OF _ d0] join n assms(3) by simp
  have "sent_to q (send_to_all (join_message (m_name m)) s1) = [join_message (m_name m)]"
    using sent_to_all [of s1 c] d1 c(1,2) assms(2) by simp
  moreover have "sent_to q (snd (serve_all after s1)) = spoken after (Suc (length (opened before)))"
    "c \<in> set (clients (fst (serve_all after s1)))"
    using serve_all_sends [OF _ d1 c(1)] c assms(2,3) by simp_all
  moreover have "s = fst (serve_all after s1)"
    "out = out0 @ map (\<lambda>h. (q, h)) (history s0) @ send_to_all (join_message (m_name m)) s1 @ snd (serve_all after s1)"
    using assms(5) by (auto simp: serve_all_append s0 join case_prod_beta Let_def simp del: serve.simps)
  ultimately have "\<exists>c \<in> set (clients s). c_q c = q \<and> c_name c = m_name m" and
    all: "sent_to q out = take 100 (spoken before 0) @ join_message (m_name m) # spoken after (Suc (length (opened before)))"
    using quiet h by (force simp: c_def)+
  moreover have "spoken (before @ Rx m q # after) 0 =
      spoken before 0 @ join_message (m_name m) # spoken after (Suc (length (opened before)))"
    using spoken_append [of init_server before "Rx m q # after"] init(1) n assms(1-3) s0 by (simp add: init_server_def)
  ultimately show ?thesis by simp
qed

text \<open>Ann joins and writes, then Bob joins, and Ann writes again.\<close>

definition ann_says :: "string \<Rightarrow> chat_msg" where
  "ann_says t = \<lparr>m_type = CHR ''M'', m_name = ''Ann'', m_qname = [], m_text = t\<rparr>"

theorem clients_are_sent_transcript_witness:
  "map shown (sent_to 8 (snd (serve_all [Rx (client_join ''Ann'' 501) 7, Rx (ann_says ''hello'') 0,
       Rx (client_join ''Bob'' 502) 8, Rx (ann_says ''bye'') 0] init_server))) =
     [''[Ann joined chat]'' @ [NL], ''Ann: hello'' @ [NL], ''[Bob joined chat]'' @ [NL], ''Ann: bye'' @ [NL]]"
proof -
  let ?b = "[Rx (client_join ''Ann'' 501) 7, Rx (ann_says ''hello'') 0]" and ?a = "[Rx (ann_says ''bye'') 0]"
    and ?m = "client_join ''Bob'' 502"
  have "m_type ?m = CHR ''J''" "length (opened ?b) < 10" "distinct (opened (?b @ Rx ?m 8 # ?a))"
    by (simp_all add: client_join_def ann_says_def)
  from clients_are_sent_transcript [OF this(1) _ this(2,3) prod.collapse [symmetric]]
  have "sent_to 8 (snd (serve_all (?b @ Rx ?m 8 # ?a) init_server)) =
      take 100 (spoken ?b 0) @ join_message (m_name ?m) # spoken ?a (Suc (length (opened ?b)))"
    by simp
  moreover have "map shown (take 100 (spoken ?b 0) @ join_message (m_name ?m) # spoken ?a (Suc (length (opened ?b)))) =
      [''[Ann joined chat]'' @ [NL], ''Ann: hello'' @ [NL], ''[Bob joined chat]'' @ [NL], ''Ann: bye'' @ [NL]]"
    by code_simp
  ultimately show ?thesis by (simp del: serve_all.simps)
qed

text \<open>
  Property C32. A line typed into a client reaches every client in the server's table exactly once, which
  shows it with the name of the writer in front; only \<open>/quit\<close> is not sent. The server keeps
  its table, and its history when that has 100 messages.
\<close>

theorem typed_line_reaches_all:
  assumes "length nick < MAX_NAME" and "length line < MAX_TEXT" and "line \<noteq> ''/quit''"
    and "distinct (map c_q (clients s))" and "c \<in> set (clients s)" and "c_q c \<noteq> - 1"
  shows "\<exists>m s' out. client_line nick line = Some m \<and> serve (Rx m q) s = (s', out) \<and> clients s' = clients s \<and>
           map shown (sent_to (c_q c) out) = [nick @ '': '' @ line @ [NL]] \<and>
           history s' = (if length (history s) < MAX_HISTORY then history s @ [m] else history s)"
proof -
  let ?m = "\<lparr>m_type = CHR ''M'', m_name = nick, m_qname = [], m_text = line\<rparr>"
  have "client_line nick line = Some ?m"
    using assms by (simp add: client_line_def Let_def)
  moreover have "sent_to (c_q c) (send_to_all ?m (remember ?m s)) = [?m]"
    using assms by (intro sent_to_all) auto
  ultimately show ?thesis
    by (simp add: Let_def shown_def remember_def split: if_splits)
qed

theorem typed_line_reaches_all_witness:
  "\<exists>m s' out. client_line ''Ann'' ''hi'' = Some m \<and>
     serve (Rx m 0) \<lparr>clients = [\<lparr>c_name = ''Bob'', c_qname = ''/chat_9'', c_q = 4\<rparr>], history = []\<rparr> = (s', out) \<and>
     map shown (sent_to 4 out) = [''Ann: hi'' @ [NL]]"
  using typed_line_reaches_all [of "''Ann''" "''hi''"
      "\<lparr>clients = [\<lparr>c_name = ''Bob'', c_qname = ''/chat_9'', c_q = 4\<rparr>], history = []\<rparr>"
      "\<lparr>c_name = ''Bob'', c_qname = ''/chat_9'', c_q = 4\<rparr>" 0]
  by (auto simp: MAX_NAME_def MAX_TEXT_def simp del: serve.simps)

text \<open>
  The table only grows: no message removes a client, so once ten have joined, every later
  join is answered with a rejection and changes nothing, even when all ten have quit.
\<close>

lemma table_stays_full:
  assumes "length (clients s) = MAX_CLIENTS"
  shows "clients (fst (serve_all rs s)) = clients s \<and>
         (m_type m = CHR ''J'' \<longrightarrow> q \<noteq> - 1 \<longrightarrow>
            serve (Rx m q) (fst (serve_all rs s)) =
              (fst (serve_all rs s), [(q, server_says (''Too many clients, '' @ m_name m @ '' rejected''))]))"
proof -
  have one: "clients (fst (serve r s')) = clients s'" if "length (clients s') = MAX_CLIENTS" for r s'
    using that by (cases r) (auto simp: handle_join_def)
  have "clients (fst (serve_all rs s)) = clients s"
    using assms
  proof (induction rs arbitrary: s)
    case (Cons r rs)
    with one [OF Cons.prems, of r] Cons.IH [of "fst (serve r s)"] show ?case
      by (simp add: case_prod_beta Let_def)
  qed simp
  with assms show ?thesis by (simp add: handle_join_def)
qed

lemma table_stays_full_witness:
  "serve (Rx (client_join ''Eve'' 7) 99)
      (fst (serve_all [] (fst (serve_all (map (\<lambda>q. Rx (client_join ''X'' q) q) [1 .. 10]) init_server)))) =
    (fst (serve_all (map (\<lambda>q. Rx (client_join ''X'' q) q) [1 .. 10]) init_server),
     [(99, server_says ''Too many clients, Eve rejected'')])"
proof -
  have "length (clients (fst (serve_all (map (\<lambda>q. Rx (client_join ''X'' q) q) [1 .. 10]) init_server))) = MAX_CLIENTS"
    by code_simp
  from table_stays_full [OF this, of "[]" "client_join ''Eve'' 7" 99] show ?thesis
    by (simp add: client_join_def MAX_NAME_def)
qed

section \<open>What is closed\<close>

text \<open>The descriptors that joins leave open: those of a rejected client are closed at once.\<close>

fun kept_open :: "rx list \<Rightarrow> chat_server \<Rightarrow> int list" where
  "kept_open [] s = []"
| "kept_open (r # rs) s =
     (case r of
        RxFailed \<Rightarrow> []
      | Rx m q \<Rightarrow> if m_type m = CHR ''J'' \<and> q \<noteq> - 1 \<and> length (clients s) < MAX_CLIENTS then [q] else [])
     @ kept_open rs (fst (serve r s))"

lemma serve_all_descriptors:
  "map c_q (clients (fst (serve_all rs s))) = map c_q (clients s) @ kept_open rs s"
proof (induction rs arbitrary: s)
  case (Cons r rs)
  have "map c_q (clients (fst (serve r s))) = map c_q (clients s) @
      (case r of RxFailed \<Rightarrow> []
       | Rx m q \<Rightarrow> if m_type m = CHR ''J'' \<and> q \<noteq> - 1 \<and> length (clients s) < MAX_CLIENTS then [q] else [])"
    by (cases r) (auto simp: handle_join_def Let_def)
  with Cons [of "fst (serve r s)"] show ?case by (simp add: case_prod_beta Let_def)
qed simp

lemma kept_open_opened: "- 1 \<notin> set (kept_open rs s)"
  by (induction rs s rule: kept_open.induct) (auto split: rx.splits)

text \<open>The signal's handler closes every descriptor the server holds, each once and in the order of the joins.\<close>

lemma cleanup_closes_all:
  assumes "server_q \<noteq> - 1"
  shows "\<exists>out. queue_server_main server_q rs =
    ([SRV_QUEUE], Some (out, server_q # kept_open rs init_server, [SRV_QUEUE]))"
proof -
  have "filter (\<lambda>q. q \<noteq> - 1) (kept_open rs init_server) = kept_open rs init_server"
    using kept_open_opened [of rs init_server] by (intro filter_True) auto
  moreover have "map c_q (clients (fst (serve_all rs init_server))) = kept_open rs init_server"
    using serve_all_descriptors [of rs init_server] by (simp add: init_server_def)
  ultimately show ?thesis
    using assms by (simp add: queue_server_main_def cleanup_def case_prod_beta Let_def)
qed

section \<open>What fits the structures\<close>

text \<open>
  The strings of a message that fit its fields with their NUL, and a server whose tables and copies are within their
  arrays: what the \<open>strcpy\<close> calls of \<open>handle_join\<close> rely on.
\<close>

definition fits_msg :: "chat_msg \<Rightarrow> bool" where
  "fits_msg m = (length (m_name m) < MAX_NAME \<and> length (m_qname m) < 64 \<and> length (m_text m) < MAX_TEXT)"

definition fits_client :: "client_info \<Rightarrow> bool" where
  "fits_client c = (length (c_name c) < MAX_NAME \<and> length (c_qname c) < 64 \<and> c_q c \<noteq> - 1)"

definition fits_server :: "chat_server \<Rightarrow> bool" where
  "fits_server s =
     (length (clients s) \<le> MAX_CLIENTS \<and> length (history s) \<le> MAX_HISTORY
      \<and> (\<forall>c \<in> set (clients s). fits_client c) \<and> (\<forall>m \<in> set (history s). fits_msg m))"

fun fits_rx :: "rx \<Rightarrow> bool" where
  "fits_rx RxFailed = True"
| "fits_rx (Rx m q) = fits_msg m"

definition fits_sends :: "sends \<Rightarrow> bool" where
  "fits_sends out = (\<forall>(q, m) \<in> set out. q \<noteq> - 1 \<and> fits_msg m)"

lemma fits_made [simp]: "fits_msg (server_says t)" "fits_msg (client_join nick pid)"
  "client_line nick typed = Some m \<Longrightarrow> fits_msg m"
  by (auto simp: fits_msg_def server_says_def client_join_def client_line_def snprintf_buf_def MAX_NAME_def MAX_TEXT_def Let_def
      split: if_splits)

lemma fits_sends_Nil [simp]: "fits_sends []"
  by (simp add: fits_sends_def)

lemma fits_remember: "fits_server s \<Longrightarrow> fits_msg m \<Longrightarrow> fits_server (remember m s)"
  by (auto simp: fits_server_def remember_def)

lemma fits_broadcast: "fits_server s \<Longrightarrow> fits_msg m \<Longrightarrow> fits_sends (send_to_all m s)"
  by (auto simp: fits_sends_def send_to_all_def)

lemma fits_join:
  assumes "fits_server s" "fits_msg m"
  shows "fits_server (fst (handle_join q m s)) \<and> fits_sends (snd (handle_join q m s))"
proof (cases "length (clients s) \<ge> MAX_CLIENTS \<or> q = - 1")
  case True
  with assms(1) show ?thesis by (auto simp: handle_join_def fits_sends_def)
next
  case False
  let ?s = "s\<lparr>clients := clients s @ [\<lparr>c_name = m_name m, c_qname = m_qname m, c_q = q\<rparr>]\<rparr>"
  have s: "fits_server ?s" using assms False by (auto simp: fits_server_def fits_client_def fits_msg_def)
  let ?j = "server_says (m_name m @ '' joined chat'')"
  have "fits_server (remember ?j ?s)" "fits_sends (send_to_all ?j (remember ?j ?s))"
    using s by (simp_all add: fits_remember fits_broadcast)
  moreover have "fits_sends (map (\<lambda>h. (q, h)) (history ?s))"
    using s False by (auto simp: fits_sends_def fits_server_def)
  ultimately show ?thesis using False by (auto simp: handle_join_def Let_def fits_sends_def)
qed

lemma fits_serve:
  "fits_server s \<Longrightarrow> fits_rx r \<Longrightarrow> fits_server (fst (serve r s)) \<and> fits_sends (snd (serve r s))"
  by (cases r) (auto simp: fits_join handle_message_def fits_remember fits_broadcast Let_def)

lemma fits_serve_all:
  "fits_server s \<Longrightarrow> \<forall>r \<in> set rs. fits_rx r \<Longrightarrow> fits_server (fst (serve_all rs s)) \<and> fits_sends (snd (serve_all rs s))"
proof (induction rs arbitrary: s)
  case (Cons r rs)
  then have "fits_server (fst (serve r s))" "fits_sends (snd (serve r s))" using fits_serve [of s r] by simp_all
  with Cons show ?case by (auto simp: case_prod_beta Let_def fits_sends_def)
qed (simp add: fits_sends_def)

text \<open>
  Property C28. As long as the server's queue gets only what clients put there, and failed receives, every string it
  copies fits the field it is copied to, its two tables stay within their arrays, and all it
  sends are well-formed messages to open queues.
\<close>

theorem server_stays_within_structures:
  assumes "\<forall>r \<in> set rs. r = RxFailed \<or> (\<exists>q nick pid. r = Rx (client_join nick pid) q)
      \<or> (\<exists>q nick typed m. client_line nick typed = Some m \<and> r = Rx m q)"
  shows "fits_server (fst (serve_all rs init_server)) \<and> fits_sends (snd (serve_all rs init_server))"
proof (rule fits_serve_all)
  show "fits_server init_server" by (simp add: fits_server_def init_server_def)
  show "\<forall>r \<in> set rs. fits_rx r" using assms by (auto simp del: fits_rx.simps) (auto simp: fits_made)
qed

theorem server_stays_within_structures_witness:
  "fits_server (fst (serve_all [RxFailed, Rx (client_join (replicate 40 CHR ''n'') 7) 4] init_server))
   \<and> fits_sends (snd (serve_all [RxFailed, Rx (client_join (replicate 40 CHR ''n'') 7) 4] init_server))
   \<and> length (clients (fst (serve_all [RxFailed, Rx (client_join (replicate 40 CHR ''n'') 7) 4] init_server))) = 1"
proof -
  have "length (clients (fst (serve_all [RxFailed, Rx (client_join (replicate 40 CHR ''n'') 7) 4] init_server))) = 1"
    by (simp add: client_join_def handle_join_def init_server_def MAX_CLIENTS_def remember_def Let_def)
  with server_stays_within_structures [of "[RxFailed, Rx (client_join (replicate 40 CHR ''n'') 7) 4]"] show ?thesis
    by (simp only: set_simps list.simps ball_simps) blast
qed

section \<open>The queues\<close>

text \<open>
  The server beside the queues of its clients. \<open>pending\<close> are the sends of the handler at work that
  are not made yet; a queue holds \<open>mq_maxmsg\<close> messages, and \<open>mq_send\<close> on a full queue waits. A client
  reads its queue in steps of its own. An \<open>mq_send\<close> may also fail and is then passed over.
\<close>

definition MQ_MAXMSG :: nat where "MQ_MAXMSG = 10"

record chat_system =
  server :: chat_server
  pending :: sends
  queues :: "int \<Rightarrow> chat_msg list"

datatype chat_act = Receive rx | Send | SendFails | Read int

fun act :: "chat_act \<Rightarrow> chat_system \<Rightarrow> chat_system option" where
  "act (Receive r) y =
     (if pending y = [] then
        (let (s, out) = serve r (server y) in Some (y\<lparr>server := s, pending := out\<rparr>))
      else None)"
| "act Send y =
     (case pending y of
        [] \<Rightarrow> None
      | (q, m) # out \<Rightarrow>
          if length (queues y q) < MQ_MAXMSG
          then Some (y\<lparr>pending := out, queues := (queues y)(q := queues y q @ [m])\<rparr>) else None)"
| "act SendFails y =
     (case pending y of
        [] \<Rightarrow> None
      | (q, m) # out \<Rightarrow> if length (queues y q) < MQ_MAXMSG then Some (y\<lparr>pending := out\<rparr>) else None)"
| "act (Read q) y =
     (case queues y q of [] \<Rightarrow> None | m # ms \<Rightarrow> Some (y\<lparr>queues := (queues y)(q := ms)\<rparr>))"

abbreviation acts :: "chat_act list \<Rightarrow> chat_system \<Rightarrow> chat_system option" where
  "acts \<equiv> run_steps act"

fun said :: "chat_act \<Rightarrow> bool" where
  "said (Receive (Rx m q)) = (m_type m = CHR ''M'')"
| "said _ = False"

text \<open>The queue of a client that reads no more stays full, and a send to it stays pending.\<close>

lemma act_full_queue:
  assumes "act a y = Some y'" "a \<noteq> Read q" "length (queues y q) = MQ_MAXMSG"
  shows "length (queues y' q) = MQ_MAXMSG \<and> (q \<in> fst ` set (pending y) \<longrightarrow> q \<in> fst ` set (pending y'))"
  using assms by (cases a) (auto split: list.splits if_splits prod.splits)

lemma act_pending_no_receive:
  "act a y = Some y' \<Longrightarrow> pending y \<noteq> [] \<Longrightarrow> \<not> said a"
  by (cases a) auto

lemma act_keeps_clients: "act a y = Some y' \<Longrightarrow> c \<in> set (clients (server y)) \<Longrightarrow> c \<in> set (clients (server y'))"
  using serve_keeps_clients [of c "server y"]
  by (cases a) (auto simp: case_prod_beta Let_def split: list.splits if_splits)

lemma act_said_pends:
  assumes "act a y = Some y'" "said a" "c \<in> set (clients (server y))" "c_q c \<noteq> - 1"
  shows "c_q c \<in> fst ` set (pending y')"
proof -
  from assms obtain m q where "a = Receive (Rx m q)" "m_type m = CHR ''M''" by (cases a rule: said.cases) auto
  with assms have "pending y' = send_to_all m (remember m (server y))"
    by (auto split: if_splits)
  with assms show ?thesis by (force simp: send_to_all_def)
qed

lemma pending_full_says_nothing:
  "acts as y = Some y' \<Longrightarrow> Read q \<notin> set as \<Longrightarrow> length (queues y q) = MQ_MAXMSG \<Longrightarrow>
     q \<in> fst ` set (pending y) \<Longrightarrow> filter said as = []"
proof (induction as arbitrary: y)
  case (Cons a as)
  then obtain y1 where y1: "act a y = Some y1" "acts as y1 = Some y'" by (auto split: option.splits)
  from act_full_queue [OF y1(1), of q] Cons.prems Cons.IH [OF y1(2)] have "filter said as = []" by auto
  moreover from Cons.prems have "pending y \<noteq> []" by auto
  with act_pending_no_receive [OF y1(1)] have "\<not> said a" by blast
  ultimately show ?case by simp
qed simp

text \<open>
  Property C20. A client that has quit stops the chat: no message takes it from the server's table, so
  messages are still sent to its queue, and nobody reads it. Once it holds ten messages, in every
  further course of events the server takes up at most one more message of anybody: it waits in
  \<open>mq_send\<close> for ever.
\<close>

theorem quit_client_stops_chat:
  assumes "c \<in> set (clients (server y))" and "c_q c \<noteq> - 1"
    and "length (queues y (c_q c)) = MQ_MAXMSG" and "Read (c_q c) \<notin> set as" and "acts as y = Some y'"
  shows "length (filter said as) \<le> 1"
  using assms(1,3,4,5)
proof (induction as arbitrary: y)
  case (Cons a as)
  then obtain y1 where y1: "act a y = Some y1" "acts as y1 = Some y'" by (auto split: option.splits)
  have full: "length (queues y1 (c_q c)) = MQ_MAXMSG" using act_full_queue [OF y1(1), of "c_q c"] Cons.prems by auto
  show ?case
  proof (cases "said a")
    case True
    from act_said_pends [OF y1(1) this Cons.prems(1) assms(2)]
    have "filter said as = []" using pending_full_says_nothing [OF y1(2) _ full] Cons.prems by auto
    then show ?thesis by simp
  next
    case False
    with Cons.IH [OF act_keeps_clients [OF y1(1)] full _ y1(2)] Cons.prems show ?thesis by auto
  qed
qed simp

definition hello :: chat_act where
  "hello = Receive (Rx \<lparr>m_type = CHR ''M'', m_name = ''Bob'', m_qname = [], m_text = ''hello''\<rparr> 0)"

definition empty_system :: chat_system where
  "empty_system = \<lparr>server = init_server, pending = [], queues = \<lambda>_. []\<rparr>"

text \<open>Ann joins and quits; nine messages later her queue is full. Of two more only one is taken up.\<close>

definition ann_quits :: "chat_act list" where
  "ann_quits = Receive (Rx (client_join ''Ann'' 501) 7) # Send # concat (replicate 9 [hello, Send])"

lemma ann_quits_run:
  "\<exists>y. acts ann_quits empty_system = Some y \<and> map c_q (clients (server y)) = [7] \<and>
     length (queues y 7) = 10 \<and> acts [hello] y \<noteq> None"
proof -
  have "acts ann_quits empty_system \<noteq> None" by code_simp
  moreover have "map c_q (clients (server (the (acts ann_quits empty_system)))) = [7]"
    "length (queues (the (acts ann_quits empty_system)) 7) = 10"
    "\<not> Option.is_none (acts [hello] (the (acts ann_quits empty_system)))"
    by code_simp+
  ultimately show ?thesis by (auto simp: Option.is_none_def)
qed

theorem quit_client_stops_chat_witness:
  "\<exists>y. acts ann_quits empty_system = Some y \<and> acts [hello] y \<noteq> None \<and> acts [hello, hello] y = None \<and>
     acts [hello, Send, hello] y = None"
proof -
  obtain y c where y: "acts ann_quits empty_system = Some y" "acts [hello] y \<noteq> None"
    "length (queues y 7) = 10" "c \<in> set (clients (server y))" "c_q c = 7"
    using ann_quits_run by fastforce
  have "acts as y = None" if "1 < length (filter said as)" "Read 7 \<notin> set as" for as
    using quit_client_stops_chat [of c y as] y that by (cases "acts as y") (auto simp: MQ_MAXMSG_def)
  from this [of "[hello, hello]"] this [of "[hello, Send, hello]"] y show ?thesis
    by (auto simp: hello_def)
qed

section \<open>The two threads of the client\<close>

text \<open>
  The main thread locks the screen, draws the input line, waits in \<open>wgetnstr\<close> for a line, unlocks
  and sends; the receiving thread takes a message from the client's queue, locks, prints, unlocks.
  Both share \<open>screen_mutex\<close>. An action of a thread that cannot go on has no result.
\<close>

datatype main_pc = AtLock | AtInput | AtSend chat_msg | Left
datatype recv_pc = AtReceive | Waiting chat_msg | Printing chat_msg | Ended

record chat_client =
  mutex_held :: bool
  main_at :: main_pc
  recv_at :: recv_pc
  inbox :: "chat_msg list"
  screen :: "string list"
  mailed :: "chat_msg list"

definition init_client :: chat_client where
  "init_client = \<lparr>mutex_held = False, main_at = AtLock, recv_at = AtReceive, inbox = [], screen = [], mailed = []\<rparr>"

datatype thread_act = Main_lock | Typed string | Main_send bool | Arrive chat_msg
  | Take | Take_fails | Recv_lock | Recv_print

fun receiver_step :: "thread_act \<Rightarrow> chat_client \<Rightarrow> chat_client option" where
  "receiver_step Take k =
     (case (recv_at k, inbox k) of
        (AtReceive, m # ms) \<Rightarrow> Some (k\<lparr>recv_at := Waiting m, inbox := ms\<rparr>)
      | _ \<Rightarrow> None)"
| "receiver_step Take_fails k = (if recv_at k = AtReceive then Some (k\<lparr>recv_at := Ended\<rparr>) else None)"
| "receiver_step Recv_lock k =
     (case recv_at k of
        Waiting m \<Rightarrow> if mutex_held k then None else Some (k\<lparr>mutex_held := True, recv_at := Printing m\<rparr>)
      | _ \<Rightarrow> None)"
| "receiver_step Recv_print k =
     (case recv_at k of
        Printing m \<Rightarrow> Some (k\<lparr>screen := screen k @ [shown m], mutex_held := False, recv_at := AtReceive\<rparr>)
      | _ \<Rightarrow> None)"
| "receiver_step _ k = None"

fun thread_step :: "string \<Rightarrow> thread_act \<Rightarrow> chat_client \<Rightarrow> chat_client option" where
  "thread_step nick Main_lock k =
     (if main_at k = AtLock \<and> \<not> mutex_held k then Some (k\<lparr>mutex_held := True, main_at := AtInput\<rparr>) else None)"
| "thread_step nick (Typed line) k =
     (if main_at k = AtInput then
        Some (k\<lparr>mutex_held := False,
                main_at := (case client_line nick line of None \<Rightarrow> Left | Some m \<Rightarrow> AtSend m)\<rparr>)
      else None)"
| "thread_step nick (Main_send ok) k =
     (case main_at k of
        AtSend m \<Rightarrow> Some (k\<lparr>mailed := (if ok then mailed k @ [m] else mailed k), main_at := AtLock\<rparr>)
      | _ \<Rightarrow> None)"
| "thread_step nick (Arrive m) k = Some (k\<lparr>inbox := inbox k @ [m]\<rparr>)"
| "thread_step nick Take k = receiver_step Take k"
| "thread_step nick Take_fails k = receiver_step Take_fails k"
| "thread_step nick Recv_lock k = receiver_step Recv_lock k"
| "thread_step nick Recv_print k = receiver_step Recv_print k"

abbreviation thread_steps :: "string \<Rightarrow> thread_act list \<Rightarrow> chat_client \<Rightarrow> chat_client option" where
  "thread_steps nick \<equiv> run_steps (thread_step nick)"

fun in_hand :: "recv_pc \<Rightarrow> chat_msg list" where
  "in_hand (Waiting m) = [m]"
| "in_hand (Printing m) = [m]"
| "in_hand _ = []"

fun arrival :: "thread_act \<Rightarrow> chat_msg list" where
  "arrival (Arrive m) = [m]"
| "arrival _ = []"

definition arrivals :: "thread_act list \<Rightarrow> chat_msg list" where
  "arrivals as = concat (map arrival as)"

text \<open>Who holds the mutex: the main thread at its input, or the receiving thread while it prints.\<close>

definition mutex_ok :: "chat_client \<Rightarrow> bool" where
  "mutex_ok k =
     (mutex_held k = (main_at k = AtInput \<or> (\<exists>m. recv_at k = Printing m)) \<and>
      \<not> (main_at k = AtInput \<and> (\<exists>m. recv_at k = Printing m)))"

lemma thread_step_mutex_ok: "thread_step nick a k = Some k' \<Longrightarrow> mutex_ok k \<Longrightarrow> mutex_ok k'"
  by (cases a) (auto simp: mutex_ok_def split: if_splits main_pc.splits recv_pc.splits list.splits option.splits)

interpretation thread: kept_invariant "thread_step nick" mutex_ok for nick
  by unfold_locales (rule thread_step_mutex_ok)

text \<open>The messages that have arrived, shown or not.\<close>

definition so_far :: "chat_client \<Rightarrow> string list" where
  "so_far k = screen k @ map shown (in_hand (recv_at k) @ inbox k)"

lemma thread_step_messages:
  "thread_step nick a k = Some k' \<Longrightarrow> so_far k' = so_far k @ map shown (arrival a)"
  by (cases a) (auto simp: so_far_def split: if_splits main_pc.splits recv_pc.splits list.splits option.splits)

lemma thread_step_typing:
  "thread_step nick a k = Some k' \<Longrightarrow> mutex_ok k \<Longrightarrow> main_at k = AtInput \<Longrightarrow> \<nexists>l. a = Typed l \<Longrightarrow>
     main_at k' = AtInput \<and> screen k' = screen k"
  by (cases a) (auto simp: mutex_ok_def split: if_splits main_pc.splits recv_pc.splits list.splits)

lemma thread_steps_typing:
  "thread_steps nick as k = Some k' \<Longrightarrow> mutex_ok k \<Longrightarrow> main_at k = AtInput \<Longrightarrow> \<forall>l. Typed l \<notin> set as \<Longrightarrow>
     screen k' = screen k"
proof (induction as arbitrary: k)
  case (Cons a as)
  then obtain k1 where k1: "thread_step nick a k = Some k1" "thread_steps nick as k1 = Some k'"
    by (auto split: option.splits)
  have "main_at k1 = AtInput \<and> screen k1 = screen k"
    using thread_step_typing [OF k1(1)] Cons.prems by auto
  with Cons.IH [OF k1(2) thread_step_mutex_ok [OF k1(1)]] Cons.prems show ?case by auto
qed simp

lemma thread_steps_messages:
  assumes "thread_steps nick as k = Some k'" "mutex_ok k"
  shows "so_far k' = so_far k @ map shown (arrivals as)"
  using thread.run_accumulates [where measure_of = so_far and gives = "\<lambda>a. map shown (arrival a)",
      OF thread_step_messages assms] by (simp add: arrivals_def map_concat comp_def)

text \<open>
  Property C33. The client shows the messages of its queue in the order they arrive, none lost and none
  twice: what is on the screen, then the one in the receiving thread's hands, then what is left in
  the queue, is all that has arrived. But the main thread holds \<open>screen_mutex\<close> while it waits for the
  user, so until the next line is typed nothing that arrives is shown, in whatever order the threads run.
\<close>

theorem client_shows_in_order_between_lines:
  assumes "thread_steps nick as init_client = Some k" and "main_at k = AtInput"
    and "thread_steps nick as' k = Some k'" and "\<forall>l. Typed l \<notin> set as'"
  shows "screen k' @ map shown (in_hand (recv_at k') @ inbox k') = map shown (arrivals as @ arrivals as') \<and>
         screen k' = screen k"
proof -
  have i: "mutex_ok init_client" by (simp add: mutex_ok_def init_client_def)
  have k: "mutex_ok k" using thread.run_keeps [OF assms(1) i] .
  have "so_far k = map shown (arrivals as)"
    using thread_steps_messages [OF assms(1) i] by (simp add: so_far_def init_client_def)
  with thread_steps_messages [OF assms(3) k] thread_steps_typing [OF assms(3) k assms(2,4)]
  show ?thesis by (simp add: so_far_def)
qed

theorem client_shows_in_order_between_lines_witness:
  "\<exists>k k'. thread_steps ''Ann'' [Main_lock, Arrive (server_says ''hi'')] init_client = Some k \<and>
     thread_steps ''Ann'' [Take, Arrive (server_says ''you'')] k = Some k' \<and>
     screen k' = [] \<and> map shown (in_hand (recv_at k') @ inbox k') = [''[hi]'' @ [NL], ''[you]'' @ [NL]]"
proof -
  obtain k k' where k: "thread_steps ''Ann'' [Main_lock, Arrive (server_says ''hi'')] init_client = Some k"
    "thread_steps ''Ann'' [Take, Arrive (server_says ''you'')] k = Some k'" "main_at k = AtInput" "screen k = []"
    by (simp add: init_client_def)
  have "map shown [server_says ''hi'', server_says ''you''] = [''[hi]'' @ [NL], ''[you]'' @ [NL]]" by code_simp
  with client_shows_in_order_between_lines [OF k(1,3,2)] k show ?thesis by (auto simp: arrivals_def)
qed

end
