(* ===== verification/Chat_Shared.thy ===== *)
theory Chat_Shared
  imports C_Prelude Transition
begin

text \<open>
  The chat over System V shared memory: \<open>shared_memory/chat.h\<close>, \<open>chat_server.c\<close> and \<open>chat_client.c\<close>.
  The segment is shared by the threads of all clients, a receiving and a sending thread per client
  and its main thread while it joins. The model interleaves them statement by statement on the
  segment; the semaphore of the server is what keeps them apart. The component \<open>said\<close> is no part of
  the program: it records the messages in the order in which their writers count them in.
\<close>

section \<open>The segment and the threads\<close>

definition MAX_USERS :: nat where "MAX_USERS = 10"
definition MAX_MESSAGES :: nat where "MAX_MESSAGES = 100"
definition NAME_LEN :: nat where "NAME_LEN = 32"
definition TEXT_LEN :: nat where "TEXT_LEN = 256"

record chat_message =
  sender :: string
  msg_text :: string

text \<open>
  Where a thread is: outside of its critical section, in the section of \<open>sender_thread\<close> (\<open>S_\<close>), of
  \<open>receiver_thread\<close> (\<open>R_\<close>) or of the join in \<open>main\<close> (\<open>J_\<close>, which goes on as a sender), or
  in front of \<open>unlock_sem\<close>. The locals it uses there are arguments.
\<close>

datatype thread_pc =
    Outside
  | S_check chat_message | S_sender nat chat_message | S_text nat chat_message | S_count chat_message
  | R_total | R_loop nat
  | J_check string | J_name string | J_count string
  | Leave

text \<open>
  Where a thread is in its program around the sections. Thread \<open>2 * c\<close> is the main thread of client \<open>c\<close> while it joins and
  then its sending thread; \<open>2 * c + 1\<close> is its receiving thread. \<open>Loop_head\<close> is in front of
  \<open>while (g_running && g_chat->server_running)\<close>, \<open>In_body\<close> behind it: at the prompt, or in front of \<open>lock_sem\<close>.
\<close>

datatype doing = Not_started | Joining | Loop_head | In_body | Ended

record shared_chat =
  sem :: "int option"
  server_running :: bool
  client_count :: nat
  client_names :: "nat \<Rightarrow> string"
  message_count :: nat
  messages :: "nat \<Rightarrow> chat_message"
  at :: "nat \<Rightarrow> thread_pc"
  doing :: "nat \<Rightarrow> doing"
  client_running :: "nat \<Rightarrow> bool"  \<comment> \<open>\<open>g_running\<close> of each client\<close>
  own_name :: "nat \<Rightarrow> string"  \<comment> \<open>\<open>g_name\<close> of each client\<close>
  seen :: "nat \<Rightarrow> chat_message list"
  said :: "chat_message list"

text \<open>What the server sets up, and how it stops: it removes the semaphore.\<close>

definition server_setup :: shared_chat where
  "server_setup =
     \<lparr>sem = Some 1, server_running = True, client_count = 0, client_names = \<lambda>_. [], message_count = 0,
      messages = \<lambda>_. \<lparr>sender = [], msg_text = []\<rparr>, at = \<lambda>_. Outside,
      doing = \<lambda>_. Not_started, client_running = \<lambda>_. True, own_name = \<lambda>_. [], seen = \<lambda>_. [], said = []\<rparr>"

definition server_stop :: "shared_chat \<Rightarrow> shared_chat" where
  "server_stop s = s\<lparr>server_running := False, sem := None\<rparr>"

text \<open>
  \<open>semop\<close> waits until the value is positive (no result here); on a removed semaphore it fails at
  once, and \<open>lock_sem\<close> and \<open>unlock_sem\<close> return as if nothing had happened.
\<close>

definition lock_sem :: "shared_chat \<Rightarrow> shared_chat option" where
  "lock_sem s =
     (case sem s of
        None \<Rightarrow> Some s
      | Some v \<Rightarrow> if v > 0 then Some (s\<lparr>sem := Some (v - 1)\<rparr>) else None)"

definition unlock_sem :: "shared_chat \<Rightarrow> shared_chat" where
  "unlock_sem s = (case sem s of None \<Rightarrow> s | Some v \<Rightarrow> s\<lparr>sem := Some (v + 1)\<rparr>)"

definition set_doing :: "nat \<Rightarrow> doing \<Rightarrow> shared_chat \<Rightarrow> shared_chat" where
  "set_doing t d s = s\<lparr>doing := (doing s)(t := d)\<rparr>"

text \<open>Behind its critical section a sending or receiving thread goes back to the head of its loop.\<close>

definition go_round :: "nat \<Rightarrow> shared_chat \<Rightarrow> shared_chat" where
  "go_round t s = (if doing s t = In_body then set_doing t Loop_head s else s)"

definition goto :: "nat \<Rightarrow> thread_pc \<Rightarrow> shared_chat \<Rightarrow> shared_chat" where
  "goto t p s = s\<lparr>at := (at s)(t := p)\<rparr>"

text \<open>
  A line typed: the message that \<open>sender_thread\<close> writes for it, \<open>None\<close> when it writes none (the
  command to quit, or an empty line).
\<close>

definition sender_line :: "string \<Rightarrow> string \<Rightarrow> chat_message option" where
  "sender_line g_name typed =
     (let buf = take (TEXT_LEN - 1) typed
      in if buf = ''/quit'' \<or> buf = [] then None else Some \<lparr>sender = g_name, msg_text = buf\<rparr>)"

definition joined :: "string \<Rightarrow> chat_message" where
  "joined g_name = \<lparr>sender = ''server'', msg_text = snprintf_buf TEXT_LEN (g_name @ '' joined'')\<rparr>"

text \<open>
  The next statement of a thread in its critical section: that of the sending thread, that of the
  receiving thread (one message shown per step), and that of a client that joins.
\<close>

fun send_next :: "nat \<Rightarrow> thread_pc \<Rightarrow> shared_chat \<Rightarrow> shared_chat" where
  "send_next t (S_check m) s =
     goto t (if message_count s < MAX_MESSAGES then S_sender (message_count s) m else Leave) s"
| "send_next t (S_sender k m) s =
     goto t (S_text k m) (s\<lparr>messages := (messages s)(k :=
       (messages s k)\<lparr>sender := take (NAME_LEN - 1) (sender m)\<rparr>)\<rparr>)"
| "send_next t (S_text k m) s =
     goto t (S_count m) (s\<lparr>messages := (messages s)(k :=
       (messages s k)\<lparr>msg_text := take (TEXT_LEN - 1) (msg_text m)\<rparr>)\<rparr>)"
| "send_next t (S_count m) s =
     goto t Leave (s\<lparr>message_count := message_count s + 1, said := said s @ [m]\<rparr>)"
| "send_next t _ s = s"

fun receive_next :: "nat \<Rightarrow> thread_pc \<Rightarrow> shared_chat \<Rightarrow> shared_chat" where
  "receive_next t R_total s = goto t (R_loop (message_count s)) s"
| "receive_next t (R_loop n) s =
     (if length (seen s t) < n \<and> length (seen s t) < MAX_MESSAGES
      then s\<lparr>seen := (seen s)(t := seen s t @ [messages s (length (seen s t))])\<rparr>
      else goto t Leave s)"
| "receive_next t _ s = s"

fun join_next :: "nat \<Rightarrow> thread_pc \<Rightarrow> shared_chat \<Rightarrow> shared_chat" where
  "join_next t (J_check g_name) s = goto t (if client_count s < MAX_USERS then J_name g_name else Leave) s"
| "join_next t (J_name g_name) s =
     goto t (J_count g_name)
       (s\<lparr>client_names := (client_names s)(client_count s := take (NAME_LEN - 1) g_name)\<rparr>)"
| "join_next t (J_count g_name) s =
     goto t (S_check (joined g_name)) (s\<lparr>client_count := client_count s + 1\<rparr>)"
| "join_next t _ s = s"

definition advance :: "nat \<Rightarrow> shared_chat \<Rightarrow> shared_chat" where
  "advance t s =
     (case at s t of
        Outside \<Rightarrow> s
      | S_check m \<Rightarrow> send_next t (S_check m) s
      | S_sender k m \<Rightarrow> send_next t (S_sender k m) s
      | S_text k m \<Rightarrow> send_next t (S_text k m) s
      | S_count m \<Rightarrow> send_next t (S_count m) s
      | R_total \<Rightarrow> receive_next t R_total s
      | R_loop n \<Rightarrow> receive_next t (R_loop n) s
      | J_check g_name \<Rightarrow> join_next t (J_check g_name) s
      | J_name g_name \<Rightarrow> join_next t (J_name g_name) s
      | J_count g_name \<Rightarrow> join_next t (J_count g_name) s
      | Leave \<Rightarrow> goto t Outside (unlock_sem (go_round t s)))"

text \<open>
  The steps of the system. A client's main thread joins, once, under the name typed, and then starts its two threads.
  They look at the two flags at the head of their loops; from the body a receiving thread enters with \<open>lock_sem\<close>, and a
  sending thread takes a line typed: \<open>/quit\<close> clears the client's flag and ends it, an empty line brings it back to
  the head, any other line is sent. When the sending thread has ended the main thread clears the flag as well.
\<close>

datatype chat_event =
    Join nat string | Start nat | Look nat | Send nat string | Receive nat | Sender_joined nat | Advance nat | Stop

definition enter :: "nat \<Rightarrow> thread_pc \<Rightarrow> shared_chat \<Rightarrow> shared_chat option" where
  "enter t p s =
     (if at s t \<noteq> Outside then None
      else case lock_sem s of None \<Rightarrow> None | Some s' \<Rightarrow> Some (goto t p s'))"

fun chat_step :: "chat_event \<Rightarrow> shared_chat \<Rightarrow> shared_chat option" where
  "chat_step (Join c g_name) s =
     (if doing s (2 * c) = Not_started
      then enter (2 * c) (J_check g_name) (set_doing (2 * c) Joining (s\<lparr>own_name := (own_name s)(c := g_name)\<rparr>))
      else None)"
| "chat_step (Start c) s =
     (if doing s (2 * c) = Joining \<and> at s (2 * c) = Outside
      then Some (set_doing (2 * c) Loop_head (set_doing (2 * c + 1) Loop_head s)) else None)"
| "chat_step (Look t) s =
     (if doing s t = Loop_head \<and> at s t = Outside
      then Some (set_doing t (if client_running s (t div 2) \<and> server_running s then In_body else Ended) s) else None)"
| "chat_step (Send t typed) s =
     (if even t \<and> doing s t = In_body \<and> at s t = Outside
      then (if take (TEXT_LEN - 1) typed = ''/quit''
            then Some (set_doing t Ended (s\<lparr>client_running := (client_running s)(t div 2 := False)\<rparr>))
            else case sender_line (own_name s (t div 2)) typed of
                   None \<Rightarrow> Some (set_doing t Loop_head s)
                 | Some m \<Rightarrow> enter t (S_check m) s)
      else None)"
| "chat_step (Receive t) s = (if odd t \<and> doing s t = In_body then enter t R_total s else None)"
| "chat_step (Sender_joined c) s =
     (if doing s (2 * c) = Ended then Some (s\<lparr>client_running := (client_running s)(c := False)\<rparr>) else None)"
| "chat_step (Advance t) s = (if at s t = Outside then None else Some (advance t s))"
| "chat_step Stop s = (if server_running s then Some (server_stop s) else None)"

abbreviation chat_steps :: "chat_event list \<Rightarrow> shared_chat \<Rightarrow> shared_chat option" where
  "chat_steps \<equiv> run_steps chat_step"

abbreviation chat_reachable :: "shared_chat \<Rightarrow> bool" where
  "chat_reachable \<equiv> reach chat_step server_setup"

text \<open>
  What a receiving thread draws in the section: the names with their rows, and a message on the next row of the
  middle; \<open>rows\<close> is the height of the screen, and a full screen is cleared first.
\<close>

definition draw_names :: "shared_chat \<Rightarrow> (nat \<times> string) list" where
  "draw_names s =
     (0, ''Users:'') # map (\<lambda>i. (i + 1, client_names s i)) [0 ..< min (client_count s) MAX_USERS]"

record message_pane =
  g_msg_row :: int
  pane :: "(int \<times> string) list"

definition add_message_line :: "int \<Rightarrow> chat_message \<Rightarrow> message_pane \<Rightarrow> message_pane" where
  "add_message_line rows m w =
     (let w1 = (if g_msg_row w \<ge> rows - 2 then \<lparr>g_msg_row = 1, pane = []\<rparr> else w)
      in w1\<lparr>g_msg_row := g_msg_row w1 + 1, pane := pane w1 @ [(g_msg_row w1, sender m @ '': '' @ msg_text m)]\<rparr>)"

text \<open>On a screen of at least four rows messages keep off the rows of the input, and each has a row of its own.\<close>

lemma message_rows:
  assumes "4 \<le> rows" "1 \<le> g_msg_row w" "g_msg_row w \<le> rows - 2" "map fst (pane w) = [1 .. g_msg_row w - 1]"
  shows "let w' = foldl (\<lambda>w m. add_message_line rows m w) w ms in
    1 \<le> g_msg_row w' \<and> g_msg_row w' \<le> rows - 2 \<and> map fst (pane w') = [1 .. g_msg_row w' - 1]"
  using assms(2-4)
proof (induction ms arbitrary: w)
  case (Cons m ms)
  let ?w = "add_message_line rows m w"
  have upto: "[1 .. j] = [1 .. j - 1] @ [j]" if "1 \<le> j" for j :: int
    using that by (simp add: upto_rec2)
  have "1 \<le> g_msg_row ?w \<and> g_msg_row ?w \<le> rows - 2 \<and> map fst (pane ?w) = [1 .. g_msg_row ?w - 1]"
    using Cons.prems assms(1) upto [of "g_msg_row w"] by (auto simp: add_message_line_def Let_def)
  with Cons.IH [of ?w] show ?case by simp
qed simp

section \<open>The invariant\<close>

text \<open>A message as the fields of its slot hold it.\<close>

definition stored :: "chat_message \<Rightarrow> chat_message" where
  "stored m = \<lparr>sender = take (NAME_LEN - 1) (sender m), msg_text = take (TEXT_LEN - 1) (msg_text m)\<rparr>"

definition published :: "shared_chat \<Rightarrow> chat_message list" where
  "published s = map (messages s) [0 ..< message_count s]"

fun pc_ok :: "shared_chat \<Rightarrow> thread_pc \<Rightarrow> bool" where
  "pc_ok s (S_sender k m) = (k = message_count s \<and> k < MAX_MESSAGES)"
| "pc_ok s (S_text k m) =
     (k = message_count s \<and> k < MAX_MESSAGES \<and> sender (messages s k) = take (NAME_LEN - 1) (sender m))"
| "pc_ok s (S_count m) = (message_count s < MAX_MESSAGES \<and> messages s (message_count s) = stored m)"
| "pc_ok s (R_loop n) = (n = message_count s)"
| "pc_ok s (J_name g_name) = (client_count s < MAX_USERS)"
| "pc_ok s (J_count g_name) = (client_count s < MAX_USERS)"
| "pc_ok s _ = True"

definition exclusive :: "shared_chat \<Rightarrow> bool" where
  "exclusive s =
     ((sem s = Some 1 \<and> (\<forall>t. at s t = Outside)) \<or>
      (sem s = Some 0 \<and> (\<exists>t. at s t \<noteq> Outside \<and> (\<forall>t'. t' \<noteq> t \<longrightarrow> at s t' = Outside))))"

definition chat_ok :: "shared_chat \<Rightarrow> bool" where
  "chat_ok s =
     (exclusive s \<and> (\<forall>t. pc_ok s (at s t)) \<and> message_count s \<le> MAX_MESSAGES \<and> client_count s \<le> MAX_USERS \<and>
      published s = map stored (said s) \<and> (\<forall>t. seen s t = take (length (seen s t)) (published s)))"

lemma doing_fields [simp]:
  "sem (set_doing t d s) = sem s" "server_running (set_doing t d s) = server_running s" "at (set_doing t d s) = at s"
  "message_count (set_doing t d s) = message_count s" "messages (set_doing t d s) = messages s" "said (set_doing t d s) = said s"
  "client_count (set_doing t d s) = client_count s" "seen (set_doing t d s) = seen s"
  "sem (go_round t s) = sem s" "at (go_round t s) = at s" "message_count (go_round t s) = message_count s"
  "messages (go_round t s) = messages s" "said (go_round t s) = said s" "client_count (go_round t s) = client_count s"
  "seen (go_round t s) = seen s" "server_running (go_round t s) = server_running s"
  by (simp_all add: set_doing_def go_round_def)

text \<open>The invariant is about the segment and the sections, not about what is around them.\<close>

lemma chat_ok_around [simp]:
  "chat_ok (s\<lparr>doing := d\<rparr>) = chat_ok s" "chat_ok (s\<lparr>client_running := r\<rparr>) = chat_ok s" "chat_ok (s\<lparr>own_name := n\<rparr>) = chat_ok s"
  "chat_ok (set_doing t e s) = chat_ok s" "chat_ok (go_round t s) = chat_ok s"
proof -
  have "pc_ok (s\<lparr>doing := d\<rparr>) p = pc_ok s p" "pc_ok (s\<lparr>client_running := r\<rparr>) p = pc_ok s p"
    "pc_ok (s\<lparr>own_name := n\<rparr>) p = pc_ok s p" for d r n p by (cases p; simp)+
  then show a: "chat_ok (s\<lparr>doing := d\<rparr>) = chat_ok s" "chat_ok (s\<lparr>client_running := r\<rparr>) = chat_ok s"
    "chat_ok (s\<lparr>own_name := n\<rparr>) = chat_ok s" for d r n
    by (simp_all add: chat_ok_def exclusive_def published_def)
  show "chat_ok (set_doing t e s) = chat_ok s" "chat_ok (go_round t s) = chat_ok s"
    by (simp_all add: set_doing_def go_round_def a)
qed

lemma goto_fields [simp]:
  "sem (goto t p s) = sem s" "server_running (goto t p s) = server_running s"
  "client_count (goto t p s) = client_count s" "client_names (goto t p s) = client_names s"
  "message_count (goto t p s) = message_count s" "messages (goto t p s) = messages s"
  "at (goto t p s) = (at s)(t := p)" "seen (goto t p s) = seen s" "said (goto t p s) = said s"
  "published (goto t p s) = published s"
  by (simp_all add: goto_def published_def)

lemma pc_ok_goto [simp]: "pc_ok (goto t p s) q = pc_ok s q"
  by (cases q) simp_all

text \<open>
  What is left to show when only thread \<open>t\<close>, alone inside, moves: the others are outside, where nothing is
  claimed.
\<close>

lemma chat_ok_move:
  assumes "chat_ok s" "at s t \<noteq> Outside" "sem s' = sem s" "at s' = (at s)(t := p)" "p \<noteq> Outside" "pc_ok s' p"
    and "message_count s' \<le> MAX_MESSAGES" "client_count s' \<le> MAX_USERS"
    and "published s' = map stored (said s')"
    and "\<forall>t. seen s' t = take (length (seen s' t)) (published s')"
  shows "chat_ok s'"
proof -
  have "exclusive s" using assms(1) by (simp add: chat_ok_def)
  with assms(2) have o: "at s t' = Outside" if "t' \<noteq> t" for t'
    using that unfolding exclusive_def by metis
  have "sem s = Some 0" using assms(1,2) by (auto simp: chat_ok_def exclusive_def)
  with o assms have "exclusive s'" by (auto simp: exclusive_def)
  moreover have "\<forall>t. pc_ok s' (at s' t)" using o assms by simp
  ultimately show ?thesis using assms by (simp add: chat_ok_def)
qed

lemma published_grow:
  assumes "published s = map stored (said s)" "messages s (message_count s) = stored m"
  shows "published (s\<lparr>message_count := message_count s + 1, said := said s @ [m]\<rparr>) =
         map stored (said s @ [m])"
  using assms by (simp add: published_def)

lemma seen_grow:
  assumes "\<forall>t. seen s t = take (length (seen s t)) xs"
  shows "seen s t = take (length (seen s t)) (xs @ ys)"
proof -
  have "length (seen s t) \<le> length xs" using assms [rule_format, of t] by (metis length_take min.cobounded1 nat_le_linear)
  then show ?thesis using assms by simp
qed

lemma published_beyond [simp]:
  "published (s\<lparr>messages := (messages s)(message_count s := x)\<rparr>) = published s"
  by (simp add: published_def)

lemma chat_ok_advance:
  assumes "chat_ok s" "at s t \<noteq> Outside"
  shows "chat_ok (advance t s)"
proof -
  have pc: "pc_ok s (at s t)" and pub: "published s = map stored (said s)" "\<forall>t. seen s t = take (length (seen s t)) (published s)"
    and c: "message_count s \<le> MAX_MESSAGES" "client_count s \<le> MAX_USERS"
    using assms(1) unfolding chat_ok_def by blast+
  note move = chat_ok_move [OF assms]
  show ?thesis
  proof (cases "at s t")
    case Outside
    with assms show ?thesis by simp
  next
    case (S_check m)
    show ?thesis
      by (rule move [where p = "if message_count s < MAX_MESSAGES then S_sender (message_count s) m else Leave"])
        (use S_check pub c in \<open>simp_all add: advance_def\<close>)
  next
    case (S_sender k m)
    with pc show ?thesis
      by (intro move [where p = "S_text k m"]) (use pub c in \<open>simp_all add: advance_def\<close>)
  next
    case (S_text k m)
    with pc show ?thesis
      by (intro move [where p = "S_count m"]; cases "messages s k")
        (use pub c in \<open>simp_all add: advance_def stored_def\<close>)
  next
    case (S_count m)
    with pc have m: "messages s (message_count s) = stored m" "message_count s < MAX_MESSAGES" by simp_all
    have g: "published (advance t s) = map stored (said s @ [m])"
      using published_grow [OF pub(1) m(1)] S_count by (simp add: advance_def published_def)
    have f: "at (advance t s) = (at s)(t := Leave)" "message_count (advance t s) = message_count s + 1"
      "sem (advance t s) = sem s" "client_count (advance t s) = client_count s" "seen (advance t s) = seen s"
      "said (advance t s) = said s @ [m]" using S_count by (simp_all add: advance_def)
    show ?thesis
      by (rule move [where p = Leave]) (use f g m c seen_grow [OF pub(2)] pub(1) in simp_all)
  next
    case R_total
    show ?thesis
      by (rule move [where p = "R_loop (message_count s)"]) (use R_total pub c in \<open>simp_all add: advance_def\<close>)
  next
    case (R_loop n)
    show ?thesis
    proof (cases "length (seen s t) < n \<and> length (seen s t) < MAX_MESSAGES")
      case True
      have l: "length (seen s t) < message_count s" using True pc R_loop by simp
      have f: "advance t s = s\<lparr>seen := (seen s)(t := seen s t @ [messages s (length (seen s t))])\<rparr>"
        using R_loop True by (simp add: advance_def)
      have "published (advance t s) = published s" by (simp add: f published_def)
      moreover have "seen s t @ [messages s (length (seen s t))] = take (Suc (length (seen s t))) (published s)"
        using l pub(2) [rule_format, of t] by (simp add: take_Suc_conv_app_nth published_def)
      moreover have "length (said s) = message_count s"
        using arg_cong [OF pub(1), of length] by (simp add: published_def)
      ultimately show ?thesis
        by (intro move [where p = "R_loop n"])
          (use f pub c pc R_loop l in \<open>simp_all add: fun_upd_idem min_absorb2\<close>)
    next
      case False
      then have "advance t s = goto t Leave s" using R_loop by (auto simp: advance_def)
      then show ?thesis
        by (intro move [where p = Leave]) (use pub c in simp_all)
    qed
  next
    case (J_check g)
    show ?thesis
      by (rule move [where p = "if client_count s < MAX_USERS then J_name g else Leave"])
        (use J_check pub c in \<open>simp_all add: advance_def\<close>)
  next
    case (J_name g)
    with pc show ?thesis
      by (intro move [where p = "J_count g"]) (use pub c in \<open>simp_all add: advance_def published_def\<close>)
  next
    case (J_count g)
    with pc show ?thesis
      by (intro move [where p = "S_check (joined g)"]) (use pub c in \<open>simp_all add: advance_def published_def\<close>)
  next
    case Leave
    have "exclusive s" using assms(1) by (simp add: chat_ok_def)
    then have "sem s = Some 0" "\<forall>t'. t' \<noteq> t \<longrightarrow> at s t' = Outside"
      using assms(2) unfolding exclusive_def by metis+
    with Leave have "advance t s = goto t Outside ((go_round t s)\<lparr>sem := Some 1\<rparr>)"
      by (simp add: advance_def unlock_sem_def)
    moreover have "chat_ok (go_round t s)" using assms(1) by simp
    ultimately show ?thesis
      using \<open>sem s = Some 0\<close> \<open>\<forall>t'. t' \<noteq> t \<longrightarrow> at s t' = Outside\<close> by (auto simp: chat_ok_def exclusive_def published_def)
  qed
qed

lemma chat_ok_enter:
  assumes "chat_ok s" "enter t p s = Some s'" "pc_ok s p" "p \<noteq> Outside" "sem s \<noteq> None"
  shows "chat_ok s'"
proof -
  have o: "sem s = Some 1" "\<forall>t. at s t = Outside" "s' = goto t p (s\<lparr>sem := Some 0\<rparr>)"
    using assms by (auto simp: enter_def lock_sem_def chat_ok_def exclusive_def split: if_splits option.splits)
  have "pc_ok (s\<lparr>sem := Some 0\<rparr>) q = pc_ok s q" for q by (cases q) simp_all
  with o assms show ?thesis
    by (auto simp: chat_ok_def exclusive_def published_def)
qed

lemma chat_ok_step:
  assumes "chat_ok s" "chat_step a s = Some s'" "sem s' \<noteq> None"
  shows "chat_ok s'"
proof -
  have "sem s \<noteq> None" using assms(1) by (auto simp: chat_ok_def exclusive_def)
  show ?thesis
  proof (cases a)
    case (Join c g)
    let ?s = "set_doing (2 * c) Joining (s\<lparr>own_name := (own_name s)(c := g)\<rparr>)"
    have "enter (2 * c) (J_check g) ?s = Some s'" using assms(2) Join by (simp split: if_splits)
    moreover have "chat_ok ?s" "sem ?s \<noteq> None" using assms(1) \<open>sem s \<noteq> None\<close> by simp_all
    ultimately show ?thesis using chat_ok_enter [of ?s "2 * c" "J_check g" s'] by simp
  next
    case (Send t typed)
    have g: "even t \<and> doing s t = In_body \<and> at s t = Outside" using assms(2) Send by (simp split: if_splits)
    show ?thesis
    proof (cases "take (TEXT_LEN - 1) typed = ''/quit''")
      case True
      then have "s' = set_doing t Ended (s\<lparr>client_running := (client_running s)(t div 2 := False)\<rparr>)"
        using assms(2) Send g by simp
      with assms(1) show ?thesis by simp
    next
      case False
      show ?thesis
      proof (cases "sender_line (own_name s (t div 2)) typed")
        case None
        then have "s' = set_doing t Loop_head s" using assms(2) Send g False by simp
        with assms(1) show ?thesis by simp
      next
        case (Some m)
        then have "enter t (S_check m) s = Some s'" using assms(2) Send g False by simp
        from chat_ok_enter [OF assms(1) this _ _ \<open>sem s \<noteq> None\<close>] show ?thesis by simp
      qed
    qed
  next
    case (Receive t)
    then have "enter t R_total s = Some s'" using assms(2) by (simp split: if_splits)
    from chat_ok_enter [OF assms(1) this _ _ \<open>sem s \<noteq> None\<close>] show ?thesis by simp
  next
    case (Advance t)
    then show ?thesis using assms(2) chat_ok_advance [OF assms(1)] by (auto split: if_splits)
  qed (use assms in \<open>auto simp: server_stop_def split: if_splits\<close>)
qed

lemma sem_removed_stays: "chat_step a s = Some s' \<Longrightarrow> sem s = None \<Longrightarrow> sem s' = None"
  by (cases a) (auto simp: server_stop_def enter_def lock_sem_def advance_def unlock_sem_def
      split: option.splits if_splits thread_pc.splits)

interpretation chat: kept_invariant chat_step "\<lambda>s. sem s \<noteq> None \<longrightarrow> chat_ok s"
proof (unfold_locales, rule impI)
  fix s a s'
  assume ok: "sem s \<noteq> None \<longrightarrow> chat_ok s" and step: "chat_step a s = Some s'" and sem: "sem s' \<noteq> None"
  have "sem s \<noteq> None" using sem sem_removed_stays [OF step] by (cases "sem s") auto
  with ok have "chat_ok s" by blast
  from this step sem show "chat_ok s'" by (rule chat_ok_step)
qed

lemma chat_ok_setup: "chat_ok server_setup"
  by (simp add: chat_ok_def exclusive_def server_setup_def published_def)

lemma chat_reachable_ok: "chat_reachable s \<Longrightarrow> sem s \<noteq> None \<Longrightarrow> chat_ok s"
  using chat.reach_keeps [of server_setup s] chat_ok_setup by blast

section \<open>The properties\<close>

text \<open>
  Property C2. As long as the server has not stopped, whatever the threads do and however their
  statements interleave: at most one is in its critical section; the first \<open>message_count\<close>
  slots hold exactly the messages counted in so far, in that order, none torn, lost or overwritten;
  what a client's receiving thread has shown is a beginning of that one transcript, so no two
  clients ever see messages in different orders; and neither array is exceeded.
\<close>

theorem shared_transcript:
  assumes "chat_reachable s" and "sem s \<noteq> None"
  shows "(\<forall>t t'. at s t \<noteq> Outside \<longrightarrow> at s t' \<noteq> Outside \<longrightarrow> t = t') \<and>
         map (messages s) [0 ..< message_count s] = map stored (said s) \<and>
         (\<forall>t. seen s t = take (length (seen s t)) (map stored (said s))) \<and>
         message_count s \<le> MAX_MESSAGES \<and> client_count s \<le> MAX_USERS"
proof -
  have ok: "chat_ok s" using chat_reachable_ok [OF assms] .
  then have "exclusive s" by (simp add: chat_ok_def)
  then have "\<forall>t t'. at s t \<noteq> Outside \<longrightarrow> at s t' \<noteq> Outside \<longrightarrow> t = t'"
    unfolding exclusive_def by metis
  moreover have "published s = map stored (said s)"
    and "\<forall>t. seen s t = take (length (seen s t)) (published s)" using ok unfolding chat_ok_def by blast+
  ultimately show ?thesis using ok by (simp add: chat_ok_def published_def [symmetric])
qed

text \<open>Ann joins and writes, and Bob joins; his receiving thread has shown the first message and is at the second.\<close>

definition ann_writes :: "chat_event list" where
  "ann_writes =
     Join 0 ''Ann'' # replicate 8 (Advance 0) @ [Start 0, Look 0, Send 0 ''hello''] @ replicate 5 (Advance 0) @
     Join 1 ''Bob'' # replicate 8 (Advance 2) @ [Start 1, Look 3, Receive 3] @ replicate 2 (Advance 3)"

lemma ann_writes_run:
  "(case chat_steps ann_writes server_setup of None \<Rightarrow> False | Some s \<Rightarrow>
      sem s = Some 0 \<and> seen s 3 = [joined ''Ann''] \<and> message_count s = 3 \<and> at s 3 = R_loop 3 \<and>
      said s = [joined ''Ann'', \<lparr>sender = ''Ann'', msg_text = ''hello''\<rparr>, joined ''Bob''])"
  by code_simp

theorem shared_transcript_witness:
  "\<exists>s. chat_steps ann_writes server_setup = Some s \<and> at s 3 = R_loop 3 \<and> seen s 3 = [joined ''Ann''] \<and>
     map (messages s) [0 ..< 3] = map stored [joined ''Ann'', \<lparr>sender = ''Ann'', msg_text = ''hello''\<rparr>, joined ''Bob'']"
proof -
  from ann_writes_run obtain s where s: "chat_steps ann_writes server_setup = Some s" "sem s = Some 0"
    "seen s 3 = [joined ''Ann'']" "message_count s = 3" "at s 3 = R_loop 3"
    "said s = [joined ''Ann'', \<lparr>sender = ''Ann'', msg_text = ''hello''\<rparr>, joined ''Bob'']"
    by (auto split: option.splits)
  have "chat_reachable s" using run_steps_from_reached [OF s(1) reach.start] .
  from shared_transcript [OF this] s have "map (messages s) [0 ..< 3] = map stored (said s)" by simp
  with s show ?thesis by auto
qed

definition overwriting :: "nat \<Rightarrow> nat \<Rightarrow> string \<Rightarrow> string \<Rightarrow> chat_event list" where
  "overwriting t1 t2 a b =
     [Stop, Send t1 a, Send t2 b, Advance t1, Advance t2, Advance t1, Advance t1, Advance t2, Advance t2, Advance t1, Advance t2]"

text \<open>
  Property C38. The server stops while two clients are at their prompts, nobody is in a critical section and there is
  room. The semaphore is gone and \<open>lock_sem\<close>, whose \<open>semop\<close> then fails, lets every thread in, so the lines that
  the two type next can be written over each other: both are counted in, the first is lost, and the slot behind
  it is counted although nobody has written it. The slots before stay as they are.
\<close>

theorem stopped_server_loses_message:
  assumes "server_running s" "\<forall>t. at s t = Outside" "message_count s < MAX_MESSAGES"
    and "even t1" "even t2" "t1 \<noteq> t2" "doing s t1 = In_body" "doing s t2 = In_body"
    and "sender_line (own_name s (t1 div 2)) a = Some m1" "sender_line (own_name s (t2 div 2)) b = Some m2"
  shows "\<exists>s'. chat_steps (overwriting t1 t2 a b) s = Some s' \<and> said s' = said s @ [m1, m2] \<and>
     message_count s' = message_count s + 2 \<and> messages s' (message_count s) = stored m2 \<and>
     (\<forall>k. k \<noteq> message_count s \<longrightarrow> messages s' k = messages s k)"
proof -
  have q: "take (TEXT_LEN - 1) a \<noteq> ''/quit''" "take (TEXT_LEN - 1) b \<noteq> ''/quit''"
    using assms(9,10) by (auto simp: sender_line_def Let_def split: if_splits)
  let ?k = "message_count s"
  let ?s0 = "goto t2 (S_check m2) (goto t1 (S_check m1) (server_stop s))"
  have 1: "run_steps chat_step [Stop, Send t1 a, Send t2 b] s = Some ?s0"
    using assms q by (simp add: server_stop_def enter_def lock_sem_def goto_def)
  let ?s1 = "goto t2 (S_sender ?k m2) (goto t1 (S_sender ?k m1) ?s0)"
  have 2: "run_steps chat_step [Advance t1, Advance t2] ?s0 = Some ?s1"
    using assms(3,6) by (simp add: advance_def server_stop_def fun_upd_twist)
  have m: "x\<lparr>sender := take (NAME_LEN - Suc 0) (sender m), msg_text := take (TEXT_LEN - Suc 0) (msg_text m)\<rparr> = stored m" for x m
    by (cases x) (simp add: stored_def)
  define s2 where "s2 = advance t1 (advance t1 ?s1)"
  have s2: "at s2 = (at ?s1)(t1 := S_count m1)" "messages s2 = (messages s)(?k := stored m1)"
    "message_count s2 = ?k" "said s2 = said s" "sem s2 = None"
    using assms(6) by (simp_all add: s2_def advance_def server_stop_def m)
  have 3: "run_steps chat_step [Advance t1, Advance t1] ?s1 = Some s2"
    using assms(6) by (simp add: s2_def advance_def)
  define s3 where "s3 = advance t2 (advance t2 s2)"
  have s3: "at s3 = (at s2)(t2 := S_count m2)" "messages s3 = (messages s)(?k := stored m2)"
    "message_count s3 = ?k" "said s3 = said s" "sem s3 = None"
    using assms(6) s2 by (simp_all add: s3_def advance_def m)
  have 4: "run_steps chat_step [Advance t2, Advance t2] s2 = Some s3"
    using assms(6) s2(1) by (simp add: s3_def advance_def)
  define s4 where "s4 = advance t2 (advance t1 s3)"
  have s4: "messages s4 = (messages s)(?k := stored m2)" "message_count s4 = ?k + 2" "said s4 = said s @ [m1, m2]"
    using assms(6) s2(1) s3 by (simp_all add: s4_def advance_def)
  have 5: "run_steps chat_step [Advance t1, Advance t2] s3 = Some s4"
    using assms(6) s2(1) s3(1) by (simp add: s4_def advance_def)
  have "overwriting t1 t2 a b = [Stop, Send t1 a, Send t2 b] @ [Advance t1, Advance t2] @ [Advance t1, Advance t1] @
      [Advance t2, Advance t2] @ [Advance t1, Advance t2]"
    by (simp add: overwriting_def)
  then have "chat_steps (overwriting t1 t2 a b) s = Some s4"
    by (simp only: run_steps_append 1 2 3 4 5 bind.bind_lunit)
  with s4 show ?thesis by auto
qed

text \<open>Ann and Bob join and are at their prompts.\<close>

definition both_at_prompt :: "chat_event list" where
  "both_at_prompt =
     Join 0 ''Ann'' # replicate 8 (Advance 0) @ [Start 0, Look 0] @ Join 1 ''Bob'' # replicate 8 (Advance 2) @ [Start 1, Look 2]"

theorem stopped_server_loses_message_witness:
  "\<exists>s. chat_steps (both_at_prompt @ overwriting 0 2 ''hello'' ''hi'') server_setup = Some s \<and>
     map msg_text (said s) = [''Ann joined'', ''Bob joined'', ''hello'', ''hi''] \<and>
     map (\<lambda>k. msg_text (messages s k)) [0 ..< message_count s] = [''Ann joined'', ''Bob joined'', ''hi'', []]"
proof -
  have "case chat_steps both_at_prompt server_setup of None \<Rightarrow> False | Some s \<Rightarrow>
      server_running s \<and> sem s = Some 1 \<and> message_count s = 2 \<and> doing s 0 = In_body \<and> doing s 2 = In_body \<and>
      own_name s 0 = ''Ann'' \<and> own_name s 1 = ''Bob'' \<and> map msg_text (said s) = [''Ann joined'', ''Bob joined''] \<and>
      msg_text (messages s 0) = ''Ann joined'' \<and> msg_text (messages s 1) = ''Bob joined'' \<and> msg_text (messages s 3) = []"
    by code_simp
  then obtain s where s: "chat_steps both_at_prompt server_setup = Some s" "server_running s" "sem s = Some 1" "message_count s = 2"
    "doing s 0 = In_body" "doing s 2 = In_body" "own_name s 0 = ''Ann''" "own_name s 1 = ''Bob''"
    "map msg_text (said s) = [''Ann joined'', ''Bob joined'']" "msg_text (messages s 0) = ''Ann joined''"
    "msg_text (messages s 1) = ''Bob joined''" "msg_text (messages s 3) = []"
    by (auto split: option.splits)
  have "chat_ok s" using chat_reachable_ok [OF run_reaches [OF s(1)]] s(3) by simp
  then have o: "\<forall>t. at s t = Outside" using s(3) by (auto simp: chat_ok_def exclusive_def)
  have l: "sender_line (own_name s (0 div 2)) ''hello'' = Some \<lparr>sender = ''Ann'', msg_text = ''hello''\<rparr>"
    "sender_line (own_name s (2 div 2)) ''hi'' = Some \<lparr>sender = ''Bob'', msg_text = ''hi''\<rparr>"
    using s(7,8) by (simp_all add: sender_line_def TEXT_LEN_def Let_def)
  obtain s' where
    s': "chat_steps (overwriting 0 2 ''hello'' ''hi'') s = Some s'"
    "said s' = said s @ [\<lparr>sender = ''Ann'', msg_text = ''hello''\<rparr>, \<lparr>sender = ''Bob'', msg_text = ''hi''\<rparr>]"
    "message_count s' = 4" "messages s' 2 = stored \<lparr>sender = ''Bob'', msg_text = ''hi''\<rparr>"
    "\<forall>k. k \<noteq> 2 \<longrightarrow> messages s' k = messages s k"
    using stopped_server_loses_message [OF s(2) o _ _ _ _ _ _ l] s(4-6) by (auto simp: MAX_MESSAGES_def)
  have "chat_steps (both_at_prompt @ overwriting 0 2 ''hello'' ''hi'') server_setup = Some s'"
    by (simp add: run_steps_append s(1) s'(1))
  with s s' show ?thesis by (intro exI [of _ s']) (simp add: stored_def TEXT_LEN_def upt_rec numeral_2_eq_2 numeral_3_eq_3)
qed

text \<open>The steps a thread has left in its critical section at most.\<close>

fun steps_left :: "shared_chat \<Rightarrow> nat \<Rightarrow> thread_pc \<Rightarrow> nat" where
  "steps_left s t Outside = 0"
| "steps_left s t Leave = 1"
| "steps_left s t (S_count m) = 2"
| "steps_left s t (S_text k m) = 3"
| "steps_left s t (S_sender k m) = 4"
| "steps_left s t (S_check m) = 5"
| "steps_left s t (J_count g) = 6"
| "steps_left s t (J_name g) = 7"
| "steps_left s t (J_check g) = 8"
| "steps_left s t (R_loop n) = 2 + (MAX_MESSAGES - length (seen s t))"
| "steps_left s t R_total = 3 + (MAX_MESSAGES - length (seen s t))"

lemma advance_steps_left:
  assumes "at s t \<noteq> Outside"
  shows "steps_left (advance t s) t (at (advance t s) t) < steps_left s t (at s t)"
  using assms by (cases "at s t") (auto simp: advance_def unlock_sem_def split: option.splits)

lemma advances_leave:
  "steps_left s t (at s t) \<le> n \<Longrightarrow> \<exists>k \<le> n. at ((advance t ^^ k) s) t = Outside"
proof (induction n arbitrary: s)
  case 0
  then show ?case by (cases "at s t") auto
next
  case (Suc n)
  show ?case
  proof (cases "at s t = Outside")
    case True
    then show ?thesis by (intro exI [of _ 0]) simp
  next
    case False
    from advance_steps_left [OF this] Suc.prems have "steps_left (advance t s) t (at (advance t s) t) \<le> n" by simp
    from Suc.IH [OF this] obtain k where "k \<le> n" "at ((advance t ^^ k) (advance t s)) t = Outside" by blast
    then show ?thesis by (intro exI [of _ "Suc k"]) (simp add: funpow_swap1)
  qed
qed

lemma advances_ok: "chat_ok s \<Longrightarrow> \<forall>j < k. at ((advance t ^^ j) s) t \<noteq> Outside \<Longrightarrow> chat_ok ((advance t ^^ k) s)"
  by (induction k) (auto intro: chat_ok_advance)

text \<open>
  Property C36. A thread that has entered leaves: within at most 103 steps of its own it has left its critical
  section, so that the semaphore is free again and the next thread that asks for it gets it.
\<close>

theorem critical_section_ends:
  assumes "chat_reachable s" and "sem s \<noteq> None" and "at s t \<noteq> Outside"
  shows "\<exists>k \<le> 103. at ((advance t ^^ k) s) t = Outside \<and> sem ((advance t ^^ k) s) = Some 1"
proof -
  have "steps_left s t (at s t) \<le> 103" by (cases "at s t") (auto simp: MAX_MESSAGES_def)
  from advances_leave [OF this] obtain k0 where k0: "k0 \<le> 103" "at ((advance t ^^ k0) s) t = Outside" by blast
  define k where "k = (LEAST k. at ((advance t ^^ k) s) t = Outside)"
  have k: "at ((advance t ^^ k) s) t = Outside" "k \<le> k0" "\<forall>j < k. at ((advance t ^^ j) s) t \<noteq> Outside"
    unfolding k_def using k0(2) by (auto intro: LeastI Least_le dest: not_less_Least)
  have "exclusive s" using chat_reachable_ok [OF assms(1,2)] by (simp add: chat_ok_def)
  with assms(3) have o: "\<forall>t'. t' \<noteq> t \<longrightarrow> at s t' = Outside" unfolding exclusive_def by metis
  have other: "at ((advance t ^^ j) s) t' = at s t'" if "t' \<noteq> t" for t' j
    by (induction j) (use that in \<open>auto simp: advance_def unlock_sem_def split: thread_pc.splits option.splits\<close>)
  have "chat_ok ((advance t ^^ k) s)" using advances_ok [OF chat_reachable_ok [OF assms(1,2)] k(3)] .
  then have "exclusive ((advance t ^^ k) s)" by (simp add: chat_ok_def)
  moreover have "at ((advance t ^^ k) s) t' = Outside" for t'
    using k(1) other [of t' k] o by (cases "t' = t") auto
  ultimately have "sem ((advance t ^^ k) s) = Some 1" by (auto simp: exclusive_def)
  with k k0(1) show ?thesis by (intro exI [of _ k]) auto
qed

theorem critical_section_ends_witness:
  "\<exists>s. chat_steps (take 4 ann_writes) server_setup = Some s \<and> at s 0 = S_check (joined ''Ann'') \<and>
     (\<exists>k \<le> 103. at ((advance 0 ^^ k) s) 0 = Outside \<and> sem ((advance 0 ^^ k) s) = Some 1)"
proof -
  have "case chat_steps (take 4 ann_writes) server_setup of None \<Rightarrow> False | Some s \<Rightarrow>
      at s 0 = S_check (joined ''Ann'') \<and> sem s = Some 0"
    by code_simp
  then obtain s where s: "chat_steps (take 4 ann_writes) server_setup = Some s"
    "at s 0 = S_check (joined ''Ann'')" "sem s = Some 0"
    by (auto split: option.splits)
  have "chat_reachable s" using run_steps_from_reached [OF s(1) reach.start] .
  from critical_section_ends [OF this, of 0] s show ?thesis by auto
qed

end
