(* ===== verification/Ping_Pong.thy ===== *)
theory Ping_Pong
  imports C_Prelude Transition
begin

text \<open>
  The exercises in which a server says \<open>Hi!\<close> and a client answers \<open>Hello!\<close>: over one POSIX queue
  (\<open>message_queues/server_posix.c\<close>, \<open>client_posix.c\<close>), over one System V queue with message types
  (\<open>server_sysv.c\<close>, \<open>client_sysv.c\<close>), and through a flag in shared memory
  (\<open>shared_memory/server_posix.c\<close>, \<open>client_posix.c\<close> and their System V twins). The two processes run
  in any order, a step being a call on the queue or a statement on the segment; the setup of the
  queue or the segment is done, and no call fails.
\<close>

section \<open>Through a queue\<close>

datatype queue_kind = Posix | System_V

record exchange =
  queue :: "(int \<times> string) list"
  server_sent :: bool
  server_got :: "string option"
  client_got :: "string option"
  client_sent :: bool

definition init_exchange :: exchange where
  "init_exchange = \<lparr>queue = [], server_sent = False, server_got = None, client_got = None, client_sent = False\<rparr>"

text \<open>
  \<open>mq_receive\<close> takes the first message, whoever sent it; \<open>msgrcv\<close> the first one of the type asked for.
  Both wait when there is none.
\<close>

fun receive_type :: "int \<Rightarrow> (int \<times> string) list \<Rightarrow> (string \<times> (int \<times> string) list) option" where
  "receive_type t [] = None"
| "receive_type t ((t', m) # q) =
     (if t' = t then Some (m, q)
      else case receive_type t q of None \<Rightarrow> None | Some (m', q') \<Rightarrow> Some (m', (t', m) # q'))"

fun mq_receive :: "(int \<times> string) list \<Rightarrow> (string \<times> (int \<times> string) list) option" where
  "mq_receive [] = None"
| "mq_receive ((t, m) # q) = Some (m, q)"

definition server_posix :: "exchange \<Rightarrow> exchange option" where
  "server_posix x =
     (if \<not> server_sent x then Some (x\<lparr>queue := queue x @ [(0, ''Hi!'')], server_sent := True\<rparr>)
      else if server_got x = None
      then map_option (\<lambda>(m, q). x\<lparr>queue := q, server_got := Some m\<rparr>) (mq_receive (queue x))
      else None)"

definition client_posix :: "exchange \<Rightarrow> exchange option" where
  "client_posix x =
     (if client_got x = None
      then map_option (\<lambda>(m, q). x\<lparr>queue := q, client_got := Some m\<rparr>) (mq_receive (queue x))
      else if \<not> client_sent x then Some (x\<lparr>queue := queue x @ [(0, ''Hello!'')], client_sent := True\<rparr>)
      else None)"

definition server_sysv :: "exchange \<Rightarrow> exchange option" where
  "server_sysv x =
     (if \<not> server_sent x then Some (x\<lparr>queue := queue x @ [(1, ''Hi!'')], server_sent := True\<rparr>)
      else if server_got x = None
      then map_option (\<lambda>(m, q). x\<lparr>queue := q, server_got := Some m\<rparr>) (receive_type 2 (queue x))
      else None)"

definition client_sysv :: "exchange \<Rightarrow> exchange option" where
  "client_sysv x =
     (if client_got x = None
      then map_option (\<lambda>(m, q). x\<lparr>queue := q, client_got := Some m\<rparr>) (receive_type 1 (queue x))
      else if \<not> client_sent x then Some (x\<lparr>queue := queue x @ [(2, ''Hello!'')], client_sent := True\<rparr>)
      else None)"

datatype party = Server | Client

fun next_of :: "queue_kind \<Rightarrow> party \<Rightarrow> exchange \<Rightarrow> exchange option" where
  "next_of Posix Server x = server_posix x"
| "next_of Posix Client x = client_posix x"
| "next_of System_V Server x = server_sysv x"
| "next_of System_V Client x = client_sysv x"

lemmas exchange_defs = init_exchange_def server_posix_def client_posix_def server_sysv_def client_sysv_def

abbreviation exchanged :: "queue_kind \<Rightarrow> exchange \<Rightarrow> bool" where
  "exchanged k \<equiv> reach (next_of k) init_exchange"

text \<open>The states a System V exchange goes through, one after the other.\<close>

definition sysv_stage :: "exchange \<Rightarrow> bool" where
  "sysv_stage x =
     (x = init_exchange \<or>
      x = init_exchange\<lparr>queue := [(1, ''Hi!'')], server_sent := True\<rparr> \<or>
      x = init_exchange\<lparr>server_sent := True, client_got := Some ''Hi!''\<rparr> \<or>
      x = init_exchange\<lparr>queue := [(2, ''Hello!'')], server_sent := True, client_got := Some ''Hi!'', client_sent := True\<rparr> \<or>
      x = init_exchange\<lparr>server_sent := True, client_got := Some ''Hi!'', client_sent := True, server_got := Some ''Hello!''\<rparr>)"

lemma sysv_stage_step: "sysv_stage x \<Longrightarrow> next_of System_V p x = Some x' \<Longrightarrow> sysv_stage x'"
  by (cases p) (auto simp: sysv_stage_def exchange_defs)

interpretation sysv: kept_invariant "next_of System_V" sysv_stage
  by unfold_locales (rule sysv_stage_step)

lemma sysv_exchanged: "exchanged System_V x \<Longrightarrow> sysv_stage x"
  by (rule sysv.reach_keeps [of init_exchange]) (simp_all add: sysv_stage_def)

text \<open>
  Property C23. Over the System V queue the exchange comes out the same in every order of steps: nobody
  receives anything but the other's message, and it does not get stuck before both have it.
  Over the POSIX queue the server can receive its own \<open>Hi!\<close>; the client then waits for ever.
\<close>

theorem queue_exchange:
  "(\<forall>x. exchanged System_V x \<longrightarrow>
      client_got x \<in> {None, Some ''Hi!''} \<and> server_got x \<in> {None, Some ''Hello!''} \<and>
      ((\<forall>p. next_of System_V p x = None) \<longrightarrow> client_got x = Some ''Hi!'' \<and> server_got x = Some ''Hello!'')) \<and>
   (\<exists>x. exchanged Posix x \<and> server_got x = Some ''Hi!'' \<and> client_got x = None \<and> (\<forall>p. next_of Posix p x = None))"
proof
  show "\<forall>x. exchanged System_V x \<longrightarrow>
      client_got x \<in> {None, Some ''Hi!''} \<and> server_got x \<in> {None, Some ''Hello!''} \<and>
      ((\<forall>p. next_of System_V p x = None) \<longrightarrow> client_got x = Some ''Hi!'' \<and> server_got x = Some ''Hello!'')"
  proof (intro allI impI)
    fix x assume "exchanged System_V x"
    then have s: "sysv_stage x" by (rule sysv_exchanged)
    then have "(\<forall>p. next_of System_V p x = None) \<longrightarrow> client_got x = Some ''Hi!'' \<and> server_got x = Some ''Hello!''"
      by (auto simp: sysv_stage_def exchange_defs
          dest: spec [of _ Server] spec [of _ Client])
    with s show "client_got x \<in> {None, Some ''Hi!''} \<and> server_got x \<in> {None, Some ''Hello!''} \<and>
      ((\<forall>p. next_of System_V p x = None) \<longrightarrow> client_got x = Some ''Hi!'' \<and> server_got x = Some ''Hello!'')"
      by (auto simp: sysv_stage_def init_exchange_def)
  qed
  let ?x1 = "init_exchange\<lparr>queue := [(0, ''Hi!'')], server_sent := True\<rparr>"
  let ?x2 = "init_exchange\<lparr>server_sent := True, server_got := Some ''Hi!''\<rparr>"
  have "exchanged Posix ?x1"
    by (rule reach.next_step [OF reach.start, of _ Server])
      (simp add: exchange_defs)
  then have "exchanged Posix ?x2"
    by (rule reach.next_step [of _ _ _ Server]) (simp add: exchange_defs)
  moreover have "next_of Posix p ?x2 = None" for p
    by (cases p) (simp_all add: exchange_defs)
  ultimately show "\<exists>x. exchanged Posix x \<and> server_got x = Some ''Hi!'' \<and> client_got x = None \<and> (\<forall>p. next_of Posix p x = None)"
    by (intro exI [of _ ?x2]) (simp add: init_exchange_def)
qed

theorem queue_exchange_witness:
  "\<exists>x. exchanged System_V x \<and> server_sysv x = None \<and> client_sysv x = None \<and>
     client_got x = Some ''Hi!'' \<and> server_got x = Some ''Hello!''"
proof -
  have "exchanged System_V (init_exchange\<lparr>queue := [(1, ''Hi!'')], server_sent := True\<rparr>)"
    by (rule reach.next_step [OF reach.start, of _ Server])
      (simp add: exchange_defs)
  then have "exchanged System_V (init_exchange\<lparr>server_sent := True, client_got := Some ''Hi!''\<rparr>)"
    by (rule reach.next_step [of _ _ _ Client]) (simp add: exchange_defs)
  then have "exchanged System_V (init_exchange\<lparr>queue := [(2, ''Hello!'')], server_sent := True,
      client_got := Some ''Hi!'', client_sent := True\<rparr>)"
    by (rule reach.next_step [of _ _ _ Client]) (simp add: exchange_defs)
  then have x: "exchanged System_V (init_exchange\<lparr>server_sent := True, client_got := Some ''Hi!'',
      client_sent := True, server_got := Some ''Hello!''\<rparr>)" (is "exchanged _ ?x")
    by (rule reach.next_step [of _ _ _ Server]) (simp add: exchange_defs)
  have n: "server_sysv ?x = None" "client_sysv ?x = None"
    by (simp_all add: exchange_defs)
  have "next_of System_V p ?x = None" for p using n by (cases p) simp_all
  with spec [OF conjunct1 [OF queue_exchange], THEN mp, OF x]
  have "client_got ?x = Some ''Hi!'' \<and> server_got ?x = Some ''Hello!''" by (elim conjE) simp
  with x n show ?thesis by (intro exI [of _ ?x] conjI) simp_all
qed

section \<open>Through shared memory\<close>

text \<open>
  The segment and the two programs, a step being one access to the segment: the flag is read or written as a
  whole, the text byte by byte. The server clears the flag, copies its text with \<open>strncpy\<close>, ends the field with
  NUL, sets the flag to 1, prints the text it has sent from the segment, waits for 2 and prints the reply from there;
  the client waits for 1, prints the text, copies its own, sets the flag to 2 and prints what it has sent from the
  segment. A loop that waits is a step without result until the flag is right.
\<close>

definition TEXT_SIZE :: nat where "TEXT_SIZE = 64"

text \<open>\<open>Put_hi k\<close> is at the \<open>k\<close>-th store of the copy; a \<open>printf\<close> has printed the string it carries.\<close>

datatype server_pc = Clear | Put_hi nat | Set_one | Print_sent string | Wait_two | Print_reply string | Server_done | Server_ran_past
datatype client_pc = Wait_one | Print_got string | Put_hello nat | Set_two | Print_own string | Client_done | Client_ran_past

record flag_exchange =
  flag :: int
  seg_text :: "char list"
  s_at :: server_pc
  c_at :: client_pc
  s_sent :: "string option"  \<comment> \<open>what the server printed as sent\<close>
  s_reply :: "string option"
  c_got :: "string option"
  c_sent :: "string option"

text \<open>
  The stores of \<open>strncpy(data->text, t, sizeof(data->text))\<close>, which fills the field with NUL behind the text, and
  then of the last byte.
\<close>

definition put_stores :: "string \<Rightarrow> (nat \<times> char) list" where
  "put_stores t =
     map (\<lambda>i. (i, if i < length t then t ! i else NUL)) [0 ..< TEXT_SIZE] @ [(TEXT_SIZE - 1, NUL)]"

definition store_byte :: "nat \<times> char \<Rightarrow> flag_exchange \<Rightarrow> flag_exchange" where
  "store_byte st x = x\<lparr>seg_text := (seg_text x)[fst st := snd st]\<rparr>"

text \<open>\<open>printf\<close> of the text at the byte behind what it has printed; it runs past a field without NUL.\<close>

datatype printing = Printed string | Prints string | Past_end

definition print_byte :: "string \<Rightarrow> flag_exchange \<Rightarrow> printing" where
  "print_byte out x =
     (if length out \<ge> TEXT_SIZE then Past_end
      else if seg_text x ! length out = NUL then Printed out
      else Prints (out @ [seg_text x ! length out]))"

definition flag_server :: "flag_exchange \<Rightarrow> flag_exchange option" where
  "flag_server x =
     (case s_at x of
        Clear \<Rightarrow> Some (x\<lparr>flag := 0, s_at := Put_hi 0\<rparr>)
      | Put_hi k \<Rightarrow>
          Some ((store_byte (put_stores ''Hi!'' ! k) x)
            \<lparr>s_at := if Suc k < length (put_stores ''Hi!'') then Put_hi (Suc k) else Set_one\<rparr>)
      | Set_one \<Rightarrow> Some (x\<lparr>flag := 1, s_at := Print_sent []\<rparr>)
      | Print_sent out \<Rightarrow>
          (case print_byte out x of
             Prints out' \<Rightarrow> Some (x\<lparr>s_at := Print_sent out'\<rparr>)
           | Printed out' \<Rightarrow> Some (x\<lparr>s_sent := Some out', s_at := Wait_two\<rparr>)
           | Past_end \<Rightarrow> Some (x\<lparr>s_at := Server_ran_past\<rparr>))
      | Wait_two \<Rightarrow> if flag x = 2 then Some (x\<lparr>s_at := Print_reply []\<rparr>) else None
      | Print_reply out \<Rightarrow>
          (case print_byte out x of
             Prints out' \<Rightarrow> Some (x\<lparr>s_at := Print_reply out'\<rparr>)
           | Printed out' \<Rightarrow> Some (x\<lparr>s_reply := Some out', s_at := Server_done\<rparr>)
           | Past_end \<Rightarrow> Some (x\<lparr>s_at := Server_ran_past\<rparr>))
      | Server_done \<Rightarrow> None
      | Server_ran_past \<Rightarrow> None)"

definition flag_client :: "flag_exchange \<Rightarrow> flag_exchange option" where
  "flag_client x =
     (case c_at x of
        Wait_one \<Rightarrow> if flag x = 1 then Some (x\<lparr>c_at := Print_got []\<rparr>) else None
      | Print_got out \<Rightarrow>
          (case print_byte out x of
             Prints out' \<Rightarrow> Some (x\<lparr>c_at := Print_got out'\<rparr>)
           | Printed out' \<Rightarrow> Some (x\<lparr>c_got := Some out', c_at := Put_hello 0\<rparr>)
           | Past_end \<Rightarrow> Some (x\<lparr>c_at := Client_ran_past\<rparr>))
      | Put_hello k \<Rightarrow>
          Some ((store_byte (put_stores ''Hello!'' ! k) x)
            \<lparr>c_at := if Suc k < length (put_stores ''Hello!'') then Put_hello (Suc k) else Set_two\<rparr>)
      | Set_two \<Rightarrow> Some (x\<lparr>flag := 2, c_at := Print_own []\<rparr>)
      | Print_own out \<Rightarrow>
          (case print_byte out x of
             Prints out' \<Rightarrow> Some (x\<lparr>c_at := Print_own out'\<rparr>)
           | Printed out' \<Rightarrow> Some (x\<lparr>c_sent := Some out', c_at := Client_done\<rparr>)
           | Past_end \<Rightarrow> Some (x\<lparr>c_at := Client_ran_past\<rparr>))
      | Client_done \<Rightarrow> None
      | Client_ran_past \<Rightarrow> None)"

fun flag_next :: "party \<Rightarrow> flag_exchange \<Rightarrow> flag_exchange option" where
  "flag_next Server x = flag_server x"
| "flag_next Client x = flag_client x"

text \<open>The segment at the beginning: fresh from the system, or left over with some flag and text.\<close>

definition flag_start :: "int \<Rightarrow> char list \<Rightarrow> flag_exchange" where
  "flag_start f t =
     \<lparr>flag = f, seg_text = t, s_at = Clear, c_at = Wait_one, s_sent = None, s_reply = None, c_got = None, c_sent = None\<rparr>"

abbreviation flagged :: "int \<Rightarrow> char list \<Rightarrow> flag_exchange \<Rightarrow> bool" where
  "flagged f t \<equiv> reach flag_next (flag_start f t)"

text \<open>The field with the first \<open>k\<close> bytes of the reply over the text of the server.\<close>

definition byte_of :: "string \<Rightarrow> nat \<Rightarrow> char" where
  "byte_of t i = (if i < length t then t ! i else NUL)"

definition mixed :: "nat \<Rightarrow> char list" where
  "mixed k = map (\<lambda>i. byte_of (if i < k then ''Hello!'' else ''Hi!'') i) [0 ..< TEXT_SIZE]"

lemma length_mixed [simp]: "length (mixed k) = TEXT_SIZE"
  by (simp add: mixed_def)

lemma nth_mixed [simp]: "i < TEXT_SIZE \<Longrightarrow> mixed k ! i = byte_of (if i < k then ''Hello!'' else ''Hi!'') i"
  by (simp add: mixed_def)

lemma put_stores_nth:
  "k < TEXT_SIZE \<Longrightarrow> put_stores t ! k = (k, byte_of t k)" "put_stores t ! TEXT_SIZE = (TEXT_SIZE - 1, NUL)"
  "length (put_stores t) = Suc TEXT_SIZE"
  by (simp_all add: put_stores_def byte_of_def nth_append)

text \<open>A store of the client moves the border; the last byte is NUL already.\<close>

lemma mixed_store:
  assumes "k \<le> TEXT_SIZE"
  shows "(mixed (min k TEXT_SIZE))[fst (put_stores ''Hello!'' ! k) := snd (put_stores ''Hello!'' ! k)] =
           mixed (min (Suc k) TEXT_SIZE)"
proof (cases "k = TEXT_SIZE")
  case True
  have "(mixed TEXT_SIZE)[TEXT_SIZE - 1 := NUL] = mixed TEXT_SIZE"
    by (rule nth_equalityI) (auto simp: nth_list_update byte_of_def TEXT_SIZE_def)
  with True show ?thesis by (simp add: put_stores_nth)
next
  case False
  with assms have "k < TEXT_SIZE" by simp
  then show ?thesis by (intro nth_equalityI) (auto simp: nth_list_update put_stores_nth min_def)
qed

text \<open>What a \<open>printf\<close> prints of a text that stays.\<close>

definition prefix_of :: "string \<Rightarrow> string \<Rightarrow> bool" where
  "prefix_of out t = (out = take (length out) t)"

lemma print_settled:
  assumes "prefix_of out t" "\<forall>i < TEXT_SIZE. seg_text x ! i = byte_of t i" "length t < TEXT_SIZE" "NUL \<notin> set t"
  shows "print_byte out x = (if length out = length t then Printed t else Prints (take (Suc (length out)) t))"
    and "length out \<le> length t"
proof -
  show l: "length out \<le> length t" using assms(1) by (metis prefix_of_def length_take min.cobounded1)
  then show "print_byte out x = (if length out = length t then Printed t else Prints (take (Suc (length out)) t))"
    using assms by (auto simp: print_byte_def byte_of_def prefix_of_def take_Suc_conv_app_nth in_set_conv_nth)
qed

text \<open>A line that may mix the two texts, each letter at its place.\<close>

definition torn :: "string \<Rightarrow> bool" where
  "torn out = (length out \<le> 6 \<and> (\<forall>i < length out. out ! i \<in> {byte_of ''Hi!'' i, byte_of ''Hello!'' i}))"

lemma print_mixed:
  assumes "torn out" "seg_text x = mixed k"
  shows "print_byte out x = Printed out \<or> (\<exists>out'. print_byte out x = Prints out' \<and> torn out')"
proof -
  have l: "length out < TEXT_SIZE" using assms(1) by (simp add: torn_def TEXT_SIZE_def)
  let ?c = "seg_text x ! length out"
  have c: "?c \<in> {byte_of ''Hi!'' (length out), byte_of ''Hello!'' (length out)}"
    using l assms(2) by simp
  show ?thesis
  proof (cases "?c = NUL")
    case True
    with l show ?thesis by (simp add: print_byte_def)
  next
    case False
    with c have "length out < 6" by (auto simp: byte_of_def split: if_splits)
    then have "torn (out @ [?c])" using assms(1) c by (auto simp: torn_def nth_append less_Suc_eq)
    with False l show ?thesis by (simp add: print_byte_def)
  qed
qed

text \<open>From the flag on, the field is where the client's copy stands.\<close>

fun copied :: "client_pc \<Rightarrow> nat" where
  "copied Wait_one = 0" | "copied (Print_got out) = 0" | "copied (Put_hello k) = min k TEXT_SIZE" | "copied _ = TEXT_SIZE"

definition client_ok :: "flag_exchange \<Rightarrow> bool" where
  "client_ok x =
     (seg_text x = mixed (copied (c_at x)) \<and>
      (case c_at x of
         Wait_one \<Rightarrow> flag x = 1
       | Print_got out \<Rightarrow> flag x = 1 \<and> prefix_of out ''Hi!''
       | Put_hello k \<Rightarrow> flag x = 1 \<and> k \<le> TEXT_SIZE
       | Set_two \<Rightarrow> flag x = 1
       | Print_own out \<Rightarrow> flag x = 2 \<and> prefix_of out ''Hello!''
       | Client_done \<Rightarrow> flag x = 2
       | Client_ran_past \<Rightarrow> False))"

lemma client_ok_server [simp]:
  "client_ok (x\<lparr>s_sent := w\<rparr>) = client_ok x" "client_ok (x\<lparr>s_reply := w\<rparr>) = client_ok x"
  "client_ok (x\<lparr>s_at := p\<rparr>) = client_ok x"
  by (simp_all add: client_ok_def cong: client_pc.case_cong)

definition server_ok :: "flag_exchange \<Rightarrow> bool" where
  "server_ok x =
     (case s_at x of
        Clear \<Rightarrow> c_at x = Wait_one \<and> flag x \<noteq> 1 \<and> length (seg_text x) = TEXT_SIZE
      | Put_hi k \<Rightarrow> c_at x = Wait_one \<and> flag x \<noteq> 1 \<and> length (seg_text x) = TEXT_SIZE \<and>
          k \<le> TEXT_SIZE \<and> (\<forall>i < k. i < TEXT_SIZE \<longrightarrow> seg_text x ! i = byte_of ''Hi!'' i)
      | Set_one \<Rightarrow> c_at x = Wait_one \<and> flag x \<noteq> 1 \<and> seg_text x = mixed 0
      | Print_sent out \<Rightarrow> client_ok x \<and> torn out
      | Wait_two \<Rightarrow> client_ok x
      | Print_reply out \<Rightarrow> client_ok x \<and> flag x = 2 \<and> prefix_of out ''Hello!''
      | Server_done \<Rightarrow> client_ok x \<and> flag x = 2
      | Server_ran_past \<Rightarrow> False)"

definition printed_ok :: "flag_exchange \<Rightarrow> bool" where
  "printed_ok x =
     ((\<forall>w. s_sent x = Some w \<longrightarrow> torn w) \<and> (case s_at x of Wait_two \<Rightarrow> s_sent x \<noteq> None | Print_reply _ \<Rightarrow> s_sent x \<noteq> None | Server_done \<Rightarrow> s_sent x \<noteq> None | _ \<Rightarrow> True) \<and>
      s_reply x = (if s_at x = Server_done then Some ''Hello!'' else None) \<and>
      c_got x = (case c_at x of Wait_one \<Rightarrow> None | Print_got _ \<Rightarrow> None | _ \<Rightarrow> Some ''Hi!'') \<and>
      c_sent x = (if c_at x = Client_done then Some ''Hello!'' else None))"

definition flag_ok :: "flag_exchange \<Rightarrow> bool" where
  "flag_ok x = (server_ok x \<and> printed_ok x)"

lemma print_text:
  assumes "prefix_of out t" "seg_text x = mixed k" "t = ''Hi!'' \<and> k = 0 \<or> t = ''Hello!'' \<and> k = TEXT_SIZE"
  shows "print_byte out x = Printed t \<or> (\<exists>out'. print_byte out x = Prints out' \<and> prefix_of out' t)"
proof -
  have "\<forall>i < TEXT_SIZE. seg_text x ! i = byte_of t i" "length t < TEXT_SIZE" "NUL \<notin> set t"
    using assms(2,3) by (auto simp: TEXT_SIZE_def NUL_def)
  from print_settled [OF assms(1) this] show ?thesis by (auto simp: prefix_of_def)
qed

lemma put_hi_store:
  assumes "length t = TEXT_SIZE" "k \<le> TEXT_SIZE" "\<forall>i < k. i < TEXT_SIZE \<longrightarrow> t ! i = byte_of ''Hi!'' i"
  defines "t' \<equiv> t[fst (put_stores ''Hi!'' ! k) := snd (put_stores ''Hi!'' ! k)]"
  shows "length t' = TEXT_SIZE" "\<forall>i < Suc k. i < TEXT_SIZE \<longrightarrow> t' ! i = byte_of ''Hi!'' i"
    "k = TEXT_SIZE \<Longrightarrow> t' = mixed 0"
proof -
  show l: "length t' = TEXT_SIZE" by (simp add: t'_def assms(1))
  have last: "byte_of ''Hi!'' (TEXT_SIZE - 1) = NUL" by (simp add: byte_of_def TEXT_SIZE_def)
  show all: "\<forall>i < Suc k. i < TEXT_SIZE \<longrightarrow> t' ! i = byte_of ''Hi!'' i"
    using assms(1-3) last put_stores_nth [where t = "''Hi!''"]
    by (cases "k = TEXT_SIZE") (auto simp: t'_def nth_list_update less_Suc_eq)
  show "t' = mixed 0" if "k = TEXT_SIZE"
    using all l that by (intro nth_equalityI) auto
qed

lemma flag_server_ok:
  assumes "flag_ok x" "flag_server x = Some x'"
  shows "flag_ok x'"
proof (cases "s_at x")
  case (Put_hi k)
  then have k: "k \<le> TEXT_SIZE" "length (seg_text x) = TEXT_SIZE"
    "\<forall>i < k. i < TEXT_SIZE \<longrightarrow> seg_text x ! i = byte_of ''Hi!'' i"
    using assms(1) by (auto simp: flag_ok_def server_ok_def)
  from put_hi_store [OF k(2,1,3)] Put_hi k(1) assms show ?thesis
    by (auto simp: flag_ok_def server_ok_def printed_ok_def flag_server_def store_byte_def put_stores_nth(3) split: if_splits)
next
  case (Print_sent out)
  then have "torn out" "seg_text x = mixed (copied (c_at x))" using assms(1) by (auto simp: flag_ok_def server_ok_def client_ok_def)
  from print_mixed [OF this] show ?thesis
    using assms Print_sent \<open>torn out\<close> by (auto simp: flag_ok_def server_ok_def printed_ok_def flag_server_def)
next
  case (Print_reply out)
  then have "prefix_of out ''Hello!''" "seg_text x = mixed TEXT_SIZE"
    using assms(1) by (auto simp: flag_ok_def server_ok_def client_ok_def split: client_pc.splits)
  from print_text [OF this] show ?thesis
    using assms Print_reply by (auto simp: flag_ok_def server_ok_def printed_ok_def flag_server_def)
next
  case Set_one
  with assms show ?thesis
    by (auto simp: flag_ok_def server_ok_def printed_ok_def client_ok_def flag_server_def torn_def)
qed (use assms in \<open>auto simp: flag_ok_def server_ok_def printed_ok_def flag_server_def prefix_of_def split: if_splits\<close>)

text \<open>A step of the client leaves the server where it is.\<close>

lemma client_keeps_server: "flag_client x = Some x' \<Longrightarrow> s_at x' = s_at x \<and> s_sent x' = s_sent x \<and> s_reply x' = s_reply x"
  by (cases "c_at x") (auto simp: flag_client_def store_byte_def split: printing.splits if_splits)

lemma flag_client_step:
  assumes "client_ok x" "flag_client x = Some x'"
    and "c_got x = (case c_at x of Wait_one \<Rightarrow> None | Print_got _ \<Rightarrow> None | _ \<Rightarrow> Some ''Hi!'')"
    and "c_sent x = (if c_at x = Client_done then Some ''Hello!'' else None)"
  shows "client_ok x' \<and> (flag x = 2 \<longrightarrow> flag x' = 2) \<and>
    c_got x' = (case c_at x' of Wait_one \<Rightarrow> None | Print_got _ \<Rightarrow> None | _ \<Rightarrow> Some ''Hi!'') \<and>
    c_sent x' = (if c_at x' = Client_done then Some ''Hello!'' else None)"
proof (cases "c_at x")
  case (Print_got out)
  then have "prefix_of out ''Hi!''" "seg_text x = mixed 0" using assms(1) by (simp_all add: client_ok_def)
  from print_text [OF this] show ?thesis using assms Print_got by (auto simp: client_ok_def flag_client_def)
next
  case (Put_hello k)
  then have "k \<le> TEXT_SIZE" using assms(1) by (simp add: client_ok_def)
  from mixed_store [OF this] show ?thesis
    using assms Put_hello \<open>k \<le> TEXT_SIZE\<close>
    by (auto simp: client_ok_def flag_client_def store_byte_def put_stores_nth(3) split: if_splits)
next
  case (Print_own out)
  then have "prefix_of out ''Hello!''" "seg_text x = mixed TEXT_SIZE" using assms(1) by (simp_all add: client_ok_def)
  from print_text [OF this] show ?thesis using assms Print_own by (auto simp: client_ok_def flag_client_def)
qed (use assms in \<open>auto simp: client_ok_def flag_client_def prefix_of_def split: if_splits\<close>)

lemma flag_client_ok:
  assumes "flag_ok x" "flag_client x = Some x'"
  shows "flag_ok x'"
proof -
  have "client_ok x"
    using assms by (cases "s_at x") (auto simp: flag_ok_def server_ok_def flag_client_def)
  moreover have "s_at x \<notin> {Clear, Set_one}" "\<forall>k. s_at x \<noteq> Put_hi k"
    using assms by (auto simp: flag_ok_def server_ok_def flag_client_def)
  moreover have p: "printed_ok x" using assms(1) by (simp add: flag_ok_def)
  then have "c_got x = (case c_at x of Wait_one \<Rightarrow> None | Print_got _ \<Rightarrow> None | _ \<Rightarrow> Some ''Hi!'')"
    "c_sent x = (if c_at x = Client_done then Some ''Hello!'' else None)"
    by (simp_all only: printed_ok_def)
  ultimately have c: "client_ok x'" "flag x = 2 \<longrightarrow> flag x' = 2"
    "c_got x' = (case c_at x' of Wait_one \<Rightarrow> None | Print_got _ \<Rightarrow> None | _ \<Rightarrow> Some ''Hi!'')"
    "c_sent x' = (if c_at x' = Client_done then Some ''Hello!'' else None)"
    using flag_client_step [OF _ assms(2)] by blast+
  note k = client_keeps_server [OF assms(2)]
  have "printed_ok x'" using p c(3,4) k unfolding printed_ok_def by (simp cong: server_pc.case_cong)
  moreover have "server_ok x'"
    using assms(1) c(1,2) k \<open>s_at x \<notin> {Clear, Set_one}\<close> \<open>\<forall>k. s_at x \<noteq> Put_hi k\<close>
    by (cases "s_at x") (simp_all add: flag_ok_def server_ok_def)
  ultimately show ?thesis by (simp add: flag_ok_def)
qed

lemma flag_ok_step: "flag_ok x \<Longrightarrow> flag_next p x = Some x' \<Longrightarrow> flag_ok x'"
  by (cases p; simp only: flag_next.simps) (erule (1) flag_server_ok flag_client_ok)+

interpretation flags: kept_invariant flag_next flag_ok
  by unfold_locales (rule flag_ok_step)

lemma flagged_ok:
  assumes "flagged f t x" "f \<noteq> 1" "length t = TEXT_SIZE"
  shows "flag_ok x"
proof -
  have "flag_ok (flag_start f t)" using assms(2,3) by (simp add: flag_ok_def flag_start_def server_ok_def printed_ok_def)
  with assms(1) show ?thesis by (rule flags.reach_keeps)
qed

lemma flag_stuck:
  assumes "flag_ok x" "\<forall>p. flag_next p x = None"
  shows "s_at x = Server_done \<and> c_at x = Client_done"
proof -
  have n: "flag_server x = None" "flag_client x = None"
    using assms(2) [rule_format, of Server] assms(2) [rule_format, of Client] by simp_all
  have "s_at x \<in> {Wait_two, Server_done}"
    using n(1) assms(1)
    by (auto simp: flag_server_def flag_ok_def server_ok_def split: server_pc.splits printing.splits)
  moreover from this have "client_ok x" using assms(1) by (auto simp: flag_ok_def server_ok_def)
  ultimately show ?thesis
    using n assms(1)
    by (auto simp: flag_client_def flag_server_def client_ok_def flag_ok_def server_ok_def
        split: client_pc.splits printing.splits if_splits)
qed

text \<open>The client overtakes the server: its copy starts while the server prints what it has sent.\<close>

definition overtaking :: "party list" where
  "overtaking = replicate 69 Server @ replicate 72 Client @ replicate 5 Server"

lemma overtaken: "\<exists>x. flagged 0 (replicate 64 NUL) x \<and> s_sent x = Some ''Hillo!''"
proof -
  have "case run_steps flag_next overtaking (flag_start 0 (replicate 64 NUL)) of
      None \<Rightarrow> False | Some x \<Rightarrow> s_sent x = Some ''Hillo!''"
    by code_simp
  from run_finds [OF this] show ?thesis by blast
qed

text \<open>
  Property C21. Through the segment, when its flag is not 1 at the beginning (a fresh segment is zero) and whatever its
  text holds, in every order of accesses the client prints exactly the server's text as received, the
  server prints exactly the client's as the reply, and the client exactly its own as sent; no \<open>printf\<close> runs past the field,
  and the exchange does not get stuck before all is printed. Only the server's line on what it has sent may
  mix the two texts, each letter at its place: it reads the segment when the client may write there already.
\<close>

theorem flag_exchange_correct:
  "(\<forall>f t x. flagged f t x \<longrightarrow> f \<noteq> 1 \<longrightarrow> length t = 64 \<longrightarrow>
      c_got x \<in> {None, Some ''Hi!''} \<and> s_reply x \<in> {None, Some ''Hello!''} \<and> c_sent x \<in> {None, Some ''Hello!''} \<and>
      (\<forall>w. s_sent x = Some w \<longrightarrow> (\<forall>i < length w. w ! i \<in> {byte_of ''Hi!'' i, byte_of ''Hello!'' i})) \<and>
      s_at x \<noteq> Server_ran_past \<and> c_at x \<noteq> Client_ran_past \<and>
      ((\<forall>p. flag_next p x = None) \<longrightarrow>
         c_got x = Some ''Hi!'' \<and> s_reply x = Some ''Hello!'' \<and> c_sent x = Some ''Hello!'' \<and> s_sent x \<noteq> None)) \<and>
   (\<exists>x. flagged 0 (replicate 64 NUL) x \<and> s_sent x = Some ''Hillo!'')"
proof (intro conjI [OF _ overtaken] allI impI)
  fix f t x assume "flagged f t x" "f \<noteq> 1" "length t = 64"
  then have ok: "flag_ok x" using flagged_ok by (simp add: TEXT_SIZE_def)
  have "c_got x = Some ''Hi!'' \<and> s_reply x = Some ''Hello!'' \<and> c_sent x = Some ''Hello!'' \<and> s_sent x \<noteq> None"
    if "\<forall>p. flag_next p x = None"
    using flag_stuck [OF ok that] ok by (auto simp: flag_ok_def printed_ok_def)
  moreover have "s_at x \<noteq> Server_ran_past" "c_at x \<noteq> Client_ran_past"
    using ok by (auto simp: flag_ok_def server_ok_def client_ok_def split: server_pc.splits)
  moreover have "c_got x \<in> {None, Some ''Hi!''}" "s_reply x \<in> {None, Some ''Hello!''}" "c_sent x \<in> {None, Some ''Hello!''}"
    "\<forall>w. s_sent x = Some w \<longrightarrow> (\<forall>i < length w. w ! i \<in> {byte_of ''Hi!'' i, byte_of ''Hello!'' i})"
    using ok by (auto simp: flag_ok_def printed_ok_def torn_def split: client_pc.splits)
  ultimately show "c_got x \<in> {None, Some ''Hi!''} \<and> s_reply x \<in> {None, Some ''Hello!''} \<and> c_sent x \<in> {None, Some ''Hello!''} \<and>
      (\<forall>w. s_sent x = Some w \<longrightarrow> (\<forall>i < length w. w ! i \<in> {byte_of ''Hi!'' i, byte_of ''Hello!'' i})) \<and>
      s_at x \<noteq> Server_ran_past \<and> c_at x \<noteq> Client_ran_past \<and>
      ((\<forall>p. flag_next p x = None) \<longrightarrow>
         c_got x = Some ''Hi!'' \<and> s_reply x = Some ''Hello!'' \<and> c_sent x = Some ''Hello!'' \<and> s_sent x \<noteq> None)"
    by blast
qed

text \<open>Each one after the other.\<close>

definition in_turn :: "party list" where
  "in_turn = replicate 71 Server @ replicate 78 Client @ replicate 8 Server"

theorem flag_exchange_correct_witness:
  "\<exists>x. flagged 0 (replicate 64 NUL) x \<and> (\<forall>p. flag_next p x = None) \<and>
     c_got x = Some ''Hi!'' \<and> s_reply x = Some ''Hello!''"
proof -
  have "case run_steps flag_next in_turn (flag_start 0 (replicate 64 NUL)) of
      None \<Rightarrow> False | Some x \<Rightarrow> s_at x = Server_done \<and> c_at x = Client_done"
    by code_simp
  from run_finds [OF this] obtain x where x: "flagged 0 (replicate 64 NUL) x" "s_at x = Server_done" "c_at x = Client_done"
    by blast
  have "\<forall>p. flag_next p x = None"
  proof
    show "flag_next p x = None" for p using x by (cases p) (simp_all add: flag_server_def flag_client_def)
  qed
  with flag_exchange_correct x(1) show ?thesis by (intro exI [of _ x]) simp
qed

end
