(* ===== verification/Resources.thy ===== *)
theory Resources
  imports C_Prelude
begin

text \<open>
  The programs of \<open>message_queues\<close> and \<open>shared_memory\<close> as sequences of calls that may fail: what they open,
  what each exit path closes, and what survives them. A program is a tree of calls, branching on success
  (\<open>program\<close>); the weakest precondition of such a tree says what is held at its exits, and is sound for
  every outcome of the calls. \<open>Say\<close> names a line printed by a word of it, \<open>Perror\<close> the text of \<open>perror\<close>. What
  the calls carry from process to process is the subject of \<open>Ping_Pong\<close>, \<open>Chat_Queue\<close> and \<open>Chat_Shared\<close>.
\<close>

section \<open>Calls and resources\<close>

datatype call =
    Fgets_name
  | Mq_open string bool | Mq_close string | Mq_unlink string | Mq_send string string | Mq_receive string
  | Ftok | Msgget bool | Msgsnd nat string | Msgrcv nat | Msgctl_rmid
  | Shm_open bool | Ftruncate | Mmap | Close_segment | Munmap | Shm_unlink
  | Shmget bool | Shmat | Shmdt | Shmctl_rmid
  | Semget bool | Semctl_setval | Semctl_rmid
  | Initscr | Endwin | Curses string | Mutex_lock | Mutex_unlock | Pthread_create string | Pthread_cancel string | Pthread_join string
  | Set_flag int | Put_text string | Await_flag int | Clear_chat | Set_running bool | Join_chat

text \<open>
  What a program may hold. Names of queues and segments and System V identifiers outlive the process;
  descriptors, mappings, the screen and threads do not.
\<close>

datatype resource =
    Queue_name string | Queue string | Msg_id | Shm_name | Segment_fd | Mapping | Shm_id | Attachment | Sem_id | Screen | Screen_mutex | Thread string

fun outlives :: "resource \<Rightarrow> bool" where
  "outlives (Queue_name n) = True"
| "outlives Msg_id = True"
| "outlives Shm_name = True"
| "outlives Shm_id = True"
| "outlives Sem_id = True"
| "outlives r = False"

text \<open>
  What a successful call gives to the program and takes from it. A creating call makes the name the program's
  own. A call that fails changes nothing: what it should have released is still held.
\<close>

fun acquired :: "call \<Rightarrow> resource set" where
  "acquired (Mq_open n create) = insert (Queue n) (if create then {Queue_name n} else {})"
| "acquired (Msgget create) = (if create then {Msg_id} else {})"
| "acquired (Shm_open create) = insert Segment_fd (if create then {Shm_name} else {})"
| "acquired Mmap = {Mapping}"
| "acquired (Shmget create) = (if create then {Shm_id} else {})"
| "acquired Shmat = {Attachment}"
| "acquired (Semget create) = (if create then {Sem_id} else {})"
| "acquired Initscr = {Screen}"
| "acquired Mutex_lock = {Screen_mutex}"
| "acquired (Pthread_create t) = {Thread t}"
| "acquired c = {}"

fun released :: "call \<Rightarrow> resource set" where
  "released (Mq_close n) = {Queue n}"
| "released (Mq_unlink n) = {Queue_name n}"
| "released Msgctl_rmid = {Msg_id}"
| "released Close_segment = {Segment_fd}"
| "released Munmap = {Mapping}"
| "released Shm_unlink = {Shm_name}"
| "released Shmdt = {Attachment}"
| "released Shmctl_rmid = {Shm_id}"
| "released Semctl_rmid = {Sem_id}"
| "released Endwin = {Screen}"
| "released Mutex_unlock = {Screen_mutex}"
| "released (Pthread_join t) = {Thread t}"
| "released c = {}"

definition effect :: "call \<Rightarrow> bool \<Rightarrow> resource set \<Rightarrow> resource set" where
  "effect c ok R = (if ok then R \<union> acquired c - released c else R)"

section \<open>Programs\<close>

datatype program =
    Return nat
  | Blocked
  | Say string program
  | Perror string program
  | Call call "bool \<Rightarrow> program"

text \<open>A call whose result the program does not look at.\<close>

abbreviation then_do :: "call \<Rightarrow> program \<Rightarrow> program" where
  "then_do c k \<equiv> Call c (\<lambda>ok. k)"

text \<open>
  A run: the outcome of a call may depend on all calls before it. The result is what is held at the
  end, the calls made, and the status, \<open>None\<close> for a program that waits for ever.
\<close>

type_synonym history = "(call \<times> bool) list"

primrec run ::
  "program \<Rightarrow> (history \<Rightarrow> call \<Rightarrow> bool) \<Rightarrow> history \<Rightarrow> resource set \<Rightarrow> resource set \<times> history \<times> nat option" where
  "run (Return n) ok h R = (R, h, Some n)"
| "run Blocked ok h R = (R, h, None)"
| "run (Say t k) ok h R = run k ok h R"
| "run (Perror t k) ok h R = run k ok h R"
| "run (Call c k) ok h R = run (k (ok h c)) ok (h @ [(c, ok h c)]) (effect c (ok h c) R)"

text \<open>The weakest precondition of a program that returns with \<open>Q\<close>, however its calls turn out.\<close>

primrec wp :: "(resource set \<Rightarrow> history \<Rightarrow> nat \<Rightarrow> bool) \<Rightarrow> program \<Rightarrow> history \<Rightarrow> resource set \<Rightarrow> bool" where
  "wp Q (Return n) h R = Q R h n"
| "wp Q Blocked h R = True"
| "wp Q (Say t k) h R = wp Q k h R"
| "wp Q (Perror t k) h R = wp Q k h R"
| "wp Q (Call c k) h R = (wp Q (k True) (h @ [(c, True)]) (effect c True R) \<and> wp Q (k False) (h @ [(c, False)]) (effect c False R))"

lemma wp_sound: "wp Q p h R \<Longrightarrow> run p ok h R = (R', h', Some n) \<Longrightarrow> Q R' h' n"
proof (induction p arbitrary: h R)
  case (Call c k)
  show ?case
  proof (cases "ok h c")
    case True
    with Call.prems show ?thesis by (intro Call.IH [of "k True"]) auto
  next
    case False
    with Call.prems show ?thesis by (intro Call.IH [of "k False"]) auto
  qed
qed simp_all

text \<open>
  A program that makes a release call for whatever it has acquired, on every path to a return. \<open>U\<close> is what it
  has still to release: an attempt, successful or not, is enough.
\<close>

primrec tidy :: "program \<Rightarrow> resource set \<Rightarrow> bool" where
  "tidy (Return n) U = (U = {})"
| "tidy Blocked U = True"
| "tidy (Say t k) U = tidy k U"
| "tidy (Perror t k) U = tidy k U"
| "tidy (Call c k) U = (tidy (k True) (U \<union> acquired c - released c) \<and> tidy (k False) (U - released c))"

text \<open>A call that should have released \<open>r\<close> failed, and nothing acquired \<open>r\<close> after that.\<close>

definition release_failed :: "history \<Rightarrow> resource \<Rightarrow> bool" where
  "release_failed h r =
     (\<exists>h1 c h2. h = h1 @ (c, False) # h2 \<and> r \<in> released c \<and> (\<forall>c'. (c', True) \<in> set h2 \<longrightarrow> r \<notin> acquired c'))"

lemma release_failed_now: "r \<in> released c \<Longrightarrow> release_failed (h @ [(c, False)]) r"
  unfolding release_failed_def by (rule exI [of _ h], rule exI [of _ c], rule exI [of _ "[]"]) simp

lemma release_failed_later:
  "release_failed h r \<Longrightarrow> ok \<longrightarrow> r \<notin> acquired c \<Longrightarrow> release_failed (h @ [(c, ok)]) r"
  unfolding release_failed_def by (elim exE conjE, rule_tac x = h1 in exI, rule_tac x = ca in exI,
      rule_tac x = "h2 @ [(c, ok)]" in exI) auto

lemma tidy_sound:
  "tidy p U \<Longrightarrow> run p ok h R = (R', h', Some n) \<Longrightarrow> \<forall>r \<in> R. r \<in> U \<or> release_failed h r \<Longrightarrow>
     \<forall>r \<in> R'. release_failed h' r"
proof (induction p arbitrary: h R U)
  case (Call c k)
  show ?case
  proof (cases "ok h c")
    case True
    have "\<forall>r \<in> effect c True R. r \<in> U \<union> acquired c - released c \<or> release_failed (h @ [(c, True)]) r"
      using Call.prems(3) release_failed_later [of h _ True c] by (auto simp: effect_def)
    with Call.prems(1,2) True show ?thesis by (intro Call.IH [of "k True"]) auto
  next
    case False
    have "\<forall>r \<in> effect c False R. r \<in> U - released c \<or> release_failed (h @ [(c, False)]) r"
      using Call.prems(3) release_failed_later [of h _ False c] release_failed_now [of _ c h] by (auto simp: effect_def)
    with Call.prems(1,2) False show ?thesis by (intro Call.IH [of "k False"]) auto
  qed
qed auto

subsection \<open>Message queues\<close>

definition MQ_NAME :: string where "MQ_NAME = ''/mq_lab1''"

definition mq_server_posix :: program where
  "mq_server_posix =
     then_do (Mq_unlink MQ_NAME)
       (Call (Mq_open MQ_NAME True) (\<lambda>opened.
          if \<not> opened then Perror ''mq_open'' (Return 1)
          else Call (Mq_send MQ_NAME ''Hi!'') (\<lambda>sent.
            if \<not> sent then Perror ''mq_send'' (then_do (Mq_close MQ_NAME) (then_do (Mq_unlink MQ_NAME) (Return 1)))
            else Say ''sent''
              (Call (Mq_receive MQ_NAME) (\<lambda>got.
                 if \<not> got then
                   Perror ''mq_receive'' (then_do (Mq_close MQ_NAME) (then_do (Mq_unlink MQ_NAME) (Return 1)))
                 else Say ''received''
                   (then_do (Mq_close MQ_NAME) (then_do (Mq_unlink MQ_NAME) (Return 0))))))))"

definition mq_client_posix :: program where
  "mq_client_posix =
     Call (Mq_open MQ_NAME False) (\<lambda>opened.
       if \<not> opened then Perror ''mq_open'' (Return 1)
       else Call (Mq_receive MQ_NAME) (\<lambda>got.
         if \<not> got then Perror ''mq_receive'' (then_do (Mq_close MQ_NAME) (Return 1))
         else Say ''got''
           (Call (Mq_send MQ_NAME ''Hello!'') (\<lambda>sent.
              if \<not> sent then Perror ''mq_send'' (then_do (Mq_close MQ_NAME) (Return 1))
              else Say ''sent reply'' (then_do (Mq_close MQ_NAME) (Return 0))))))"

definition mq_server_sysv :: program where
  "mq_server_sysv =
     Call Ftok (\<lambda>key.
       if \<not> key then Perror ''ftok'' (Return 1)
       else Call (Msgget True) (\<lambda>msgid.
         if \<not> msgid then Perror ''msgget'' (Return 1)
         else Call (Msgsnd 1 ''Hi!'') (\<lambda>sent.
           if \<not> sent then Perror ''msgsnd'' (then_do Msgctl_rmid (Return 1))
           else Say ''sent''
             (Call (Msgrcv 2) (\<lambda>got.
                if \<not> got then Perror ''msgrcv'' (then_do Msgctl_rmid (Return 1))
                else Say ''received''
                  (Call Msgctl_rmid (\<lambda>removed.
                     if \<not> removed then Perror ''msgctl'' (Return 1) else Return 0)))))))"

definition mq_client_sysv :: program where
  "mq_client_sysv =
     Call Ftok (\<lambda>key.
       if \<not> key then Perror ''ftok'' (Return 1)
       else Call (Msgget False) (\<lambda>msgid.
         if \<not> msgid then Perror ''msgget'' (Return 1)
         else Call (Msgrcv 1) (\<lambda>got.
           if \<not> got then Perror ''msgrcv'' (Return 1)
           else Say ''got from server''
             (Call (Msgsnd 2 ''Hello!'') (\<lambda>sent.
                if \<not> sent then Perror ''msgsnd'' (Return 1)
                else Say ''sent reply'' (Return 0))))))"

text \<open>
  The chat client: its own queue, the server's, the screen and the receiving thread. \<open>ls\<close> are the lines that
  \<open>wgetnstr\<close> gives; the messages sent are \<open>client_join\<close> and \<open>client_line\<close> of \<open>Chat_Queue\<close>.
\<close>

definition SERVER_QUEUE :: string where "SERVER_QUEUE = ''/chat_srv''"

definition client_qname :: "int \<Rightarrow> string" where "client_qname pid = ''/chat_'' @ show_int pid"

definition close_queues :: "string \<Rightarrow> program \<Rightarrow> program" where
  "close_queues own k = then_do (Mq_close own) (then_do (Mq_unlink own) (then_do (Mq_close SERVER_QUEUE) k))"

primrec draw :: "string list \<Rightarrow> program \<Rightarrow> program" where
  "draw [] k = k"
| "draw (c # cs) k = then_do (Curses c) (draw cs k)"

definition prompt_box :: "string list" where
  "prompt_box = [''box win_input'', ''mvwprintw win_input 1 1 > '', ''wrefresh win_input'']"

fun chat_loop :: "string \<Rightarrow> string list \<Rightarrow> program" where
  "chat_loop own [] = then_do Mutex_lock (draw (''werase win_input'' # prompt_box) Blocked)"
| "chat_loop own (typed # ls) =
     then_do Mutex_lock
       (draw (''werase win_input'' # prompt_box @ [''wgetnstr win_input''])
         (then_do Mutex_unlock
           (if typed = ''/quit'' then
              then_do Endwin
                (close_queues own (then_do (Pthread_cancel ''receiver'') (then_do (Pthread_join ''receiver'') (Return 0))))
            else Call (Mq_send SERVER_QUEUE typed) (\<lambda>sent.
              if \<not> sent then Perror ''mq_send msg'' (chat_loop own ls) else chat_loop own ls))))"

definition open_windows :: "program \<Rightarrow> program" where
  "open_windows k =
     then_do Initscr
       (draw ([''cbreak'', ''noecho'', ''newwin win_messages'', ''newwin win_input'', ''scrollok win_messages'']
         @ prompt_box @ [''wrefresh win_messages'']) k)"

definition chat_client_main :: "int \<Rightarrow> string list \<Rightarrow> program" where
  "chat_client_main pid ls =
     (let own = client_qname pid in
      Say ''Enter your name: ''
        (Call Fgets_name (\<lambda>named.
           if \<not> named then Return 1
           else Call (Mq_open own True) (\<lambda>mine.
             if \<not> mine then Perror ''mq_open client'' (Return 1)
             else Call (Mq_open SERVER_QUEUE False) (\<lambda>server.
               if \<not> server then
                 Perror ''mq_open server'' (then_do (Mq_close own) (then_do (Mq_unlink own) (Return 1)))
               else Call (Mq_send SERVER_QUEUE ''join'') (\<lambda>joined.
                 if \<not> joined then Perror ''mq_send join'' (close_queues own (Return 1))
                 else open_windows
                   (Call (Pthread_create ''receiver'') (\<lambda>created.
                      if \<not> created then
                        then_do Endwin (Perror ''pthread_create'' (close_queues own (Return 1)))
                      else chat_loop own ls))))))))"

subsection \<open>Shared memory\<close>

definition shm_server_posix :: program where
  "shm_server_posix =
     Call (Shm_open True) (\<lambda>fd.
       if \<not> fd then Perror ''shm_open'' (Return 1)
       else Call Ftruncate (\<lambda>sized.
         if \<not> sized then Perror ''ftruncate'' (Return 1)
         else Call Mmap (\<lambda>mapped.
           if \<not> mapped then Perror ''mmap'' (Return 1)
           else then_do Close_segment
             (then_do (Set_flag 0) (then_do (Put_text ''Hi!'') (then_do (Set_flag 1)
               (Say ''sent'' (Say ''waiting'' (then_do (Await_flag 2) (Say ''got reply''
                 (Call Munmap (\<lambda>unmapped.
                    let unlink = Call Shm_unlink (\<lambda>unlinked.
                          if \<not> unlinked then Perror ''shm_unlink'' (Return 0) else Return 0)
                    in if \<not> unmapped then Perror ''munmap'' unlink else unlink))))))))))))"

definition shm_client_posix :: program where
  "shm_client_posix =
     Call (Shm_open False) (\<lambda>fd.
       if \<not> fd then Perror ''shm_open'' (Return 1)
       else Call Mmap (\<lambda>mapped.
         if \<not> mapped then Perror ''mmap'' (Return 1)
         else then_do Close_segment
           (Say ''waiting'' (then_do (Await_flag 1) (Say ''got'' (then_do (Put_text ''Hello!'') (then_do (Set_flag 2)
             (Say ''sent reply''
               (Call Munmap (\<lambda>unmapped.
                  if \<not> unmapped then Perror ''munmap'' (Return 0) else Return 0))))))))))"

definition shm_server_sysv :: program where
  "shm_server_sysv =
     Call (Shmget True) (\<lambda>shmid.
       if \<not> shmid then Perror ''shmget'' (Return 1)
       else Call Shmat (\<lambda>attached.
         if \<not> attached then Perror ''shmat'' (Return 1)
         else then_do (Set_flag 0) (then_do (Put_text ''Hi!'') (then_do (Set_flag 1)
           (Say ''sent'' (Say ''waiting'' (then_do (Await_flag 2) (Say ''got reply''
             (Call Shmdt (\<lambda>detached.
                let remove = Call Shmctl_rmid (\<lambda>removed.
                      if \<not> removed then Perror ''shmctl'' (Return 0) else Return 0)
                in if \<not> detached then Perror ''shmdt'' remove else remove))))))))))"

definition shm_client_sysv :: program where
  "shm_client_sysv =
     Call (Shmget False) (\<lambda>shmid.
       if \<not> shmid then Perror ''shmget'' (Return 1)
       else Call Shmat (\<lambda>attached.
         if \<not> attached then Perror ''shmat'' (Return 1)
         else Say ''waiting'' (then_do (Await_flag 1) (Say ''got'' (then_do (Put_text ''Hello!'') (then_do (Set_flag 2)
           (Say ''sent reply''
             (Call Shmdt (\<lambda>detached.
                if \<not> detached then Perror ''shmdt'' (Return 0) else Return 0)))))))))"

subsection \<open>The chat in shared memory\<close>

text \<open>
  \<open>while ((c = getchar()) != EOF) { if (c == 'q') break; }\<close>: what is left to read. The server stops at a \<open>q\<close> and
  at the end of its input alike.
\<close>

definition wait_for_q :: "string \<Rightarrow> string" where
  "wait_for_q stdin = tl (dropWhile (\<lambda>c. c \<noteq> CHR ''q'') stdin)"

definition chat_server_main :: program where
  "chat_server_main =
     Call (Shmget True) (\<lambda>shmid.
       if \<not> shmid then Perror ''shmget'' (Return 1)
       else Call Shmat (\<lambda>attached.
         if \<not> attached then Perror ''shmat'' (Return 1)
         else then_do Clear_chat (then_do (Set_running True)
           (Call (Semget True) (\<lambda>semid.
              if \<not> semid then Perror ''semget'' (Return 1)
              else Call Semctl_setval (\<lambda>initialised.
                if \<not> initialised then Perror ''semctl'' (Return 1)
                else Say ''Chat server started.''
                  (then_do (Set_running False)
                    (Call Shmdt (\<lambda>detached.
                       let end = Say ''Server stopped.'' (Return 0);
                           remove_sem = Call Semctl_rmid (\<lambda>ok. if \<not> ok then Perror ''semctl IPC_RMID'' end else end);
                           remove = Call Shmctl_rmid (\<lambda>ok. if \<not> ok then Perror ''shmctl'' remove_sem else remove_sem)
                       in if \<not> detached then Perror ''shmdt'' remove else remove)))))))))"

text \<open>The client; \<open>Join_chat\<close> is its critical section in \<open>main\<close> (\<open>join_next\<close> in \<open>Chat_Shared\<close>).\<close>

definition chat_user_main :: program where
  "chat_user_main =
     Say ''Enter your name: ''
       (Call Fgets_name (\<lambda>named.
          if \<not> named then Return 1
          else Call (Shmget False) (\<lambda>shmid.
            if \<not> shmid then Perror ''shmget'' (Return 1)
            else Call Shmat (\<lambda>attached.
              if \<not> attached then Perror ''shmat'' (Return 1)
              else Call (Semget False) (\<lambda>semid.
                if \<not> semid then Perror ''semget'' (Return 1)
                else then_do Join_chat (then_do Initscr (draw [''cbreak'', ''noecho'', ''keypad'', ''clear'']
                  (then_do (Pthread_create ''receiver'') (then_do (Pthread_create ''sender'')
                    (then_do (Pthread_join ''sender'') (then_do (Pthread_join ''receiver'') (then_do Endwin
                      (Call Shmdt (\<lambda>detached.
                         if \<not> detached then Perror ''shmdt'' (Return 0) else Return 0))))))))))))))"

section \<open>What is left\<close>

lemma own_queue_not_server: "client_qname pid \<noteq> SERVER_QUEUE"
proof
  assume "client_qname pid = SERVER_QUEUE"
  then have "show_int pid = ''srv''" by (simp add: client_qname_def SERVER_QUEUE_def)
  then have "show_nat (nat pid) = ''srv''" by (simp add: show_int_def split: if_splits)
  then have "isdigit CHR ''s''" using show_nat_digits [of "CHR ''s''" "nat pid"] by simp
  then show False by (simp add: isdigit_def)
qed

lemma wp_draw: "(\<And>h. wp Q k h R) \<Longrightarrow> wp Q (draw cs k) h R"
  by (induction cs arbitrary: h) (simp_all add: effect_def)

lemma tidy_draw [simp]: "tidy (draw cs k) U = tidy k U"
  by (induction cs) simp_all

lemma tidy_close_queues [simp]:
  "tidy (close_queues own k) U = tidy k (U - {Queue own} - {Queue_name own} - {Queue SERVER_QUEUE})"
  by (simp add: close_queues_def)

lemma tidy_chat_loop:
  "U \<subseteq> {Thread ''receiver'', Screen, Queue SERVER_QUEUE, Queue own, Queue_name own} \<Longrightarrow> tidy (chat_loop own ls) U"
proof (induction ls arbitrary: U)
  case (Cons typed ls)
  have "U - {Screen_mutex} = U" "U \<union> {Screen_mutex} - {Screen_mutex} = U" using Cons.prems by auto
  moreover have "U - {Screen} - {Queue own} - {Queue_name own} - {Queue SERVER_QUEUE} - {Thread ''receiver''} = {}"
    using Cons.prems by auto
  ultimately show ?case using Cons.IH [OF Cons.prems] by (simp del: draw.simps)
qed (simp del: draw.simps)

lemma tidy_chat_client: "tidy (chat_client_main pid ls) {}"
proof -
  obtain own where own: "client_qname pid = own" "own \<noteq> SERVER_QUEUE" using own_queue_not_server by blast
  show ?thesis
    unfolding chat_client_main_def own(1) Let_def open_windows_def
    using own(2) by (auto intro!: tidy_chat_loop simp del: draw.simps)
qed

text \<open>
  Property C27. Whichever calls fail, and whatever the user types, the chat client and the four queue exercises have
  released what they acquired when they return: queues closed, the own names and System V queue removed, the
  screen restored, its mutex free, the thread joined. Anything they still hold is something whose release was
  tried after it was acquired, and failed.
\<close>

theorem queue_programs_clean_up:
  assumes "p \<in> {chat_client_main pid ls, mq_server_posix, mq_client_posix, mq_server_sysv, mq_client_sysv}"
    and "run p ok [] {} = (R, h, Some n)"
  shows "\<forall>r \<in> R. release_failed h r"
proof -
  have "tidy mq_server_posix {}" "tidy mq_client_posix {}" "tidy mq_server_sysv {}" "tidy mq_client_sysv {}"
    by (auto simp: mq_server_posix_def mq_client_posix_def mq_server_sysv_def mq_client_sysv_def)
  with assms(1) tidy_chat_client [of pid ls] have "tidy p {}" by auto
  from tidy_sound [OF this assms(2)] show ?thesis by simp
qed

theorem queue_programs_clean_up_witness:
  "fst (run (chat_client_main 7 [''hello'', ''/quit'']) (\<lambda>h c. c \<noteq> Pthread_create ''receiver'') [] {}) = {} \<and>
   fst (run mq_server_posix (\<lambda>h c. c \<noteq> Mq_unlink MQ_NAME) [] {}) = {Queue_name MQ_NAME}"
proof -
  let ?r = "run (chat_client_main 7 [''hello'', ''/quit'']) (\<lambda>h c. c \<noteq> Pthread_create ''receiver'') [] {}"
  have n: "snd (snd ?r) = Some 1" and h: "\<forall>(c, ok) \<in> set (fst (snd ?r)). c \<noteq> Pthread_create ''receiver'' \<longrightarrow> ok"
    by (simp_all add: chat_client_main_def open_windows_def prompt_box_def close_queues_def Let_def)
  have "\<not> release_failed (fst (snd ?r)) r" for r
  proof
    assume "release_failed (fst (snd ?r)) r"
    then obtain c where "(c, False) \<in> set (fst (snd ?r))" "r \<in> released c" by (force simp: release_failed_def)
    with h show False by fastforce
  qed
  with n queue_programs_clean_up [of "chat_client_main 7 [''hello'', ''/quit'']" 7 "[''hello'', ''/quit'']"
      "\<lambda>h c. c \<noteq> Pthread_create ''receiver''"]
  have "fst ?r = {}" by (cases ?r) auto
  moreover have "fst (run mq_server_posix (\<lambda>h c. c \<noteq> Mq_unlink MQ_NAME) [] {}) = {Queue_name MQ_NAME}"
    by (auto simp: mq_server_posix_def effect_def)
  ultimately show ?thesis by simp
qed

text \<open>
  What the servers over System V queues and shared memory leave in the system when they return: the
  queue exactly when \<open>msgctl\<close> fails; the segment exactly when a call of the setup behind its creation, or the call
  that removes it, fails; the semaphore exactly when it is not initialised or not removed.
\<close>

definition fatal_calls :: "(program \<times> resource \<times> call set) set" where
  "fatal_calls =
     {(mq_server_sysv, Msg_id, {Msgctl_rmid}),
      (shm_server_posix, Shm_name, {Ftruncate, Mmap, Shm_unlink}),
      (shm_server_sysv, Shm_id, {Shmat, Shmctl_rmid}),
      (chat_server_main, Shm_id, {Shmat, Semget True, Semctl_setval, Shmctl_rmid}),
      (chat_server_main, Sem_id, {Semctl_setval, Semctl_rmid})}"

lemma fatal_calls_wp:
  "(p, r, fatal) \<in> fatal_calls \<Longrightarrow> wp (\<lambda>R h n. r \<in> R \<longleftrightarrow> (\<exists>c \<in> fatal. (c, False) \<in> set h)) p [] {}"
  unfolding fatal_calls_def
  by (elim insertE emptyE; simp add: mq_server_sysv_def shm_server_posix_def shm_server_sysv_def chat_server_main_def Let_def effect_def)

lemma servers_leave_behind_iff:
  assumes "(p, r, fatal) \<in> fatal_calls" "run p ok [] {} = (R, h, Some n)"
  shows "r \<in> R \<longleftrightarrow> (\<exists>c \<in> fatal. (c, False) \<in> set h)"
  using wp_sound [OF fatal_calls_wp [OF assms(1)] assms(2)] .

lemma servers_leave_behind_iff_witness:
  "Shm_id \<in> fst (run chat_server_main (\<lambda>h c. c \<noteq> Semget True) [] {})"
proof -
  have r: "run chat_server_main (\<lambda>h c. c \<noteq> Semget True) [] {} = ({Attachment, Shm_id},
      [(Shmget True, True), (Shmat, True), (Clear_chat, True), (Set_running True, True), (Semget True, False)], Some 1)"
    by (simp add: chat_server_main_def effect_def)
  have "(chat_server_main, Shm_id, {Shmat, Semget True, Semctl_setval, Shmctl_rmid}) \<in> fatal_calls"
    by (simp add: fatal_calls_def)
  from servers_leave_behind_iff [OF this r] show ?thesis using r by simp
qed

text \<open>The clients of the shared memory exercises and of the chat leave nothing that outlives them.\<close>

lemma shm_clients_leave_nothing:
  assumes "p \<in> {shm_client_posix, shm_client_sysv, chat_user_main}" "run p ok [] {} = (R, h, Some n)"
  shows "\<forall>r \<in> R. \<not> outlives r"
proof -
  have w: "wp (\<lambda>R h n. \<forall>r \<in> R. \<not> outlives r) shm_client_posix [] {}"
    "wp (\<lambda>R h n. \<forall>r \<in> R. \<not> outlives r) shm_client_sysv [] {}"
    "wp (\<lambda>R h n. \<forall>r \<in> R. \<not> outlives r) chat_user_main [] {}"
    by (auto simp: shm_client_posix_def shm_client_sysv_def chat_user_main_def effect_def intro!: wp_draw)
  with assms show ?thesis using wp_sound by fastforce
qed

end
