(* ===== verification/Processes.thy ===== *)
theory Processes
  imports C_Prelude Transition
begin

text \<open>
  The system calls the process and channel exercises use, for any number of processes:
  \<open>fork\<close>, \<open>wait\<close>, \<open>waitpid\<close>, \<open>exit\<close>, \<open>execvp\<close>, pipes, fifos and descriptors, and the buffer the C
  library keeps in front of standard output. A program of the exercises is a value of
  \<open>prog\<close>: the next call, and what follows as a function of its result, so that a fork
  is written as in C, one continuation that both processes enter with their own value
  of \<open>pid\<close>. \<open>step\<close> is the system: an action says which process moves and how a call that may
  fail turns out. A process that has replaced its image by another program (\<open>Image\<close>) reads, writes and
  leaves when it likes; the children and descriptors such a program makes for itself are not modelled.

  The locale \<open>process_discipline\<close> is a typing discipline for such programs: a judgement on the
  children a process has not reaped, its descriptors and what it still has to do, kept by every call.
  It is proved once that it then holds of every process in every reachable state; the
  judgements \<open>reaps\<close> (a process ends without children) and \<open>closes\<close> (what is open where it
  matters) are its two instances, the interpretations are below and in the theory \<open>Shells\<close>.
\<close>

section \<open>Programs and processes\<close>

text \<open>How a process ended: by \<open>exit\<close>, with the eight bits of its status, or by a signal.\<close>

datatype death = Exited nat | Killed nat

text \<open>What a descriptor stands for: the terminal, or an end of pipe \<open>i\<close>.\<close>

datatype open_file = Term_in | Term_out | Rd nat | Wr nat

text \<open>
  The calls. \<open>Printf\<close> takes what \<open>getpid()\<close> and \<open>getppid()\<close> return. \<open>Crash\<close> is the use of a NULL
  pointer as a string (SIGSEGV, signal 11).
\<close>

datatype prog =
    Exit int
  | Printf "int \<Rightarrow> int \<Rightarrow> string" prog
  | Perror string prog
  | Fflush prog
  | Fork "int \<Rightarrow> prog"
  | Wait "int \<Rightarrow> death option \<Rightarrow> prog"
  | Waitpid int prog
  | Execvp "string list" prog
  | Pipe "(nat \<times> nat) option \<Rightarrow> prog"
  | Dup2 nat nat prog
  | Close nat prog
  | Read nat nat "string option \<Rightarrow> prog"
  | Write nat string prog
  | Mkfifo string "bool \<Rightarrow> prog"
  | Open string bool "nat option \<Rightarrow> prog"
  | Unlink string prog
  | Crash

datatype status = Live prog | Image "string list" | Zombie death

type_synonym descriptors = "open_file option list"

record process =
  pid :: int
  ppid :: int
  stat :: status
  fds :: descriptors
  outbuf :: string

record unix =
  procs :: "process list"
  pipes :: "nat \<Rightarrow> string"
  next_pipe :: nat
  fifos :: "(string \<times> nat) list"
  screen :: string
  errors :: "(int \<times> string) list"

definition kids :: "int \<Rightarrow> process list \<Rightarrow> int set" where
  "kids p ps = set (map pid (filter (\<lambda>q. ppid q = p) ps))"

definition find_process :: "int \<Rightarrow> process list \<Rightarrow> process option" where
  "find_process p ps = find (\<lambda>q. pid q = p) ps"

section \<open>Descriptors\<close>

definition file_at :: "descriptors \<Rightarrow> nat \<Rightarrow> open_file option" where
  "file_at t fd = (if fd < length t then t ! fd else None)"

text \<open>A new descriptor is the lowest that is free.\<close>

fun lowest_free :: "descriptors \<Rightarrow> nat" where
  "lowest_free [] = 0"
| "lowest_free (None # t) = 0"
| "lowest_free (Some f # t) = Suc (lowest_free t)"

definition put_fd :: "nat \<Rightarrow> open_file option \<Rightarrow> descriptors \<Rightarrow> descriptors" where
  "put_fd fd f t = (t @ replicate (Suc fd - length t) None)[fd := f]"

definition dup2_fds :: "nat \<Rightarrow> nat \<Rightarrow> descriptors \<Rightarrow> descriptors" where
  "dup2_fds old new t = (case file_at t old of None \<Rightarrow> t | Some f \<Rightarrow> put_fd new (Some f) t)"

definition close_fd :: "nat \<Rightarrow> descriptors \<Rightarrow> descriptors" where
  "close_fd fd t = (if fd < length t then t[fd := None] else t)"

definition pipe_fds :: "nat \<Rightarrow> descriptors \<Rightarrow> nat \<times> nat \<times> descriptors" where
  "pipe_fds i t =
     (let r = lowest_free t; t1 = put_fd r (Some (Rd i)) t;
          w = lowest_free t1; t2 = put_fd w (Some (Wr i)) t1
      in (r, w, t2))"

text \<open>Some process has an end of a pipe open.\<close>

definition held :: "open_file \<Rightarrow> process list \<Rightarrow> bool" where
  "held f ps = (\<exists>q \<in> set ps. Some f \<in> set (fds q))"

section \<open>The system\<close>

text \<open>One process goes on with another status, other descriptors, another buffer.\<close>

definition revise :: "int \<Rightarrow> status \<Rightarrow> descriptors \<Rightarrow> string \<Rightarrow> process list \<Rightarrow> process list" where
  "revise p st t b ps = map (\<lambda>q. if pid q = p then q\<lparr>stat := st, fds := t, outbuf := b\<rparr> else q) ps"

definition become :: "int \<Rightarrow> status \<Rightarrow> descriptors \<Rightarrow> string \<Rightarrow> unix \<Rightarrow> unix" where
  "become p st t b s = s\<lparr>procs := revise p st t b (procs s)\<rparr>"

text \<open>A process that ends closes its descriptors; its children go to process 1.\<close>

definition orphan :: "int \<Rightarrow> process list \<Rightarrow> process list" where
  "orphan p ps = map (\<lambda>q. if ppid q = p then q\<lparr>ppid := 1\<rparr> else q) ps"

definition die :: "int \<Rightarrow> death \<Rightarrow> unix \<Rightarrow> unix" where
  "die p d s = become p (Zombie d) [] [] (s\<lparr>procs := orphan p (procs s)\<rparr>)"

definition put_file :: "open_file option \<Rightarrow> string \<Rightarrow> unix \<Rightarrow> unix" where
  "put_file f text s =
     (case f of
        Some Term_out \<Rightarrow> s\<lparr>screen := screen s @ text\<rparr>
      | Some (Wr i) \<Rightarrow> s\<lparr>pipes := (pipes s)(i := pipes s i @ text)\<rparr>
      | _ \<Rightarrow> s)"

text \<open>
  \<open>printf\<close>: on a terminal the buffer is written at the end of a line (every text of the programs
  ends its line or has no newline), otherwise it waits for \<open>fflush\<close> or \<open>exit\<close>.
\<close>

definition print :: "bool \<Rightarrow> process \<Rightarrow> string \<Rightarrow> unix \<Rightarrow> string \<times> unix" where
  "print tty q text s =
     (if tty \<and> NL \<in> set text then ([], put_file (file_at (fds q) 1) (outbuf q @ text) s)
      else (outbuf q @ text, s))"

definition flush :: "process \<Rightarrow> unix \<Rightarrow> unix" where
  "flush q s = put_file (file_at (fds q) 1) (outbuf q) s"

text \<open>The call of process \<open>q\<close> that nothing outside decides; \<open>None\<close> where it blocks.\<close>

definition go :: "bool \<Rightarrow> process \<Rightarrow> prog \<Rightarrow> unix \<Rightarrow> unix option" where
  "go tty q c s =
     (let p = pid q; t = fds q; b = outbuf q;
          continue = (\<lambda>k. become p (Live k) t b)
      in case c of
        Exit n \<Rightarrow> Some (die p (Exited (nat (n mod 256))) (flush q s))
      | Printf f k \<Rightarrow> (let (b', s') = print tty q (f p (ppid q)) s in Some (become p (Live k) t b' s'))
      | Perror m k \<Rightarrow> Some (continue k (s\<lparr>errors := errors s @ [(p, m)]\<rparr>))
      | Fflush k \<Rightarrow> Some (become p (Live k) t [] (flush q s))
      | Fork k \<Rightarrow> None
      | Wait k \<Rightarrow> if kids p (procs s) = {} then Some (continue (k (- 1) None) s) else None
      | Waitpid c k \<Rightarrow> if c \<in> kids p (procs s) then None else Some (continue k s)
      | Execvp argv k \<Rightarrow> Some (become p (Image argv) t [] s)
      | Pipe k \<Rightarrow>
          (let (r, w, t') = pipe_fds (next_pipe s) t
           in Some (become p (Live (k (Some (r, w)))) t' b (s\<lparr>next_pipe := Suc (next_pipe s)\<rparr>)))
      | Dup2 x y k \<Rightarrow> Some (become p (Live k) (dup2_fds x y t) b s)
      | Close fd k \<Rightarrow> Some (become p (Live k) (close_fd fd t) b s)
      | Read fd n k \<Rightarrow>
          (case file_at t fd of
             Some (Rd i) \<Rightarrow>
               if pipes s i \<noteq> [] then
                 Some (continue (k (Some (take n (pipes s i)))) (s\<lparr>pipes := (pipes s)(i := drop n (pipes s i))\<rparr>))
               else if held (Wr i) (procs s) then None
               else Some (continue (k (Some [])) s)
           | _ \<Rightarrow> Some (continue (k None) s))
      | Write fd text k \<Rightarrow>
          (case file_at t fd of
             Some (Wr i) \<Rightarrow>
               if held (Rd i) (procs s) then Some (continue k (put_file (Some (Wr i)) text s))
               else Some (die p (Killed 13) s)
           | f \<Rightarrow> Some (continue k (put_file f text s)))
      | Mkfifo name k \<Rightarrow>
          (case map_of (fifos s) name of
             Some i \<Rightarrow> Some (continue (k False) s)
           | None \<Rightarrow> Some (continue (k True)
               (s\<lparr>fifos := (name, next_pipe s) # fifos s, next_pipe := Suc (next_pipe s)\<rparr>)))
      | Open name for_writing k \<Rightarrow>
          (case map_of (fifos s) name of
             None \<Rightarrow> Some (continue (k None) s)
           | Some i \<Rightarrow>
               if held (if for_writing then Rd i else Wr i) (procs s) then
                 Some (become p (Live (k (Some (lowest_free t))))
                        (put_fd (lowest_free t) (Some (if for_writing then Wr i else Rd i)) t) b s)
               else None)
      | Unlink name k \<Rightarrow> Some (continue k (s\<lparr>fifos := filter (\<lambda>(m, i). m \<noteq> name) (fifos s)\<rparr>))
      | Crash \<Rightarrow> Some (die p (Killed 11) s))"

text \<open>
  The actions: process \<open>p\<close> makes its call; a fork of \<open>p\<close> gives process \<open>c\<close>; a call of \<open>p\<close> that may fail
  fails; \<open>p\<close> waits for its ended child \<open>c\<close>; two processes that open the same fifo, one to read and one
  to write, meet; another program writes, reads or ends.
\<close>

datatype action =
    Go int
  | Born int int
  | Fails int
  | Reap int int
  | Meet int int
  | Image_writes int string
  | Image_reads int nat
  | Image_ends int death

definition fork_step :: "process \<Rightarrow> int \<Rightarrow> unix \<Rightarrow> unix option" where
  "fork_step q c s =
     (case stat q of
        Live (Fork k) \<Rightarrow>
          if 1 < c \<and> c \<notin> pid ` set (procs s) \<and> c \<notin> ppid ` set (procs s) then
            (let s' = become (pid q) (Live (k c)) (fds q) (outbuf q) s
             in Some (s'\<lparr>procs := procs s' @
                   [\<lparr>pid = c, ppid = pid q, stat = Live (k 0), fds = fds q, outbuf = outbuf q\<rparr>]\<rparr>))
          else None
      | _ \<Rightarrow> None)"

definition fail_step :: "process \<Rightarrow> unix \<Rightarrow> unix option" where
  "fail_step q s =
     (case stat q of
        Live (Fork k) \<Rightarrow> Some (become (pid q) (Live (k (- 1))) (fds q) (outbuf q) s)
      | Live (Pipe k) \<Rightarrow> Some (become (pid q) (Live (k None)) (fds q) (outbuf q) s)
      | Live (Execvp argv k) \<Rightarrow> Some (become (pid q) (Live k) (fds q) (outbuf q) s)
      | _ \<Rightarrow> None)"

definition reap_step :: "process \<Rightarrow> process \<Rightarrow> unix \<Rightarrow> unix option" where
  "reap_step q z s =
     (let s' = s\<lparr>procs := filter (\<lambda>x. pid x \<noteq> pid z) (procs s)\<rparr> in
      case stat z of
        Zombie d \<Rightarrow>
          if ppid z \<noteq> pid q then None
          else (case stat q of
                  Live (Wait k) \<Rightarrow> Some (become (pid q) (Live (k (pid z) (Some d))) (fds q) (outbuf q) s')
                | Live (Waitpid c k) \<Rightarrow>
                    if c = pid z then Some (become (pid q) (Live k) (fds q) (outbuf q) s') else None
                | _ \<Rightarrow> None)
      | _ \<Rightarrow> None)"

definition meet_step :: "process \<Rightarrow> process \<Rightarrow> unix \<Rightarrow> unix option" where
  "meet_step r w s =
     (case (stat r, stat w) of
        (Live (Open m False k), Live (Open n True l)) \<Rightarrow>
          (case map_of (fifos s) m of
             Some i \<Rightarrow>
               if m = n then
                 Some (become (pid w) (Live (l (Some (lowest_free (fds w)))))
                         (put_fd (lowest_free (fds w)) (Some (Wr i)) (fds w)) (outbuf w)
                      (become (pid r) (Live (k (Some (lowest_free (fds r)))))
                         (put_fd (lowest_free (fds r)) (Some (Rd i)) (fds r)) (outbuf r) s))
               else None
           | None \<Rightarrow> None)
      | _ \<Rightarrow> None)"

definition step :: "bool \<Rightarrow> action \<Rightarrow> unix \<Rightarrow> unix option" where
  "step tty a s =
     (case a of
        Go p \<Rightarrow> (case find_process p (procs s) of
                   Some q \<Rightarrow> (case stat q of Live c \<Rightarrow> go tty q c s | _ \<Rightarrow> None) | None \<Rightarrow> None)
      | Born p c \<Rightarrow> (case find_process p (procs s) of Some q \<Rightarrow> fork_step q c s | None \<Rightarrow> None)
      | Fails p \<Rightarrow> (case find_process p (procs s) of Some q \<Rightarrow> fail_step q s | None \<Rightarrow> None)
      | Reap p c \<Rightarrow>
          (case (find_process p (procs s), find_process c (procs s)) of
             (Some q, Some z) \<Rightarrow> reap_step q z s | _ \<Rightarrow> None)
      | Meet p c \<Rightarrow>
          (case (find_process p (procs s), find_process c (procs s)) of
             (Some r, Some w) \<Rightarrow> meet_step r w s | _ \<Rightarrow> None)
      | Image_writes p text \<Rightarrow>
          (case find_process p (procs s) of
             Some q \<Rightarrow> (case stat q of Image argv \<Rightarrow> Some (put_file (file_at (fds q) 1) text s) | _ \<Rightarrow> None)
           | None \<Rightarrow> None)
      | Image_reads p n \<Rightarrow>
          (case find_process p (procs s) of
             Some q \<Rightarrow>
               (case (stat q, file_at (fds q) 0) of
                  (Image argv, Some (Rd i)) \<Rightarrow> Some (s\<lparr>pipes := (pipes s)(i := drop n (pipes s i))\<rparr>)
                | _ \<Rightarrow> None)
           | None \<Rightarrow> None)
      | Image_ends p d \<Rightarrow>
          (case find_process p (procs s) of
             Some q \<Rightarrow> (case stat q of Image argv \<Rightarrow> Some (die p d s) | _ \<Rightarrow> None)
           | None \<Rightarrow> None))"

text \<open>One process started from a terminal, by process 1 as far as the model goes.\<close>

definition terminal_fds :: descriptors where
  "terminal_fds = [Some Term_in, Some Term_out, Some Term_out]"

definition boot :: "int \<Rightarrow> prog \<Rightarrow> unix" where
  "boot p c =
     \<lparr>procs = [\<lparr>pid = p, ppid = 1, stat = Live c, fds = terminal_fds, outbuf = []\<rparr>],
      pipes = (\<lambda>i. []), next_pipe = 0, fifos = [], screen = [], errors = []\<rparr>"

section \<open>What a step does to one process\<close>

text \<open>
  The children not reaped, the descriptors and the status a process may have after its next call,
  from those it has. The birth of a child is the result \<open>insert c K\<close> of a fork; the calls that may end
  the process are \<open>mortal\<close>.
\<close>

fun after :: "int set \<Rightarrow> descriptors \<Rightarrow> prog \<Rightarrow> (int set \<times> descriptors \<times> status) set" where
  "after K t (Exit n) = {}"
| "after K t (Printf f k) = {(K, t, Live k)}"
| "after K t (Perror m k) = {(K, t, Live k)}"
| "after K t (Fflush k) = {(K, t, Live k)}"
| "after K t (Fork k) = {(K, t, Live (k (- 1)))} \<union> {(insert c K, t, Live (k c)) | c. 1 < c \<and> c \<notin> K}"
| "after K t (Wait k) =
     (if K = {} then {(K, t, Live (k (- 1) None))} else {(K - {c}, t, Live (k c (Some d))) | c d. c \<in> K})"
| "after K t (Waitpid c k) = {(K - {c}, t, Live k)}"
| "after K t (Execvp argv k) = {(K, t, Image argv), (K, t, Live k)}"
| "after K t (Pipe k) =
     {(K, t, Live (k None))} \<union>
     range (\<lambda>i. let (r, w, t') = pipe_fds i t in (K, t', Live (k (Some (r, w)))))"
| "after K t (Dup2 x y k) = {(K, dup2_fds x y t, Live k)}"
| "after K t (Close fd k) = {(K, close_fd fd t, Live k)}"
| "after K t (Read fd n k) = range (\<lambda>r. (K, t, Live (k r)))"
| "after K t (Write fd text k) = {(K, t, Live k)}"
| "after K t (Mkfifo name k) = {(K, t, Live (k True)), (K, t, Live (k False))}"
| "after K t (Open name w k) =
     {(K, t, Live (k None))} \<union>
     range (\<lambda>f. (K, put_fd (lowest_free t) (Some f) t, Live (k (Some (lowest_free t)))))"
| "after K t (Unlink name k) = {(K, t, Live k)}"
| "after K t Crash = {}"

fun mortal :: "status \<Rightarrow> bool" where
  "mortal (Live (Exit n)) = True"
| "mortal (Live (Write fd text k)) = True"
| "mortal (Live Crash) = True"
| "mortal (Image argv) = True"
| "mortal st = False"

text \<open>What a step may do to the table of processes.\<close>

inductive evolves :: "process list \<Rightarrow> process list \<Rightarrow> bool" where
  call: "q \<in> set ps \<Longrightarrow> stat q = Live c \<Longrightarrow>
     (kids (pid q) ps, t, st) \<in> after (kids (pid q) ps) (fds q) c \<Longrightarrow> evolves ps (revise (pid q) st t b ps)"
| birth: "q \<in> set ps \<Longrightarrow> stat q = Live (Fork k) \<Longrightarrow> 1 < c \<Longrightarrow> c \<notin> pid ` set ps \<Longrightarrow> c \<notin> ppid ` set ps \<Longrightarrow>
     evolves ps (revise (pid q) (Live (k c)) (fds q) b ps @
       [\<lparr>pid = c, ppid = pid q, stat = Live (k 0), fds = fds q, outbuf = b\<rparr>])"
| reaped: "q \<in> set ps \<Longrightarrow> z \<in> set ps \<Longrightarrow> stat z = Zombie d \<Longrightarrow> ppid z = pid q \<Longrightarrow> stat q = Live c \<Longrightarrow>
     (kids (pid q) ps - {pid z}, fds q, st) \<in> after (kids (pid q) ps) (fds q) c \<Longrightarrow>
     evolves ps (revise (pid q) st (fds q) b (filter (\<lambda>x. pid x \<noteq> pid z) ps))"
| death: "q \<in> set ps \<Longrightarrow> mortal (stat q) \<Longrightarrow> evolves ps (revise (pid q) (Zombie d) [] [] (orphan (pid q) ps))"
| still: "evolves ps ps"

lemma procs_simps [simp]:
  "procs (put_file f text s) = procs s"
  "procs (flush q s) = procs s"
  "procs (snd (print tty q text s)) = procs s"
  "procs (become p st t b s) = revise p st t b (procs s)"
  "procs (die p d s) = revise p (Zombie d) [] [] (orphan p (procs s))"
  by (auto simp: put_file_def flush_def print_def become_def die_def split: option.split open_file.split)

lemma find_process_Some: "find_process p ps = Some q \<Longrightarrow> q \<in> set ps \<and> pid q = p"
  by (auto simp: find_process_def find_Some_iff)

lemma find_process_in: "distinct (map pid ps) \<Longrightarrow> q \<in> set ps \<Longrightarrow> find_process (pid q) ps = Some q"
  by (induction ps) (auto simp: find_process_def)

lemma go_evolves:
  assumes q: "q \<in> set (procs s)" "stat q = Live c" and go: "go tty q c s = Some s'"
  shows "evolves (procs s) (procs s')"
proof -
  have call: "evolves (procs s) (revise (pid q) st t b (procs s))"
    if "(kids (pid q) (procs s), t, st) \<in> after (kids (pid q) (procs s)) (fds q) c" for st t b
    using evolves.call [OF q that] .
  have death: "evolves (procs s) (revise (pid q) (Zombie d) [] [] (orphan (pid q) (procs s)))" if "mortal (Live c)" for d
    using evolves.death [of q "procs s" d] q that by simp
  show ?thesis
    using go q
    by (cases c) (auto simp: go_def Let_def case_prod_beta intro!: call death split: if_splits option.splits open_file.splits)
qed

lemma fork_step_evolves:
  "q \<in> set (procs s) \<Longrightarrow> fork_step q c s = Some s' \<Longrightarrow> evolves (procs s) (procs s')"
  by (auto simp: fork_step_def Let_def intro!: evolves.birth split: status.splits prog.splits if_splits)

lemma fail_step_evolves:
  "q \<in> set (procs s) \<Longrightarrow> fail_step q s = Some s' \<Longrightarrow> evolves (procs s) (procs s')"
  by (auto simp: fail_step_def intro!: evolves.call split: status.splits prog.splits)

lemma reap_step_evolves:
  assumes "q \<in> set (procs s)" "z \<in> set (procs s)" "reap_step q z s = Some s'"
  shows "evolves (procs s) (procs s')"
proof -
  have "pid z \<in> kids (pid q) (procs s)" if "ppid z = pid q"
    using that assms(2) by (auto simp: kids_def)
  moreover obtain d where d: "stat z = Zombie d" "ppid z = pid q"
    using assms(3) by (auto simp: reap_step_def Let_def split: status.splits if_splits)
  moreover note evolves.reaped [OF assms(1,2) d, where c = "Wait k" for k]
    evolves.reaped [OF assms(1,2) d, where c = "Waitpid c k" for c k]
  ultimately show ?thesis
    using assms(3) by (fastforce simp: reap_step_def Let_def split: status.splits prog.splits if_splits)
qed

lemma meet_step_evolves:
  assumes "r \<in> set (procs s)" "w \<in> set (procs s)" "meet_step r w s = Some s'" "pid r \<noteq> pid w"
  shows "evolves\<^sup>*\<^sup>* (procs s) (procs s')"
proof -
  obtain m k l i where
    live: "stat r = Live (Open m False k)" "stat w = Live (Open m True l)" and
    s': "s' = become (pid w) (Live (l (Some (lowest_free (fds w)))))
           (put_fd (lowest_free (fds w)) (Some (Wr i)) (fds w)) (outbuf w)
         (become (pid r) (Live (k (Some (lowest_free (fds r)))))
           (put_fd (lowest_free (fds r)) (Some (Rd i)) (fds r)) (outbuf r) s)"
    using assms(3) by (auto simp: meet_step_def split: status.splits prog.splits option.splits bool.splits if_splits)
  let ?t = "put_fd (lowest_free (fds r)) (Some (Rd i)) (fds r)"
  let ?ps = "revise (pid r) (Live (k (Some (lowest_free (fds r))))) ?t (outbuf r) (procs s)"
  have "evolves (procs s) ?ps"
    using assms(1) live(1) by (auto intro!: evolves.call)
  moreover have "w \<in> set ?ps"
    using assms(2,4) by (force simp: revise_def)
  then have "evolves ?ps (procs s')"
    unfolding s' using live(2) by (auto intro!: evolves.call)
  ultimately show ?thesis by (metis converse_rtranclp_into_rtranclp r_into_rtranclp)
qed

lemma step_evolves:
  assumes "step tty a s = Some s'"
  shows "evolves\<^sup>*\<^sup>* (procs s) (procs s')"
proof (cases a)
  case (Meet p c)
  with assms obtain r w where rw: "find_process p (procs s) = Some r" "find_process c (procs s) = Some w"
    "meet_step r w s = Some s'"
    by (auto simp: step_def split: option.splits)
  have "r \<noteq> w"
    using rw(3) by (auto simp: meet_step_def split: status.splits prog.splits bool.splits)
  then have "pid r \<noteq> pid w" using rw(1,2) find_process_Some by fastforce
  with rw find_process_Some show ?thesis by (blast intro: meet_step_evolves)
next
  case (Image_ends p d)
  with assms obtain q argv where q: "find_process p (procs s) = Some q" "stat q = Image argv" "s' = die p d s"
    by (auto simp: step_def split: option.splits status.splits)
  then have "q \<in> set (procs s)" "pid q = p" using find_process_Some by blast+
  with q evolves.death [of q "procs s" d] show ?thesis by auto
qed (use assms in \<open>auto simp: step_def dest!: find_process_Some split: option.splits status.splits open_file.splits
       dest: go_evolves fork_step_evolves fail_step_evolves reap_step_evolves\<close>)

section \<open>Disciplines\<close>

definition all_obey :: "(int set \<Rightarrow> descriptors \<Rightarrow> status \<Rightarrow> bool) \<Rightarrow> process list \<Rightarrow> bool" where
  "all_obey J ps = (distinct (map pid ps) \<and> (\<forall>q \<in> set ps. 1 < pid q \<and> J (kids (pid q) ps) (fds q) (stat q)))"

lemma in_kids: "c \<in> kids p ps \<longleftrightarrow> (\<exists>q \<in> set ps. ppid q = p \<and> pid q = c)"
  by (auto simp: kids_def)

lemma map_pid_revise [simp]: "map pid (revise p st t b ps) = map pid ps"
  "map ppid (revise p st t b ps) = map ppid ps"
  by (simp_all add: revise_def)

lemma map_pid_orphan [simp]: "map pid (orphan p ps) = map pid ps"
  by (simp add: orphan_def)

lemma pids_image [simp]:
  "pid ` set (revise p st t b ps) = pid ` set ps" "pid ` set (orphan p ps) = pid ` set ps"
  by (metis list.set_map map_pid_revise(1)) (metis list.set_map map_pid_orphan)

lemma kids_empty: "kids p ps = {} \<longleftrightarrow> (\<forall>q \<in> set ps. ppid q \<noteq> p)"
  by (auto simp: kids_def filter_empty_conv)

lemma set_revise:
  "set (revise p st t b ps) = (\<lambda>q. if pid q = p then q\<lparr>stat := st, fds := t, outbuf := b\<rparr> else q) ` set ps"
  by (simp add: revise_def)

lemma kids_revise [simp]: "kids x (revise p st t b ps) = kids x ps"
  by (simp add: kids_def revise_def filter_map comp_def if_distrib [of ppid] if_distrib [of pid] cong: if_cong)

lemma kids_append [simp]: "kids x (ps @ qs) = kids x ps \<union> kids x qs"
  by (auto simp: kids_def)

lemma kids_orphan: "x \<noteq> 1 \<Longrightarrow> kids x (orphan p ps) = (if x = p then {} else kids x ps)"
  by (force simp: in_kids orphan_def)

lemma kids_remove: "kids x (filter (\<lambda>y. pid y \<noteq> z) ps) = kids x ps - {z}"
  by (auto simp: in_kids)

text \<open>
  The law of a discipline: it goes on through every call of a process, the child of a fork has it from the
  start, and nothing is asked of a process that has ended.
\<close>

locale process_discipline =
  fixes J :: "int set \<Rightarrow> descriptors \<Rightarrow> status \<Rightarrow> bool"
  assumes goes_on: "J K t (Live c) \<Longrightarrow> (K', t', st) \<in> after K t c \<Longrightarrow> J K' t' st"
    and child: "J K t (Live (Fork k)) \<Longrightarrow> J {} t (Live (k 0))"
    and ended: "J {} [] (Zombie d)"
begin

lemma obey_revise:
  assumes "all_obey J ps" "q \<in> set ps" "J (kids (pid q) ps) t st"
  shows "all_obey J (revise (pid q) st t b ps)"
  using assms by (auto simp: all_obey_def set_revise)

lemma obey_birth:
  assumes ps: "all_obey J ps" and q: "q \<in> set ps" "stat q = Live (Fork k)"
    and c: "1 < c" "c \<notin> pid ` set ps" "c \<notin> ppid ` set ps"
  shows "all_obey J (revise (pid q) (Live (k c)) (fds q) b ps @
           [\<lparr>pid = c, ppid = pid q, stat = Live (k 0), fds = fds q, outbuf = b\<rparr>])"
proof -
  let ?child = "\<lparr>pid = c, ppid = pid q, stat = Live (k 0), fds = fds q, outbuf = b\<rparr>"
  let ?qs = "revise (pid q) (Live (k c)) (fds q) b ps"
  have kids: "kids x [?child] = (if x = pid q then {c} else {})" for x
    by (auto simp: kids_def)
  have J: "J (kids (pid q) ps) (fds q) (Live (Fork k))" and "c \<noteq> pid q"
    using ps q c by (auto simp: all_obey_def)
  have "c \<notin> kids (pid q) ps" using c(2) by (auto simp: in_kids)
  then have parent: "J (insert c (kids (pid q) ps)) (fds q) (Live (k c))"
    using c(1) by (intro goes_on [OF J]) auto
  have none: "kids c ps = {}" using c(3) by (auto simp: in_kids)
  have "J (kids (pid x) (?qs @ [?child])) (fds x) (stat x)" if "x \<in> set ?qs" for x
  proof -
    from that obtain y where y: "y \<in> set ps" "x = (if pid y = pid q then y\<lparr>stat := Live (k c), fds := fds q, outbuf := b\<rparr> else y)"
      by (auto simp: set_revise)
    with ps parent show ?thesis by (auto simp: all_obey_def kids)
  qed
  moreover have "J (kids c (?qs @ [?child])) (fds q) (Live (k 0))"
    using child [OF J] none \<open>c \<noteq> pid q\<close> by (simp add: kids)
  moreover have "distinct (map pid (?qs @ [?child]))" "\<forall>x \<in> set (?qs @ [?child]). 1 < pid x"
    using ps c by (auto simp: all_obey_def set_revise)
  ultimately show ?thesis by (auto simp: all_obey_def)
qed

lemma obey_reaped:
  assumes ps: "all_obey J ps" and q: "q \<in> set ps" "z \<in> set ps" "ppid z = pid q" "pid z \<noteq> pid q"
    and J: "J (kids (pid q) ps - {pid z}) t st"
  shows "all_obey J (revise (pid q) st t b (filter (\<lambda>x. pid x \<noteq> pid z) ps))"
proof -
  have only: "kids x ps - {pid z} = kids x ps" if "x \<noteq> pid q" for x
  proof -
    have "y = z" if "y \<in> set ps" "pid y = pid z" for y
      using that q ps by (auto simp: all_obey_def distinct_map inj_on_def)
    then show ?thesis using that q by (fastforce simp: in_kids)
  qed
  then show ?thesis
    using ps J by (auto simp: all_obey_def set_revise kids_remove distinct_map_filter)
qed

lemma obey_death:
  assumes ps: "all_obey J ps" and q: "q \<in> set ps"
  shows "all_obey J (revise (pid q) (Zombie d) [] [] (orphan (pid q) ps))"
proof -
  have "J (kids (pid x) (revise (pid q) (Zombie d) [] [] (orphan (pid q) ps))) (fds x) (stat x)"
    if "x \<in> set (revise (pid q) (Zombie d) [] [] (orphan (pid q) ps))" for x
  proof -
    from that obtain y where "y \<in> set ps" "pid x = pid y"
      "pid y = pid q \<Longrightarrow> fds x = [] \<and> stat x = Zombie d" "pid y \<noteq> pid q \<Longrightarrow> fds x = fds y \<and> stat x = stat y"
      by (auto simp: set_revise orphan_def split: if_splits)
    with ps ended show ?thesis by (auto simp: all_obey_def kids_orphan)
  qed
  moreover have "\<forall>x \<in> set (orphan (pid q) ps). 1 < pid x"
    using ps by (auto simp: all_obey_def orphan_def)
  ultimately show ?thesis using ps by (auto simp: all_obey_def set_revise)
qed

lemma obey_evolves: "evolves ps ps' \<Longrightarrow> all_obey J ps \<Longrightarrow> all_obey J ps'"
proof (induction rule: evolves.induct)
  case (call q ps c t st b)
  then have "J (kids (pid q) ps) (fds q) (Live c)" by (auto simp: all_obey_def)
  with call goes_on show ?case by (blast intro: obey_revise)
next
  case (reaped q ps z d c st b)
  then have "pid z \<noteq> pid q" by (auto simp: all_obey_def distinct_map inj_on_def)
  moreover have "J (kids (pid q) ps) (fds q) (Live c)" using reaped by (auto simp: all_obey_def)
  ultimately show ?case using reaped by (blast intro: obey_reaped goes_on)
qed (blast intro: obey_birth obey_death)+

lemma obey_step:
  assumes "step tty a s = Some s'" "all_obey J (procs s)"
  shows "all_obey J (procs s')"
  using step_evolves [OF assms(1)] assms(2) by (induction rule: rtranclp_induct) (auto intro: obey_evolves)

end

text \<open>A discipline is an invariant of the system: from the start of a program that has it, every process has it.\<close>

sublocale process_discipline \<subseteq> kept_invariant "step tty" "\<lambda>s. all_obey J (procs s)" for tty
  by unfold_locales (rule obey_step)

context process_discipline
begin

lemma every_process_obeys:
  assumes "reach (step tty) (boot p c) s" "1 < p" "J {} terminal_fds (Live c)"
  shows "all_obey J (procs s)"
proof -
  have "kids p (procs (boot p c)) = {}" using assms(2) by (simp add: kids_def boot_def)
  then have "all_obey J (procs (boot p c))" using assms(2,3) by (simp add: all_obey_def boot_def)
  from reach_keeps [OF assms(1) this] show ?thesis .
qed

end

section \<open>Programs that reap their children\<close>

text \<open>
  \<open>reaps c K\<close>: a process with the children \<open>K\<close> that runs \<open>c\<close> has waited for all of them, and for
  those it still makes, before it ends or becomes another program, and blocks nowhere but in a wait.
\<close>

primrec reaps :: "prog \<Rightarrow> int set \<Rightarrow> bool" where
  "reaps (Exit n) K = (K = {})"
| "reaps (Printf f k) K = reaps k K"
| "reaps (Perror m k) K = reaps k K"
| "reaps (Fflush k) K = reaps k K"
| "reaps (Fork k) K =
     (reaps (k 0) {} \<and> reaps (k (- 1)) K \<and> (\<forall>c. 1 < c \<longrightarrow> c \<notin> K \<longrightarrow> reaps (k c) (insert c K)))"
| "reaps (Wait k) K =
     (if K = {} then reaps (k (- 1) None) {} else \<forall>c \<in> K. \<forall>d. reaps (k c (Some d)) (K - {c}))"
| "reaps (Waitpid c k) K = reaps k (K - {c})"
| "reaps (Execvp argv k) K = (K = {} \<and> reaps k {})"
| "reaps (Pipe k) K = (reaps (k None) K \<and> (\<forall>r w. reaps (k (Some (r, w))) K))"
| "reaps (Dup2 x y k) K = reaps k K"
| "reaps (Close fd k) K = reaps k K"
| "reaps (Read fd n k) K = False"
| "reaps (Write fd text k) K = False"
| "reaps (Mkfifo name k) K = False"
| "reaps (Open name w k) K = False"
| "reaps (Unlink name k) K = reaps k K"
| "reaps Crash K = (K = {})"

fun reaping :: "int set \<Rightarrow> descriptors \<Rightarrow> status \<Rightarrow> bool" where
  "reaping K t (Live c) = reaps c K"
| "reaping K t (Image argv) = (K = {})"
| "reaping K t (Zombie d) = (K = {})"

interpretation reaping: process_discipline reaping
proof
  show "reaping K' t' st" if "reaping K t (Live c)" "(K', t', st) \<in> after K t c" for K t c K' t' st
    using that by (cases c) (auto simp: case_prod_beta Let_def split: if_splits)
qed auto

text \<open>The table as a tree: first the process that was started, then each after its parent.\<close>

definition link :: "process \<Rightarrow> int \<times> int" where "link q = (ppid q, pid q)"

fun descend :: "int set \<Rightarrow> (int \<times> int) list \<Rightarrow> bool" where
  "descend S [] = True"
| "descend S ((parent, p) # ls) = (parent \<in> S \<and> descend (insert p S) ls)"

definition tree :: "int \<Rightarrow> process list \<Rightarrow> bool" where
  "tree p ps = (case map link ps of [] \<Rightarrow> False | l # ls \<Rightarrow> l = (1, p) \<and> descend {p} ls)"

lemma map_link_revise [simp]: "map link (revise p st t b ps) = map link ps"
  by (simp add: revise_def link_def)

lemma descend_append: "descend S (ls @ ms) \<longleftrightarrow> descend S ls \<and> descend (S \<union> snd ` set ls) ms"
  by (induction S ls rule: descend.induct) auto

lemma descend_parents: "descend S ls \<Longrightarrow> fst ` set ls \<subseteq> S \<union> snd ` set ls"
  by (induction S ls rule: descend.induct) auto

lemma descend_remove:
  "descend S ls \<Longrightarrow> c \<notin> fst ` set ls \<Longrightarrow> descend (S - {c}) (filter (\<lambda>l. snd l \<noteq> c) ls)"
proof (induction S ls rule: descend.induct)
  case (2 S parent p ls)
  then have "parent \<in> S - {c}" "descend (insert p S - {c}) (filter (\<lambda>l. snd l \<noteq> c) ls)" by auto
  then show ?case by (cases "p = c") (auto simp: insert_Diff_if)
qed simp

lemma tree_revise [simp]: "tree p (revise x st t b ps) = tree p ps"
  by (simp add: tree_def)

lemma orphan_none: "kids p ps = {} \<Longrightarrow> orphan p ps = ps"
  unfolding orphan_def by (rule map_idI) (simp add: kids_empty)

lemma tree_birth:
  assumes "tree p ps" "ppid x \<in> pid ` set ps"
  shows "tree p (ps @ [x])"
  using assms by (cases ps) (auto simp: tree_def descend_append link_def image_iff)

lemma tree_reaped:
  assumes "tree p ps" "kids c ps = {}" "c \<noteq> p"
  shows "tree p (filter (\<lambda>x. pid x \<noteq> c) ps)"
proof (cases ps)
  case (Cons q qs)
  then have q: "link q = (1, p)" and d: "descend {p} (map link qs)"
    using assms(1) by (auto simp: tree_def)
  have "c \<notin> fst ` set (map link qs)"
    using assms(2) Cons by (auto simp: kids_empty link_def)
  from descend_remove [OF d this] have "descend {p} (filter (\<lambda>l. snd l \<noteq> c) (map link qs))"
    using assms(3) by simp
  then show ?thesis
    using Cons q assms(3) by (simp add: tree_def filter_map comp_def link_def)
qed (use assms in \<open>simp add: tree_def\<close>)

lemma tree_root:
  assumes "tree p ps" "distinct (map pid ps)" "z \<in> set ps" "pid z = p"
  shows "ppid z = 1"
proof -
  obtain r qs where r: "ps = r # qs" "link r = (1, p)"
    using assms(1) by (auto simp: tree_def split: list.splits)
  have "p \<notin> pid ` set qs" using assms(2) r by (auto simp: link_def)
  with assms(3,4) r have "z = r" by auto
  with r show ?thesis by (simp add: link_def)
qed

text \<open>A child stands after its parent.\<close>

lemma tree_order:
  assumes "tree p (xs @ q # ys)" "distinct (map pid (xs @ q # ys))" "1 < pid q" "z \<in> set (xs @ [q])"
  shows "ppid z \<noteq> pid q"
proof (cases xs)
  case Nil
  with assms show ?thesis by (auto simp: tree_def link_def)
next
  case (Cons r rs)
  with assms(1) have r: "link r = (1, p)" and "descend {p} (map link (rs @ [q]) @ map link ys)"
    by (auto simp: tree_def)
  then have d: "descend {p} (map link rs)" "ppid q \<in> {p} \<union> pid ` set rs"
    by (auto simp: descend_append link_def image_iff)
  have "ppid ` set rs \<subseteq> {p} \<union> pid ` set rs"
    using descend_parents [OF d(1)] by (simp add: link_def image_image)
  moreover have own: "p \<noteq> pid q" "pid q \<notin> pid ` set rs" "pid r = p" "ppid r = 1"
    using assms(2) Cons r by (auto simp: link_def)
  moreover have "ppid q \<noteq> pid q" using d(2) own(1,2) by (metis UnE singletonD)
  ultimately have "pid q \<notin> ppid ` set rs" "ppid q \<noteq> pid q" "ppid r \<noteq> pid q"
    using assms(3) by auto
  then show ?thesis using assms(4) Cons by (auto simp: image_iff)
qed

lemma mortal_kids: "mortal (stat q) \<Longrightarrow> reaping K t (stat q) \<Longrightarrow> K = {}"
  by (cases "stat q" rule: mortal.cases) auto

lemma tree_evolves:
  "evolves ps ps' \<Longrightarrow> all_obey reaping ps \<Longrightarrow> tree p ps \<Longrightarrow> tree p ps'"
proof (induction rule: evolves.induct)
  case (birth q ps k c b)
  then show ?case by (intro tree_birth) auto
next
  case (reaped q ps z d c st b)
  then have "reaping (kids (pid z) ps) (fds z) (Zombie d)" by (auto simp: all_obey_def)
  then have "kids (pid z) ps = {}" by simp
  moreover have "1 < pid q" using reaped by (auto simp: all_obey_def)
  then have "ppid z \<noteq> 1" using reaped by simp
  then have "pid z \<noteq> p"
    using tree_root [OF reaped.prems(2) _ reaped.hyps(2)] reaped.prems(1) by (auto simp: all_obey_def)
  ultimately show ?case using reaped by (simp add: tree_reaped)
next
  case (death q ps d)
  then have "reaping (kids (pid q) ps) (fds q) (stat q)" by (auto simp: all_obey_def)
  with death.hyps have "kids (pid q) ps = {}" using mortal_kids by blast
  with death show ?case by (simp add: orphan_none)
qed simp_all

definition well_reaped :: "int \<Rightarrow> unix \<Rightarrow> bool" where
  "well_reaped p s = (all_obey reaping (procs s) \<and> tree p (procs s))"

interpretation orderly: kept_invariant "step tty" "well_reaped p" for tty p
proof
  fix s a s'
  assume "well_reaped p s" "step tty a s = Some s'"
  then have "evolves\<^sup>*\<^sup>* (procs s) (procs s')" "all_obey reaping (procs s) \<and> tree p (procs s)"
    using step_evolves by (auto simp: well_reaped_def)
  then show "well_reaped p s'"
    unfolding well_reaped_def
    by (induction rule: rtranclp_induct) (auto intro: tree_evolves reaping.obey_evolves)
qed

lemma reaps_well_reaped:
  assumes "reach (step tty) (boot p c) s" "1 < p" "reaps c {}"
  shows "well_reaped p s"
  using reaping.every_process_obeys [OF assms(1,2)] assms
  by (intro orderly.reach_keeps [OF assms(1)])
    (auto simp: well_reaped_def tree_def boot_def link_def all_obey_def kids_def)

text \<open>When the first process has ended, no other is left.\<close>

lemma ended_alone:
  assumes "well_reaped p s" "find_process p (procs s) = Some q" "stat q = Zombie d"
  shows "procs s = [q]"
proof -
  from assms(1) obtain r qs where r: "procs s = r # qs" "link r = (1, p)" "descend {p} (map link qs)"
    by (auto simp: well_reaped_def tree_def split: list.splits)
  with assms(2) have "q = r" by (simp add: find_process_def link_def)
  moreover have "reaping (kids p (procs s)) (fds q) (Zombie d)"
    using assms find_process_Some [OF assms(2)] by (auto simp: well_reaped_def all_obey_def)
  then have "kids p (procs s) = {}" by simp
  then have "\<forall>x \<in> set (r # qs). ppid x \<noteq> p" using r(1) by (simp add: kids_empty)
  then have "qs = []" using r(3) by (cases qs) (auto simp: link_def)
  ultimately show ?thesis using r by simp
qed

text \<open>Until then some process can always go on: the programs do not wait for each other in a circle.\<close>

lemma child_after:
  assumes ok: "well_reaped p s" and ps: "procs s = xs @ q # ys" and c: "c \<in> kids (pid q) (procs s)"
  obtains z where "z \<in> set ys" "ppid z = pid q" "pid z = c"
proof -
  obtain z where z: "z \<in> set (procs s)" "ppid z = pid q" "pid z = c"
    using c unfolding in_kids by blast
  have "distinct (map pid (procs s))" "1 < pid q"
    using ok ps by (auto simp: well_reaped_def all_obey_def)
  with ok ps have "\<forall>x \<in> set (xs @ [q]). ppid x \<noteq> pid q"
    unfolding well_reaped_def using tree_order [of p xs q ys] by metis
  with z ps have "z \<in> set ys" by auto
  with z that show thesis by blast
qed

lemma go_unless_waiting:
  "reaps c K \<Longrightarrow> (\<forall>k. c \<noteq> Fork k) \<Longrightarrow> (\<forall>k. c \<noteq> Wait k) \<Longrightarrow> (\<forall>x k. c \<noteq> Waitpid x k) \<Longrightarrow> go tty q c s \<noteq> None"
  by (cases c) (simp_all add: go_def Let_def case_prod_beta split: option.split)

text \<open>A process whose children have all ended is not blocked.\<close>

lemma live_moves:
  assumes d: "distinct (map pid (procs s))" and q: "q \<in> set (procs s)" "stat q = Live c"
    and reaps: "reaps c (kids (pid q) (procs s))"
    and over: "\<And>x. x \<in> kids (pid q) (procs s) \<Longrightarrow>
      \<exists>z \<in> set (procs s). ppid z = pid q \<and> pid z = x \<and> (\<exists>d. stat z = Zombie d)"
  shows "\<exists>a s'. step tty a s = Some s'"
proof -
  note found = find_process_in [OF d]
  have moves: "\<exists>a s'. step tty a s = Some s'" if "step tty a s \<noteq> None" for a
    using that by blast
  show ?thesis
  proof (cases c)
    case (Wait k)
    then show ?thesis
    proof (cases "kids (pid q) (procs s) = {}")
      case True
      with Wait q found [OF q(1)] show ?thesis
        by (intro moves [of "Go (pid q)"]) (simp add: step_def go_def)
    next
      case False
      then obtain z where z: "z \<in> set (procs s)" "ppid z = pid q" "\<exists>d. stat z = Zombie d"
        using over by blast
      with Wait q found [OF q(1)] found [OF z(1)] show ?thesis
        by (intro moves [of "Reap (pid q) (pid z)"]) (auto simp: step_def reap_step_def Let_def)
    qed
  next
    case (Waitpid x k)
    then show ?thesis
    proof (cases "x \<in> kids (pid q) (procs s)")
      case True
      then obtain z where z: "z \<in> set (procs s)" "ppid z = pid q" "pid z = x" "\<exists>d. stat z = Zombie d"
        using over by blast
      with Waitpid q found [OF q(1)] found [OF z(1)] show ?thesis
        by (intro moves [of "Reap (pid q) (pid z)"]) (auto simp: step_def reap_step_def Let_def)
    next
      case False
      with Waitpid q found [OF q(1)] show ?thesis
        by (intro moves [of "Go (pid q)"]) (simp add: step_def go_def)
    qed
  next
    case (Fork k)
    with q found [OF q(1)] show ?thesis
      by (intro moves [of "Fails (pid q)"]) (simp add: step_def fail_step_def)
  qed (rule moves [of "Go (pid q)"], use go_unless_waiting [OF reaps] q found [OF q(1)] in \<open>simp add: step_def\<close>)+
qed

lemma someone_moves:
  assumes ok: "well_reaped p s" and alive: "\<exists>q \<in> set (procs s). \<forall>d. stat q \<noteq> Zombie d"
  shows "\<exists>a s'. step tty a s = Some s'"
proof -
  obtain xs q ys where ps: "procs s = xs @ q # ys" and q: "\<forall>d. stat q \<noteq> Zombie d"
    and later: "\<forall>z \<in> set ys. \<exists>d. stat z = Zombie d"
    using split_list_last_prop [OF alive] by auto
  have d: "distinct (map pid (procs s))" and J: "reaping (kids (pid q) (procs s)) (fds q) (stat q)"
    using ok ps by (auto simp: well_reaped_def all_obey_def)
  have q_in: "q \<in> set (procs s)" using ps by simp
  show ?thesis
  proof (cases "stat q")
    case (Live c)
    have "\<exists>z \<in> set (procs s). ppid z = pid q \<and> pid z = x \<and> (\<exists>d. stat z = Zombie d)"
      if "x \<in> kids (pid q) (procs s)" for x
      using child_after [OF ok ps that] later ps by (metis Un_iff list.set_intros(2) set_append)
    with live_moves [OF d q_in Live] J Live show ?thesis by simp
  next
    case (Image argv)
    then have "step tty (Image_ends (pid q) (Exited 0)) s = Some (die (pid q) (Exited 0) s)"
      using find_process_in [OF d q_in] by (simp add: step_def)
    then show ?thesis by blast
  qed (use q in simp)
qed

definition has_ended :: "int \<Rightarrow> unix \<Rightarrow> bool" where
  "has_ended p s = (\<exists>q \<in> set (procs s). pid q = p \<and> (case stat q of Zombie d \<Rightarrow> True | _ \<Rightarrow> False))"

lemma has_ended_iff: "has_ended p s \<longleftrightarrow> (\<exists>q \<in> set (procs s). pid q = p \<and> (\<exists>d. stat q = Zombie d))"
  unfolding has_ended_def by (intro bex_cong conj_cong refl) (simp split: status.split)

definition ended_with :: "int \<Rightarrow> death \<Rightarrow> unix \<Rightarrow> bool" where
  "ended_with p d s =
     (case find_process p (procs s) of
        Some q \<Rightarrow> (case stat q of Zombie e \<Rightarrow> e = d | _ \<Rightarrow> False) | None \<Rightarrow> False)"

lemma ended_with_iff:
  "ended_with p d s \<longleftrightarrow> (\<exists>q. find_process p (procs s) = Some q \<and> stat q = Zombie d)"
  by (auto simp: ended_with_def split: option.splits status.splits)

lemma ended_or_moves:
  assumes "reach (step tty) (boot p c) s" "1 < p" "reaps c {}"
  shows "if has_ended p s then length (procs s) = 1 else \<exists>a s'. step tty a s = Some s'"
proof -
  have ok: "well_reaped p s" using reaps_well_reaped [OF assms] .
  then have d: "distinct (map pid (procs s))" by (simp add: well_reaped_def all_obey_def)
  show ?thesis
  proof (cases "has_ended p s")
    case True
    then obtain q d where q: "q \<in> set (procs s)" "pid q = p" "stat q = Zombie d" by (auto simp: has_ended_iff)
    with ended_alone [OF ok _ q(3)] find_process_in [OF d q(1)] have "procs s = [q]" by simp
    with True show ?thesis by simp
  next
    case False
    obtain r rs where "procs s = r # rs" "pid r = p"
      using ok by (auto simp: well_reaped_def tree_def link_def split: list.splits)
    with False have "\<exists>q \<in> set (procs s). \<forall>d. stat q \<noteq> Zombie d" by (auto simp: has_ended_iff)
    with False someone_moves [OF ok] show ?thesis by simp
  qed
qed

end
