(* ===== verification/Shells.thy ===== *)
theory Shells
  imports Processes
begin

text \<open>
  The two command interpreters, \<open>processes/task3.c\<close> (one command) and \<open>channels/interpreter.c\<close> (a pipeline of
  two). Both split their line with \<open>strtok\<close>, which is modelled on the line's buffer: tokens are
  positions, the end of a token is a NUL written into the buffer, and the place to go on is
  kept between calls. \<open>words\<close> is the specification: the maximal runs of characters other than the delimiter.
  The interpreters are programs of the theory \<open>Processes\<close>, built from what their standard
  input holds.
\<close>

section \<open>The function strtok\<close>

text \<open>The line being split and the position \<open>strtok\<close> keeps.\<close>

record tokens =
  line :: string
  saved :: nat

text \<open>\<open>strspn\<close> and \<open>strcspn\<close>: the first position from \<open>p\<close> on that fails a test; \<open>None\<close> leaves the buffer.\<close>

definition scan_while :: "(char \<Rightarrow> bool) \<Rightarrow> string \<Rightarrow> nat \<Rightarrow> nat option" where
  "scan_while P b p =
     (let q = p + length (takeWhile P (drop p b)) in if q < length b then Some q else None)"

text \<open>
  \<open>strtok(s, d)\<close> for one delimiter; \<open>None\<close> as first argument stands for NULL. The outer option is
  a read behind the buffer.
\<close>

definition strtok :: "nat option \<Rightarrow> char \<Rightarrow> tokens \<Rightarrow> (nat option \<times> tokens) option" where
  "strtok from d t =
     (let p = (case from of None \<Rightarrow> saved t | Some p \<Rightarrow> p) in
      case scan_while (\<lambda>c. c = d) (line t) p of
        None \<Rightarrow> None
      | Some s \<Rightarrow>
          if line t ! s = NUL then Some (None, t\<lparr>saved := s\<rparr>)
          else (case scan_while (\<lambda>c. c \<noteq> d \<and> c \<noteq> NUL) (line t) s of
                  None \<Rightarrow> None
                | Some e \<Rightarrow>
                    if line t ! e = NUL then Some (Some s, t\<lparr>saved := e\<rparr>)
                    else Some (Some s, t\<lparr>line := (line t)[e := NUL], saved := Suc e\<rparr>)))"

definition string_at :: "tokens \<Rightarrow> nat \<Rightarrow> string" where
  "string_at t p = cstr (drop p (line t))"

section \<open>The arguments of a command\<close>

definition MAX_LINE :: nat where "MAX_LINE = 256"
definition MAX_ARGS :: nat where "MAX_ARGS = 64"

text \<open>The array of pointers, \<open>None\<close> for NULL; the outer option is a write behind it.\<close>

definition set_arg :: "nat \<Rightarrow> nat option \<Rightarrow> nat option list \<Rightarrow> nat option list option" where
  "set_arg i v args = (if i < length args then Some (args[i := v]) else None)"

function parse_loop :: "nat \<Rightarrow> nat option \<Rightarrow> nat option list \<Rightarrow> tokens \<Rightarrow> (nat option list \<times> tokens) option" where
  "parse_loop i token args t =
     (if token \<noteq> None \<and> i < MAX_ARGS - 1 then
        (case set_arg i token args of
           None \<Rightarrow> None
         | Some args' \<Rightarrow>
             (case strtok None CHR '' '' t of
                None \<Rightarrow> None
              | Some (token', t') \<Rightarrow> parse_loop (Suc i) token' args' t'))
      else map_option (\<lambda>args'. (args', t)) (set_arg i None args))"
  by pat_completeness auto
termination by (relation "measure (\<lambda>(i, _). MAX_ARGS - i)") (auto simp: MAX_ARGS_def)

declare parse_loop.simps [simp del]

definition parse_cmd :: "nat option \<Rightarrow> nat option list \<Rightarrow> tokens \<Rightarrow> (nat option list \<times> tokens) option" where
  "parse_cmd cmd args t =
     (case strtok cmd CHR '' '' t of
        None \<Rightarrow> None
      | Some (token, t') \<Rightarrow> parse_loop 0 token args t')"

text \<open>The argument vector \<open>execvp\<close> is given: the strings in front of the first NULL.\<close>

definition argv :: "nat option list \<Rightarrow> tokens \<Rightarrow> string list" where
  "argv args t = map (string_at t \<circ> the) (takeWhile (\<lambda>a. a \<noteq> None) args)"

section \<open>The interpreters\<close>

text \<open>What \<open>fgets\<close> leaves in the buffer, and \<open>line[strcspn(line, "\n")] = 0\<close>.\<close>

definition store_line :: "string \<Rightarrow> string \<Rightarrow> string" where
  "store_line buf l = l @ NUL # drop (Suc (length l)) buf"

definition cut_newline :: "string \<Rightarrow> string" where
  "cut_newline buf = buf[length (takeWhile (\<lambda>c. c \<noteq> NL \<and> c \<noteq> NUL) buf) := NUL]"

definition prompt :: "prog \<Rightarrow> prog" where
  "prompt k = Printf (\<lambda>self parent. ''mysh> '') (Fflush k)"

definition argc :: "nat option list \<Rightarrow> nat" where
  "argc args = length (takeWhile (\<lambda>a. a \<noteq> None) args)"

text \<open>The shell of \<open>processes/task3.c\<close>, from the rest of its standard input, its line and its array.\<close>

function task3 :: "string \<Rightarrow> string \<Rightarrow> nat option list \<Rightarrow> prog" where
  "task3 stdin buf args =
     prompt
       (case fgets MAX_LINE stdin of
          None \<Rightarrow> Exit 0
        | Some (l, rest) \<Rightarrow>
            (let buf1 = cut_newline (store_line buf l) in
             if cstr buf1 = ''exit'' then Exit 0
             else (case parse_cmd (Some 0) args \<lparr>line = buf1, saved = 0\<rparr> of
                     None \<Rightarrow> Crash
                   | Some (args', t) \<Rightarrow>
                       if argc args' = 0 then task3 rest (line t) args'
                       else Fork (\<lambda>pid.
                         if pid = 0 then Execvp (argv args' t) (Perror ''exec failed'' (Exit 1))
                         else if 0 < pid then Waitpid pid (task3 rest (line t) args')
                         else Perror ''fork error'' (task3 rest (line t) args')))))"
  by pat_completeness auto
termination by (relation "measure (\<lambda>(stdin, _). length stdin)") (auto simp: MAX_LINE_def dest: fgets_shorter)

declare task3.simps [simp del]

text \<open>
  The shell of \<open>channels/interpreter.c\<close>. A command whose array is empty gives \<open>execvp\<close> a NULL name.
  \<open>fd0\<close> is what the array of descriptors holds before \<open>pipe\<close>.
\<close>

definition run_command :: "nat option \<Rightarrow> nat option list \<Rightarrow> tokens \<Rightarrow> string \<Rightarrow> prog" where
  "run_command cmd args t message =
     (case parse_cmd cmd args t of
        None \<Rightarrow> Crash
      | Some (args', t') \<Rightarrow>
          if args' ! 0 = None then Crash else Execvp (argv args' t') (Perror message (Exit 1)))"

definition run_pipeline ::
  "nat \<times> nat \<Rightarrow> nat option list \<Rightarrow> nat option \<Rightarrow> nat option \<Rightarrow> tokens \<Rightarrow> prog \<Rightarrow> prog" where
  "run_pipeline fd0 args cmd1 cmd2 t k =
     Pipe (\<lambda>res. let (rd, wr) = (case res of None \<Rightarrow> fd0 | Some fd \<Rightarrow> fd) in
       Fork (\<lambda>pid1.
         if pid1 = 0 then Dup2 wr 1 (Close rd (Close wr (run_command cmd1 args t ''exec1'')))
         else Fork (\<lambda>pid2.
           if pid2 = 0 then Dup2 rd 0 (Close rd (Close wr (run_command cmd2 args t ''exec2'')))
           else Close rd (Close wr (Wait (\<lambda>p st. Wait (\<lambda>p st. k)))))))"

function interpreter :: "nat \<times> nat \<Rightarrow> nat option list \<Rightarrow> string \<Rightarrow> string \<Rightarrow> prog" where
  "interpreter fd0 args stdin buf =
     prompt
       (case fgets MAX_LINE stdin of
          None \<Rightarrow> Exit 0
        | Some (l, rest) \<Rightarrow>
            (let buf1 = cut_newline (store_line buf l) in
             if cstr buf1 = ''exit'' then Exit 0
             else (case strtok (Some 0) CHR ''|'' \<lparr>line = buf1, saved = 0\<rparr> of
                     None \<Rightarrow> Crash
                   | Some (cmd1, t1) \<Rightarrow>
                       (case strtok None CHR ''|'' t1 of
                          None \<Rightarrow> Crash
                        | Some (cmd2, t2) \<Rightarrow>
                            if cmd2 \<noteq> None then
                              run_pipeline fd0 args cmd1 cmd2 t2 (interpreter fd0 args rest (line t2))
                            else (case parse_cmd (Some 0) args t2 of
                                    None \<Rightarrow> Crash
                                  | Some (args', t3) \<Rightarrow>
                                      if args' ! 0 = None then interpreter fd0 args rest (line t3)
                                      else Fork (\<lambda>pid.
                                        if pid = 0 then Execvp (argv args' t3) (Perror ''exec'' (Exit 1))
                                        else Wait (\<lambda>p st. interpreter fd0 args rest (line t3))))))))"
  by pat_completeness auto
termination by (relation "measure (\<lambda>(fd0, args, stdin, _). length stdin)") (auto simp: MAX_LINE_def dest: fgets_shorter)

declare interpreter.simps [simp del]

section \<open>Tokens are words\<close>

text \<open>The specification: the words between delimiters.\<close>

function words :: "char \<Rightarrow> string \<Rightarrow> string list" where
  "words d s =
     (case dropWhile (\<lambda>c. c = d) s of
        [] \<Rightarrow> []
      | c # r \<Rightarrow> (c # takeWhile (\<lambda>c. c \<noteq> d) r) # words d (dropWhile (\<lambda>c. c \<noteq> d) r))"
  by pat_completeness auto
termination
proof (relation "measure (length \<circ> snd)")
  fix d s c r
  assume "dropWhile (\<lambda>c. c = d) s = c # r"
  then have "length (c # r) \<le> length s" by (metis length_dropWhile_le)
  then show "((d, dropWhile (\<lambda>c. c \<noteq> d) r), d, s) \<in> measure (length \<circ> snd)"
    using length_dropWhile_le [of "\<lambda>c. c \<noteq> d" r] by simp
qed simp

declare words.simps [simp del]

lemma words_blank: "words d (replicate n d) = []"
  by (subst words.simps) (simp add: dropWhile_replicate)

lemma words_Nil [simp]: "words d [] = []"
  using words_blank [of d 0] by simp

lemma words_skip [simp]: "words d (d # r) = words d r"
  by (subst (1 2) words.simps) simp

lemma words_span:
  assumes "w \<noteq> []" "d \<notin> set w" "r = [] \<or> hd r = d"
  shows "words d (replicate n d @ w @ r) = w # words d r"
proof -
  obtain c v where w: "w = c # v" "c \<noteq> d" "d \<notin> set v" using assms(1,2) by (cases w) auto
  have "dropWhile (\<lambda>c. c = d) (replicate n d @ w @ r) = dropWhile (\<lambda>c. c = d) (w @ r)"
    by (rule dropWhile_append2) simp
  also have "\<dots> = c # v @ r" using w by simp
  finally have "dropWhile (\<lambda>c. c = d) (replicate n d @ w @ r) = c # v @ r" .
  moreover have "takeWhile (\<lambda>c. c \<noteq> d) (v @ r) = v @ takeWhile (\<lambda>c. c \<noteq> d) r"
    "dropWhile (\<lambda>c. c \<noteq> d) (v @ r) = dropWhile (\<lambda>c. c \<noteq> d) r"
    using w(3) by (intro takeWhile_append2 dropWhile_append2; auto)+
  moreover have "takeWhile (\<lambda>c. c \<noteq> d) r = []" "dropWhile (\<lambda>c. c \<noteq> d) r = r"
    using assms(3) by (cases r; simp)+
  ultimately show ?thesis by (subst words.simps) (simp add: w(1))
qed

text \<open>Every text is blanks, a word, and a rest that starts with a delimiter or is empty.\<close>

lemma split_word:
  obtains (blank) n where "s = replicate n d"
  | (word) n w r where "s = replicate n d @ w @ r" "w \<noteq> []" "d \<notin> set w" "r = [] \<or> hd r = d"
proof -
  let ?m = "dropWhile (\<lambda>c. c = d) s"
  have "\<forall>c \<in> set (takeWhile (\<lambda>c. c = d) s). c = d" by (meson set_takeWhileD)
  from replicate_length_same [OF this] obtain n where n: "s = replicate n d @ ?m"
    by (metis takeWhile_dropWhile_id)
  show thesis
  proof (cases "?m = []")
    case True
    with n blank show ?thesis by simp
  next
    case False
    let ?w = "takeWhile (\<lambda>c. c \<noteq> d) ?m" and ?r = "dropWhile (\<lambda>c. c \<noteq> d) ?m"
    show ?thesis
    proof (rule word)
      show "s = replicate n d @ ?w @ ?r" using n by simp
      show "?w \<noteq> []" using False hd_dropWhile [OF False] by (cases ?m) auto
      show "d \<notin> set ?w" by (auto dest: set_takeWhileD)
      show "?r = [] \<or> hd ?r = d" using hd_dropWhile by blast
    qed
  qed
qed

text \<open>The three ways a call of \<open>strtok\<close> ends: no word is left, the last word, a word with a delimiter after it.\<close>

lemma scan_while_stops:
  assumes "\<forall>c \<in> set u. P c" "\<not> P x" "b = pre @ u @ x # r" "p = length pre"
  shows "scan_while P b p = Some (p + length u)"
proof -
  have "takeWhile P (u @ x # r) = u @ takeWhile P (x # r)"
    using assms(1) by (intro takeWhile_append2) blast
  also have "\<dots> = u" using assms(2) by simp
  finally show ?thesis using assms(3,4) by (simp add: scan_while_def)
qed

definition start :: "nat option \<Rightarrow> tokens \<Rightarrow> nat" where
  "start from t = (case from of None \<Rightarrow> saved t | Some p \<Rightarrow> p)"

lemma strtok_none:
  assumes "d \<noteq> NUL" "line t = pre @ replicate n d @ NUL # r" "start from t = length pre"
  shows "strtok from d t = Some (None, t\<lparr>saved := length pre + n\<rparr>)"
proof -
  have "scan_while (\<lambda>c. c = d) (line t) (start from t) = Some (length pre + n)"
    using scan_while_stops [of "replicate n d" "\<lambda>c. c = d" NUL "line t" pre r] assms by simp
  moreover have "line t ! (length pre + n) = NUL"
    unfolding assms(2) by (simp add: nth_append)
  ultimately show ?thesis by (simp add: strtok_def start_def)
qed

lemma strtok_scans:
  assumes "line t = pre @ replicate n d @ w @ x # r" "start from t = length pre"
    "w \<noteq> []" "d \<notin> set w" "NUL \<notin> set w" "x = d \<or> x = NUL"
  shows "strtok from d t =
    (if x = NUL then Some (Some (length pre + n), t\<lparr>saved := length pre + n + length w\<rparr>)
     else Some (Some (length pre + n),
            t\<lparr>line := pre @ replicate n d @ w @ NUL # r, saved := Suc (length pre + n + length w)\<rparr>))"
proof -
  obtain c v where w: "w = c # v" "c \<noteq> d" "c \<noteq> NUL" using assms(3-5) by (cases w) auto
  let ?p = "length pre + n" and ?q = "length pre + n + length w"
  have 1: "scan_while (\<lambda>c. c = d) (line t) (start from t) = Some ?p"
    using scan_while_stops [of "replicate n d" "\<lambda>c. c = d" c "line t" pre] assms(1,2) w by simp
  have 2: "line t ! ?p = c"
    using assms(1) w by (simp add: nth_append)
  have "\<forall>y \<in> set w. y \<noteq> d \<and> y \<noteq> NUL" using assms(4,5) by blast
  from scan_while_stops [OF this, of x "line t" "pre @ replicate n d" r ?p]
  have 3: "scan_while (\<lambda>c. c \<noteq> d \<and> c \<noteq> NUL) (line t) ?p = Some ?q"
    using assms(1,6) by simp
  have l: "line t = (pre @ replicate n d @ w) @ x # r" and q: "?q = length (pre @ replicate n d @ w)"
    using assms(1) by simp_all
  have 4: "line t ! ?q = x" unfolding l q by (rule nth_append_length)
  have 5: "(line t)[?q := NUL] = pre @ replicate n d @ w @ NUL # r"
    unfolding l q list_update_length by simp
  show ?thesis
    using 1 2 3 4 5 w(3) by (simp add: strtok_def start_def)
qed

definition parse_from :: "nat \<Rightarrow> nat option \<Rightarrow> nat option list \<Rightarrow> tokens \<Rightarrow> (nat option list \<times> tokens) option" where
  "parse_from i from args t =
     (case strtok from CHR '' '' t of None \<Rightarrow> None | Some (token, t') \<Rightarrow> parse_loop i token args t')"

lemma parse_loop_end:
  "token = None \<or> MAX_ARGS - 1 \<le> i \<Longrightarrow> i < length args \<Longrightarrow>
     parse_loop i token args t = Some (args[i := None], t)"
  by (subst parse_loop.simps) (auto simp: set_arg_def)

lemma parse_loop_next:
  "i < MAX_ARGS - 1 \<Longrightarrow> i < length args \<Longrightarrow>
     parse_loop i (Some p) args t = parse_from (Suc i) None (args[i := Some p]) t"
  by (subst parse_loop.simps) (auto simp: set_arg_def parse_from_def split: option.split)

lemma string_at_word:
  assumes "line t = pre @ w @ NUL # r" "NUL \<notin> set w"
  shows "string_at t (length pre) = w"
  using assms by (simp add: string_at_def cstr_append_NUL)

text \<open>
  From any point of the line the loop stores the positions of the words that are left, as many as
  fit, and a NULL, and keeps what stands before that point.
\<close>

definition parsed :: "string \<Rightarrow> string \<Rightarrow> string \<Rightarrow> nat \<Rightarrow> nat option list \<Rightarrow> (nat option list \<times> tokens) option \<Rightarrow> bool" where
  "parsed pre s r i args res =
     (\<exists>ps t' s'. res = Some (take i args @ map Some ps @ None # drop (Suc (i + length ps)) args, t')
        \<and> line t' = pre @ s' @ NUL # r \<and> length s' = length s
        \<and> map (string_at t') ps = take (MAX_ARGS - 1 - i) (words CHR '' '' s))"

lemma parsed_end:
  assumes "line t = pre @ s' @ NUL # r" "length s' = length s" "length args = MAX_ARGS" "i < MAX_ARGS"
    "token = None \<and> words CHR '' '' s = [] \<or> i = MAX_ARGS - 1"
  shows "parsed pre s r i args (parse_loop i token args t)"
proof -
  have "parse_loop i token args t = Some (args[i := None], t)"
    using assms by (intro parse_loop_end) auto
  moreover have "args[i := None] = take i args @ None # drop (Suc i) args"
    using assms(3,4) by (simp add: upd_conv_take_nth_drop)
  ultimately show ?thesis
    using assms unfolding parsed_def by (intro exI [of _ "[]"] exI [of _ t] exI [of _ s']) auto
qed

lemma parsed_word:
  assumes rest: "parsed (pre @ sp @ w @ x) s2 r (Suc i) (args[i := Some p]) res"
    and p: "p = length (pre @ sp)" "length args = MAX_ARGS" "i < MAX_ARGS - 1"
    and w: "NUL \<notin> set w" "x = [NUL] \<or> x = [] \<and> s2 = []" "words CHR '' '' s = w # words CHR '' '' s2"
    and s: "length s = length (sp @ w @ x @ s2)"
  shows "parsed pre s r i args res"
proof -
  obtain ps t' s' where res: "res = Some (take (Suc i) (args[i := Some p]) @ map Some ps @
        None # drop (Suc (Suc i + length ps)) (args[i := Some p]), t')"
    and l: "line t' = (pre @ sp @ w @ x) @ s' @ NUL # r" "length s' = length s2"
    and ws: "map (string_at t') ps = take (MAX_ARGS - 1 - Suc i) (words CHR '' '' s2)"
    using rest unfolding parsed_def by blast
  have "\<exists>r'. line t' = (pre @ sp) @ w @ NUL # r'"
    using l w(2) by auto
  then have "string_at t' p = w"
    using w(1) p(1) string_at_word by blast
  moreover have "take (Suc i) (args[i := Some p]) = take i args @ [Some p]"
    using p(2,3) by (simp add: take_Suc_conv_app_nth)
  moreover have "MAX_ARGS - 1 - i = Suc (MAX_ARGS - 1 - Suc i)" using p(3) by simp
  ultimately show ?thesis
    unfolding parsed_def using res l ws w(3) s
    by (intro exI [of _ "p # ps"] exI [of _ t'] exI [of _ "sp @ w @ x @ s'"]) (simp del: words.simps)
qed

text \<open>A call of \<open>strtok\<close> in front of a word: the word ends with a NUL, and the search goes on behind it.\<close>

lemma strtok_word:
  assumes "d \<noteq> NUL" "line t = pre @ s @ NUL # r" "start from t = length pre" "NUL \<notin> set s"
    and s: "s = replicate n d @ w @ r'" "w \<noteq> []" "d \<notin> set w" "r' = [] \<or> hd r' = d"
  obtains x s2 t' where
    "strtok from d t = Some (Some (length (pre @ replicate n d)), t')"
    "line t' = (pre @ replicate n d @ w @ x) @ s2 @ NUL # r"
    "saved t' = length (pre @ replicate n d @ w @ x)" "x = [NUL] \<or> x = [] \<and> s2 = []"
    "length s = length (replicate n d @ w @ x @ s2)" "words d s = w # words d s2"
    "NUL \<notin> set s2"
proof -
  have words: "words d s = w # words d r'" and w: "NUL \<notin> set w"
    using words_span [OF s(2-4)] s(1) assms(4) by auto
  note scans = strtok_scans [OF _ assms(3) s(2,3) w]
  show thesis
  proof (cases r')
    case Nil
    with assms s scans [of n NUL r] words show thesis
      by (intro that [of "t\<lparr>saved := length (pre @ replicate n d @ w)\<rparr>" "[]" "[]"]) (auto simp: add.assoc)
  next
    case (Cons d' r2)
    then have r': "r' = d # r2" using s(4) by simp
    with assms s scans [of n "d" "r2 @ NUL # r"] words show thesis
      by (intro that [of "t\<lparr>line := pre @ replicate n d @ w @ NUL # r2 @ NUL # r,
            saved := length (pre @ replicate n d @ w @ [NUL])\<rparr>" "[NUL]" r2]) (auto simp: NUL_def add.assoc)
  qed
qed

lemma parse_from_words:
  assumes "line t = pre @ s @ NUL # r" "start from t = length pre" "NUL \<notin> set s"
    "length args = MAX_ARGS" "i < MAX_ARGS"
  shows "parsed pre s r i args (parse_from i from args t)"
  using assms
proof (induction "length s" arbitrary: s i pre "from" t args rule: less_induct)
  case less
  have blank: "CHR '' '' \<noteq> NUL" by (simp add: NUL_def)
  show ?case
  proof (cases s "CHR '' ''" rule: split_word)
    case (blank n)
    with \<open>CHR '' '' \<noteq> NUL\<close> have "parse_from i from args t = parse_loop i None args (t\<lparr>saved := length pre + n\<rparr>)"
      using less.prems by (simp add: parse_from_def strtok_none)
    with less.prems blank show ?thesis by (auto intro!: parsed_end simp: words_blank)
  next
    case (word n w r')
    obtain x s2 t' where tok: "strtok from CHR '' '' t = Some (Some (length (pre @ replicate n CHR '' '')), t')"
      and t': "line t' = (pre @ replicate n CHR '' '' @ w @ x) @ s2 @ NUL # r"
        "saved t' = length (pre @ replicate n CHR '' '' @ w @ x)"
      and x: "x = [NUL] \<or> x = [] \<and> s2 = []" "length s = length (replicate n CHR '' '' @ w @ x @ s2)"
        "words CHR '' '' s = w # words CHR '' '' s2" "NUL \<notin> set s2"
      using strtok_word [OF blank less.prems(1-3) word] .
    let ?p = "length (pre @ replicate n CHR '' '')"
    show ?thesis
    proof (cases "i < MAX_ARGS - 1")
      case True
      have "parsed (pre @ replicate n CHR '' '' @ w @ x) s2 r (Suc i) (args[i := Some ?p])
          (parse_from (Suc i) None (args[i := Some ?p]) t')"
        using True less.prems word(2) x(2,4) t' by (intro less.hyps) (auto simp: start_def)
      from parsed_word [OF this refl less.prems(4) True _ x(1,3,2)] less.prems(3) word(1)
      have "parsed pre s r i args (parse_from (Suc i) None (args[i := Some ?p]) t')" by simp
      with True less.prems(4) tok show ?thesis by (simp add: parse_from_def [of i] parse_loop_next)
    next
      case False
      then have "parsed pre s r i args (parse_loop i (Some ?p) args t')"
        using less.prems t' x(2) by (intro parsed_end [where s' = "replicate n CHR '' '' @ w @ x @ s2"]) auto
      with tok show ?thesis by (simp add: parse_from_def)
    qed
  qed
qed

text \<open>
  \<open>parse_cmd\<close> splits a command of the line into its words, at most 63; it neither reads nor writes
  outside the line and the array, and ends the vector with NULL.
\<close>

lemma parse_cmd_words:
  assumes "line t = pre @ s @ NUL # r" "NUL \<notin> set s" "length args = MAX_ARGS" "p = length pre"
  obtains args' t' where "parse_cmd (Some p) args t = Some (args', t')" "length args' = MAX_ARGS"
    "argv args' t' = take (MAX_ARGS - 1) (words CHR '' '' s)"
proof -
  have "parsed pre s r 0 args (parse_from 0 (Some p) args t)"
    using assms by (intro parse_from_words) (auto simp: start_def MAX_ARGS_def)
  then obtain ps t' where res: "parse_cmd (Some p) args t = Some (map Some ps @ None # drop (Suc (length ps)) args, t')"
    and ws: "map (string_at t') ps = take (MAX_ARGS - 1) (words CHR '' '' s)"
    by (auto simp: parsed_def parse_from_def parse_cmd_def)
  have "length ps \<le> MAX_ARGS - 1"
    using ws by (metis length_map length_take min.cobounded2 min.commute)
  moreover have "takeWhile (\<lambda>a. a \<noteq> None) (map Some ps @ None # drop (Suc (length ps)) args) = map Some ps"
    by (subst takeWhile_append2) auto
  ultimately show thesis
    using that res ws assms(3) by (auto simp: argv_def MAX_ARGS_def comp_def)
qed

lemma argc_argv: "argc args = length (argv args t)"
  by (simp add: argc_def argv_def)

lemma no_command: "length args = MAX_ARGS \<Longrightarrow> args ! 0 = None \<longleftrightarrow> argv args t = []"
  by (cases args) (auto simp: argv_def MAX_ARGS_def)

section \<open>The interpreters on lines of words\<close>

text \<open>
  The reference: a shell given its lines one by one, which splits them with \<open>words\<close>. \<open>typed\<close> is a line that fits
  the buffer.
\<close>

definition typed :: "string \<Rightarrow> bool" where
  "typed l = (NL \<notin> set l \<and> NUL \<notin> set l \<and> length l \<le> MAX_LINE - 2)"

definition input_lines :: "string list \<Rightarrow> string" where
  "input_lines ls = concat (map (\<lambda>l. l @ [NL]) ls)"

definition command_words :: "string \<Rightarrow> string list" where
  "command_words s = take (MAX_ARGS - 1) (words CHR '' '' s)"

fun simple_shell :: "string list \<Rightarrow> prog" where
  "simple_shell [] = prompt (Exit 0)"
| "simple_shell (l # ls) =
     prompt
       (if l = ''exit'' then Exit 0
        else if command_words l = [] then simple_shell ls
        else Fork (\<lambda>pid.
          if pid = 0 then Execvp (command_words l) (Perror ''exec failed'' (Exit 1))
          else if 0 < pid then Waitpid pid (simple_shell ls)
          else Perror ''fork error'' (simple_shell ls)))"

lemma typed_line:
  assumes "typed l"
  shows "fgets MAX_LINE (input_lines (l # ls)) = Some (l @ [NL], input_lines ls)"
    and "\<exists>r. cut_newline (store_line buf (l @ [NL])) = l @ NUL # r"
    and "cstr (cut_newline (store_line buf (l @ [NL]))) = l"
proof -
  have l: "NL \<notin> set l" "NUL \<notin> set l" "length l < MAX_LINE - 1"
    using assms by (auto simp: typed_def MAX_LINE_def)
  show "fgets MAX_LINE (input_lines (l # ls)) = Some (l @ [NL], input_lines ls)"
    using fgets_take_line [OF l(1,3), of "input_lines ls"] by (simp add: fgets_def input_lines_def)
  have "takeWhile (\<lambda>c. c \<noteq> NL \<and> c \<noteq> NUL) (l @ NL # r) = l" for r
    using l by (subst takeWhile_append2) auto
  then show cut: "\<exists>r. cut_newline (store_line buf (l @ [NL])) = l @ NUL # r"
    by (simp add: cut_newline_def store_line_def)
  then show "cstr (cut_newline (store_line buf (l @ [NL]))) = l"
    using l(2) by (auto simp: cstr_append_NUL)
qed

text \<open>
  \<open>task3.c\<close> does on the lines it is given what the reference does: what \<open>strtok\<close>, the buffer
  and the array come to is that each line is split into its words, the first 63 of them, and
  run as one command before the next line is read.
\<close>

lemma task3_runs_lines:
  assumes "\<forall>l \<in> set ls. typed l" "length args = MAX_ARGS"
  shows "task3 (input_lines ls) buf args = simple_shell ls"
  using assms
proof (induction ls arbitrary: buf args)
  case Nil
  then show ?case by (subst task3.simps) (simp add: fgets_def input_lines_def prompt_def)
next
  case (Cons l ls)
  then have l: "typed l" by simp
  let ?line = "cut_newline (store_line buf (l @ [NL]))"
  obtain r where r: "?line = l @ NUL # r" using typed_line(2) [OF l] by blast
  obtain args' t where t: "parse_cmd (Some 0) args \<lparr>line = ?line, saved = 0\<rparr> = Some (args', t)"
      "length args' = MAX_ARGS" "argv args' t = command_words l"
    using parse_cmd_words [of "\<lparr>line = ?line, saved = 0\<rparr>" "[]" l r args 0] r l Cons.prems(2)
    by (auto simp: typed_def command_words_def)
  have rounds: "task3 (input_lines ls) (line t) args' = simple_shell ls"
    using Cons t(2) by simp
  have "argc args' = length (command_words l)" using t(3) argc_argv by metis
  then show ?case
    using typed_line(1,3) [OF l] t
    by (subst task3.simps) (simp add: prompt_def rounds Let_def cong: if_cong)
qed

lemma task3_runs_lines_witness:
  "task3 (input_lines [''ls  -l'', [], ''exit'']) (replicate 256 NUL) (replicate 64 None)
     = simple_shell [''ls  -l'', [], ''exit''] \<and> command_words ''ls  -l'' = [''ls'', ''-l'']"
proof
  show "task3 (input_lines [''ls  -l'', [], ''exit'']) (replicate 256 NUL) (replicate 64 None)
      = simple_shell [''ls  -l'', [], ''exit'']"
    by (rule task3_runs_lines; code_simp)
  show "command_words ''ls  -l'' = [''ls'', ''-l'']" by code_simp
qed

text \<open>
  The reference for \<open>interpreter.c\<close>. A line with two words between bars is a pipeline of the first two, and what
  comes after is not looked at. Otherwise the line is one command, with the bars in front of it, because
  it is the line that is parsed and not the first token.
\<close>

definition first_token :: "string \<Rightarrow> string" where
  "first_token l =
     takeWhile (\<lambda>c. c = CHR ''|'') l @ (case words CHR ''|'' l of [] \<Rightarrow> [] | w # ws \<Rightarrow> w)"

definition start_command :: "string \<Rightarrow> string \<Rightarrow> prog" where
  "start_command w message =
     (if command_words w = [] then Crash else Execvp (command_words w) (Perror message (Exit 1)))"

definition start_pipeline :: "nat \<times> nat \<Rightarrow> string \<Rightarrow> string \<Rightarrow> prog \<Rightarrow> prog" where
  "start_pipeline fd0 w1 w2 k =
     Pipe (\<lambda>res. let (rd, wr) = (case res of None \<Rightarrow> fd0 | Some fd \<Rightarrow> fd) in
       Fork (\<lambda>pid1.
         if pid1 = 0 then Dup2 wr 1 (Close rd (Close wr (start_command w1 ''exec1'')))
         else Fork (\<lambda>pid2.
           if pid2 = 0 then Dup2 rd 0 (Close rd (Close wr (start_command w2 ''exec2'')))
           else Close rd (Close wr (Wait (\<lambda>p st. Wait (\<lambda>p st. k)))))))"

fun pipe_shell :: "nat \<times> nat \<Rightarrow> string list \<Rightarrow> prog" where
  "pipe_shell fd0 [] = prompt (Exit 0)"
| "pipe_shell fd0 (l # ls) =
     prompt
       (if l = ''exit'' then Exit 0
        else (case words CHR ''|'' l of
                w1 # w2 # ws \<Rightarrow> start_pipeline fd0 w1 w2 (pipe_shell fd0 ls)
              | _ \<Rightarrow>
                  if command_words (first_token l) = [] then pipe_shell fd0 ls
                  else Fork (\<lambda>pid.
                    if pid = 0 then Execvp (command_words (first_token l)) (Perror ''exec'' (Exit 1))
                    else Wait (\<lambda>p st. pipe_shell fd0 ls))))"

lemma run_command_start:
  assumes "line t = pre @ w @ NUL # r" "NUL \<notin> set w" "length args = MAX_ARGS" "p = length pre"
  shows "run_command (Some p) args t message = start_command w message"
proof -
  obtain args' t' where "parse_cmd (Some p) args t = Some (args', t')" "length args' = MAX_ARGS"
      "argv args' t' = command_words w"
    using parse_cmd_words [OF assms] unfolding command_words_def by blast
  then have "args' ! 0 = None \<longleftrightarrow> command_words w = []"
    and "parse_cmd (Some p) args t = Some (args', t')" "argv args' t' = command_words w"
    using no_command [of args' t'] by auto
  then show ?thesis by (simp add: run_command_def start_command_def)
qed

text \<open>The two calls of \<open>strtok\<close> for the bar: two commands, or a line whose string is \<open>first_token\<close>.\<close>

lemma split_at_bar:
  assumes l: "line t = l @ NUL # r" "NUL \<notin> set l"
  obtains (two) w1 w2 ws c1 c2 t1 t2 pre1 r1 pre2 r2 where
      "words CHR ''|'' l = w1 # w2 # ws"
      "strtok (Some 0) CHR ''|'' t = Some (Some c1, t1)" "strtok None CHR ''|'' t1 = Some (Some c2, t2)"
      "line t2 = pre1 @ w1 @ NUL # r1" "c1 = length pre1" "NUL \<notin> set w1"
      "line t2 = pre2 @ w2 @ NUL # r2" "c2 = length pre2" "NUL \<notin> set w2"
  | (one) c1 t1 t2 r1 where "length (words CHR ''|'' l) \<le> 1"
      "strtok (Some 0) CHR ''|'' t = Some (c1, t1)" "strtok None CHR ''|'' t1 = Some (None, t2)"
      "line t2 = first_token l @ NUL # r1" "NUL \<notin> set (first_token l)"
proof -
  have bar: "CHR ''|'' \<noteq> NUL" by (simp add: NUL_def)
  show thesis
  proof (cases l "CHR ''|''" rule: split_word)
    case (blank n)
    let ?t = "t\<lparr>saved := n\<rparr>"
    have "strtok (Some 0) CHR ''|'' t = Some (None, ?t)"
      using strtok_none [OF bar, of t "[]" n r "Some 0"] l(1) blank by (simp add: start_def)
    moreover have "strtok None CHR ''|'' ?t = Some (None, ?t)"
      using strtok_none [OF bar, of ?t l 0 r None] l(1) blank by (simp add: start_def)
    moreover have "first_token l = l" using blank by (simp add: first_token_def words_blank)
    ultimately show thesis using one [of None ?t ?t r] l blank by (simp add: words_blank)
  next
    case (word n w1 r1)
    have "line t = [] @ l @ NUL # r" "start (Some 0) t = length []" using l(1) by (simp_all add: start_def)
    from strtok_word [OF bar this l(2) word]
    obtain x s2 t1 where c1: "strtok (Some 0) CHR ''|'' t = Some (Some (length ([] @ replicate n CHR ''|'')), t1)"
      and t1: "line t1 = ([] @ replicate n CHR ''|'' @ w1 @ x) @ s2 @ NUL # r"
        "saved t1 = length ([] @ replicate n CHR ''|'' @ w1 @ x)" and x: "x = [NUL] \<or> x = [] \<and> s2 = []"
      and ws: "words CHR ''|'' l = w1 # words CHR ''|'' s2" "NUL \<notin> set s2" .
    have w1: "NUL \<notin> set w1" using l(2) word(1) by simp
    have start: "start None t1 = length ([] @ replicate n CHR ''|'' @ w1 @ x)" using t1(2) by (simp add: start_def)
    show thesis
    proof (cases s2 "CHR ''|''" rule: split_word)
      case (blank m)
      let ?t = "t1\<lparr>saved := saved t1 + m\<rparr>"
      have "strtok None CHR ''|'' t1 = Some (None, ?t)"
        using strtok_none [OF bar t1(1) [unfolded blank] start] t1(2) by simp
      moreover have "takeWhile (\<lambda>c. c = CHR ''|'') l = replicate n CHR ''|''"
        using word by (cases w1) (auto simp: takeWhile_append2 takeWhile_append)
      then have first: "first_token l = replicate n CHR ''|'' @ w1" using ws by (simp add: first_token_def)
      moreover obtain r1 where "line t1 = first_token l @ NUL # r1" using t1(1) x first by auto
      ultimately show thesis
        using one [of "Some (length ([] @ replicate n CHR ''|''))" t1 ?t r1] c1 ws blank w1 bar by (auto simp: words_blank)
    next
      case (word m w2 r2)
      from strtok_word [OF bar t1(1) start ws(2) word]
      obtain y s3 t2 where c2: "strtok None CHR ''|'' t1 =
            Some (Some (length (([] @ replicate n CHR ''|'' @ w1 @ x) @ replicate m CHR ''|'')), t2)"
        and t2: "line t2 = (([] @ replicate n CHR ''|'' @ w1 @ x) @ replicate m CHR ''|'' @ w2 @ y) @ s3 @ NUL # r"
        and y: "y = [NUL] \<or> y = [] \<and> s3 = []" and ws2: "words CHR ''|'' s2 = w2 # words CHR ''|'' s3" .
      have "x = [NUL]" using x word(1,2) by auto
      then obtain q1 where q1: "line t2 = replicate n CHR ''|'' @ w1 @ NUL # q1" using t2 by simp
      obtain q2 where q2:
        "line t2 = (([] @ replicate n CHR ''|'' @ w1 @ x) @ replicate m CHR ''|'') @ w2 @ NUL # q2" using t2 y by auto
      have "NUL \<notin> set w2" using ws(2) word(1) by simp
      with ws(1) ws2 w1 show thesis by (intro two [OF _ c1 c2 q1 _ _ q2 refl]) simp_all
    qed
  qed
qed

text \<open>
  Property C6. \<open>interpreter.c\<close> does on the lines it is given what its reference does. A line of two commands with a
  bar between them is a pipeline; a third command is dropped, and a bar in front of a lone command
  becomes part of its name.
\<close>

theorem interpreter_runs_lines:
  assumes "\<forall>l \<in> set ls. typed l" "length args = MAX_ARGS"
  shows "interpreter fd0 args (input_lines ls) buf = pipe_shell fd0 ls"
  using assms(1)
proof (induction ls arbitrary: buf)
  case Nil
  then show ?case by (subst interpreter.simps) (simp add: fgets_def input_lines_def prompt_def)
next
  case (Cons l ls)
  then have l: "typed l" "NUL \<notin> set l" by (auto simp: typed_def)
  let ?t = "\<lparr>line = cut_newline (store_line buf (l @ [NL])), saved = 0\<rparr>"
  obtain r where r: "line ?t = l @ NUL # r" using typed_line(2) [OF l(1)] by auto
  have rounds: "interpreter fd0 args (input_lines ls) b = pipe_shell fd0 ls" for b
    using Cons by simp
  from r l(2) show ?case
  proof (cases rule: split_at_bar)
    case (two w1 w2 ws c1 c2 t1 t2 pre1 r1 pre2 r2)
    have "run_pipeline fd0 args (Some c1) (Some c2) t2 k = start_pipeline fd0 w1 w2 k" for k
      using run_command_start [OF two(4,6) assms(2) two(5)] run_command_start [OF two(7,9) assms(2) two(8)]
      by (simp add: run_pipeline_def start_pipeline_def case_prod_beta Let_def cong: if_cong)
    then show ?thesis
      using typed_line(1,3) [OF l(1)] two(1-3)
      by (subst interpreter.simps) (simp add: prompt_def rounds Let_def)
  next
    case (one c1 t1 t2 r1)
    obtain args' t' where t': "parse_cmd (Some 0) args t2 = Some (args', t')" "length args' = MAX_ARGS"
        "argv args' t' = command_words (first_token l)"
      using parse_cmd_words [of t2 "[]" "first_token l" r1 args 0] one assms(2) by (auto simp: command_words_def)
    then have "args' ! 0 = None \<longleftrightarrow> command_words (first_token l) = []"
      using no_command [of args' t'] by simp
    moreover have "\<nexists>w1 w2 ws. words CHR ''|'' l = w1 # w2 # ws" using one(1) by auto
    ultimately show ?thesis
      using typed_line(1,3) [OF l(1)] one(2,3) t'
      by (subst interpreter.simps) (auto simp: prompt_def rounds Let_def cong: if_cong split: list.split)
  qed
qed

theorem interpreter_runs_lines_witness:
  "interpreter (3, 4) (replicate 64 None) (input_lines [''|ls'', ''a|b|c'', ''exit'']) (replicate 256 NUL)
     = pipe_shell (3, 4) [''|ls'', ''a|b|c'', ''exit'']
   \<and> command_words (first_token ''|ls'') = [''|ls''] \<and> words CHR ''|'' ''a|b|c'' = [''a'', ''b'', ''c'']"
proof (intro conjI)
  show "interpreter (3, 4) (replicate 64 None) (input_lines [''|ls'', ''a|b|c'', ''exit'']) (replicate 256 NUL)
      = pipe_shell (3, 4) [''|ls'', ''a|b|c'', ''exit'']"
    by (rule interpreter_runs_lines; code_simp)
qed code_simp+

text \<open>What is typed with blanks between the words comes out as the words.\<close>

definition join_words :: "string list \<Rightarrow> string" where
  "join_words ws = concat (map (\<lambda>w. w @ '' '') ws)"

lemma words_join:
  "\<forall>w \<in> set ws. w \<noteq> [] \<and> CHR '' '' \<notin> set w \<Longrightarrow> words CHR '' '' (join_words ws) = ws"
proof (induction ws)
  case (Cons w ws)
  then show ?case
    using words_span [of w "CHR '' ''" "CHR '' '' # join_words ws" 0] by (simp add: join_words_def)
qed (simp add: join_words_def)

text \<open>
  The words of a command line, typed with blanks, are the argument vector that \<open>parse_cmd\<close>
  makes, when there are at most 63; the array of 64 pointers is never left.
\<close>

lemma parse_cmd_roundtrip:
  assumes "\<forall>w \<in> set ws. w \<noteq> [] \<and> CHR '' '' \<notin> set w \<and> NUL \<notin> set w" "length ws < MAX_ARGS" "length args = MAX_ARGS"
  shows "\<exists>args' t'. parse_cmd (Some 0) args \<lparr>line = join_words ws @ NUL # rest, saved = n\<rparr> = Some (args', t')
           \<and> length args' = MAX_ARGS \<and> argv args' t' = ws"
proof -
  have "NUL \<notin> set (join_words ws)" using assms(1) by (auto simp: join_words_def NUL_def)
  moreover have "words CHR '' '' (join_words ws) = ws" using assms(1) by (intro words_join) blast
  ultimately obtain args' t' where "parse_cmd (Some 0) args \<lparr>line = join_words ws @ NUL # rest, saved = n\<rparr> = Some (args', t')"
      "length args' = MAX_ARGS" "argv args' t' = ws"
    using parse_cmd_words [of "\<lparr>line = join_words ws @ NUL # rest, saved = n\<rparr>" "[]" "join_words ws" rest args 0]
      assms(2,3) by auto
  then show ?thesis by blast
qed

lemma parse_cmd_roundtrip_witness:
  "\<exists>args' t'. parse_cmd (Some 0) (replicate 64 None)
       \<lparr>line = join_words [''echo'', ''a''] @ NUL # [], saved = 9\<rparr> = Some (args', t')
     \<and> length args' = MAX_ARGS \<and> argv args' t' = [''echo'', ''a'']"
  by (rule parse_cmd_roundtrip) code_simp+

section \<open>No command is left behind\<close>

text \<open>Every round of a shell leaves less to read.\<close>

lemma line_shorter: "fgets MAX_LINE s = Some (l, r) \<Longrightarrow> length r < length s"
  by (erule fgets_shorter) (simp add: MAX_LINE_def)

lemma task3_reaps: "reaps (task3 stdin buf args) {}"
proof (induction "length stdin" arbitrary: stdin buf args rule: less_induct)
  case less
  have rounds: "reaps (task3 r b a) {}" if "fgets MAX_LINE stdin = Some (l, r)" for l r b a
    using less line_shorter [OF that] .
  show ?case
    by (subst task3.simps) (auto simp: prompt_def Let_def rounds split: option.split)
qed

lemma run_command_reaps: "reaps (run_command cmd args t message) {}"
  by (simp add: run_command_def split: option.split)

lemma run_pipeline_reaps: "reaps k {} \<Longrightarrow> reaps (run_pipeline fd0 args cmd1 cmd2 t k) {}"
  by (auto simp: run_pipeline_def run_command_reaps insert_Diff_if case_prod_beta)

lemma interpreter_reaps: "reaps (interpreter fd0 args stdin buf) {}"
proof (induction "length stdin" arbitrary: stdin buf rule: less_induct)
  case less
  have rounds: "reaps (interpreter fd0 args r b) {}" if "fgets MAX_LINE stdin = Some (l, r)" for l r b
    using less line_shorter [OF that] .
  show ?case
    by (subst interpreter.simps) (auto simp: prompt_def Let_def rounds run_pipeline_reaps split: option.split)
qed

text \<open>
  Property C10. When a shell has ended, no command it started is left, running or as a zombie, and until then
  the system is never stuck: \<open>waitpid\<close> in \<open>task3.c\<close>, the \<open>wait\<close>s in \<open>interpreter.c\<close>, also when a fork fails.
\<close>

theorem shells_leave_nothing_running:
  assumes "c = task3 stdin buf args \<or> c = interpreter fd0 args stdin buf" "1 < p" "reach (step tty) (boot p c) s"
  shows "if has_ended p s then length (procs s) = 1 else \<exists>a s'. step tty a s = Some s'"
  using ended_or_moves [OF assms(3,2)] assms(1) task3_reaps interpreter_reaps by metis

theorem shells_leave_nothing_running_witness:
  "\<exists>s. reach (step True) (boot 2 (task3 (''ls'' @ [NL]) (replicate 256 NUL) (replicate 64 None))) s
     \<and> has_ended 2 s \<and> length (procs s) = 1"
proof -
  let ?c = "task3 (''ls'' @ [NL]) (replicate 256 NUL) (replicate 64 None)"
  have "case run_steps (step True)
      [Go 2, Go 2, Born 2 3, Go 3, Image_ends 3 (Exited 0), Reap 2 3, Go 2, Go 2, Go 2] (boot 2 ?c) of
      None \<Rightarrow> False | Some s \<Rightarrow> has_ended 2 s"
    by code_simp
  then obtain s where s: "reach (step True) (boot 2 ?c) s" "has_ended 2 s" by (rule run_finds)
  moreover have "length (procs s) = 1"
    using shells_leave_nothing_running [of ?c "''ls'' @ [NL]" "replicate 256 NUL" "replicate 64 None" _ 2 True s] s by simp
  ultimately show ?thesis by blast
qed

section \<open>Pipe ends\<close>

text \<open>
  A program may keep the read end of a pipe only as its standard input, and then no write end, and
  a write end only as its standard output. A shell that waits has no pipe end left.
\<close>

definition clean :: "descriptors \<Rightarrow> bool" where
  "clean t =
     ((\<forall>fd i. file_at t fd = Some (Rd i) \<longrightarrow> fd = 0 \<and> (\<forall>x j. file_at t x \<noteq> Some (Wr j)))
      \<and> (\<forall>fd i. file_at t fd = Some (Wr i) \<longrightarrow> fd = 1))"

definition no_pipes :: "descriptors \<Rightarrow> bool" where
  "no_pipes t = (\<forall>fd i. file_at t fd \<noteq> Some (Rd i) \<and> file_at t fd \<noteq> Some (Wr i))"

primrec closes :: "prog \<Rightarrow> descriptors \<Rightarrow> bool" where
  "closes (Exit n) t = True"
| "closes (Printf f k) t = closes k t"
| "closes (Perror m k) t = closes k t"
| "closes (Fflush k) t = closes k t"
| "closes (Fork k) t = (closes (k 0) t \<and> closes (k (- 1)) t \<and> (\<forall>c. 1 < c \<longrightarrow> closes (k c) t))"
| "closes (Wait k) t = (no_pipes t \<and> (\<forall>c d. closes (k c d) t))"
| "closes (Waitpid c k) t = (no_pipes t \<and> closes k t)"
| "closes (Execvp xs k) t = (clean t \<and> closes k t)"
| "closes (Pipe k) t =
     (closes (k None) t \<and> (\<forall>i. let (r, w, t') = pipe_fds i t in closes (k (Some (r, w))) t'))"
| "closes (Dup2 x y k) t = closes k (dup2_fds x y t)"
| "closes (Close fd k) t = closes k (close_fd fd t)"
| "closes (Read fd n k) t = (\<forall>r. closes (k r) t)"
| "closes (Write fd text k) t = closes k t"
| "closes (Mkfifo name k) t = (closes (k True) t \<and> closes (k False) t)"
| "closes (Open name w k) t =
     (closes (k None) t \<and> (\<forall>f. closes (k (Some (lowest_free t))) (put_fd (lowest_free t) (Some f) t)))"
| "closes (Unlink name k) t = closes k t"
| "closes Crash t = True"

fun closing :: "int set \<Rightarrow> descriptors \<Rightarrow> status \<Rightarrow> bool" where
  "closing K t (Live c) = closes c t"
| "closing K t (Image xs) = clean t"
| "closing K t (Zombie d) = True"

interpretation closing: process_discipline closing
proof
  show "closing K' t' st" if "closing K t (Live c)" "(K', t', st) \<in> after K t c" for K t c K' t' st
    using that by (cases c) (auto simp: case_prod_beta Let_def split: if_splits)
qed auto

lemma file_at_put [simp]: "file_at (put_fd fd f t) x = (if x = fd then f else file_at t x)"
  by (auto simp: file_at_def put_fd_def nth_append nth_list_update)

lemma file_at_close [simp]: "file_at (close_fd fd t) x = (if x = fd then None else file_at t x)"
  by (auto simp: file_at_def close_fd_def nth_list_update)

lemma file_at_dup2 [simp]:
  "file_at (dup2_fds old new t) x = (if x = new \<and> file_at t old \<noteq> None then file_at t old else file_at t x)"
  by (auto simp: dup2_fds_def split: option.split)

lemma lowest_free_free [simp]: "file_at t (lowest_free t) = None"
  by (induction t rule: lowest_free.induct) (auto simp: file_at_def)

lemma pipe_fds_at:
  assumes "pipe_fds i t = (r, w, t')"
  shows "r \<noteq> w" "file_at t' x = (if x = w then Some (Wr i) else if x = r then Some (Rd i) else file_at t x)"
proof -
  have w: "w = lowest_free (put_fd r (Some (Rd i)) t)" and t': "t' = put_fd w (Some (Wr i)) (put_fd r (Some (Rd i)) t)"
    using assms by (auto simp: pipe_fds_def Let_def)
  have "file_at (put_fd r (Some (Rd i)) t) w = None" unfolding w by (rule lowest_free_free)
  then show "r \<noteq> w" by auto
  show "file_at t' x = (if x = w then Some (Wr i) else if x = r then Some (Rd i) else file_at t x)"
    unfolding t' by simp
qed

lemma no_pipes_clean: "no_pipes t \<Longrightarrow> clean t"
  by (simp add: no_pipes_def clean_def)

lemma run_command_closes: "clean t \<Longrightarrow> closes (run_command cmd args tk message) t"
  by (simp add: run_command_def split: option.split)

lemma run_pipeline_closes:
  assumes t: "no_pipes t" and k: "\<And>t'. no_pipes t' \<Longrightarrow> closes k t'"
  shows "closes (run_pipeline fd0 args cmd1 cmd2 tk k) t"
proof -
  have ends: "clean (close_fd w (close_fd r (dup2_fds w (Suc 0) t')))" "clean (close_fd w (close_fd r (dup2_fds r 0 t')))"
    "no_pipes (close_fd w (close_fd r t'))"
    if "pipe_fds i t = (r, w, t')" for r w t' i
    using t pipe_fds_at(1) [OF that] by (auto simp: clean_def no_pipes_def pipe_fds_at(2) [OF that])
  then have later: "closes k (close_fd w (close_fd r t'))" if "pipe_fds i t = (r, w, t')" for r w t' i
    using that by (intro k) blast
  have none: "clean (close_fd w (close_fd r (dup2_fds x y t)))" "no_pipes (close_fd w (close_fd r t))" for r w x y
    using t by (auto simp: clean_def no_pipes_def)
  show ?thesis
    using t
    by (auto simp: run_pipeline_def Let_def none k no_pipes_clean 
        intro!: run_command_closes split: prod.split intro: ends later)
qed

lemma interpreter_closes: "no_pipes t \<Longrightarrow> closes (interpreter fd0 args stdin buf) t"
proof (induction "length stdin" arbitrary: stdin buf t rule: less_induct)
  case less
  have rounds: "closes (interpreter fd0 args r b) t'" if "fgets MAX_LINE stdin = Some (l, r)" "no_pipes t'" for l r b t'
    using less.hyps [OF line_shorter [OF that(1)] that(2)] .
  then show ?case
    using less.prems
    by (subst interpreter.simps)
      (auto simp: prompt_def Let_def run_pipeline_closes no_pipes_clean split: option.split)
qed

text \<open>
  Property C14. When \<open>interpreter.c\<close> has started a command, that program holds of the pipe only what it is
  to use: the end to read as standard input and no end to write, or the end to write as
  standard output. A shell that waits holds neither, so the second command comes to the end of
  its input when the first has ended.
\<close>

theorem interpreter_leaks_no_pipe_end:
  assumes "reach (step tty) (boot p (interpreter fd0 args stdin buf)) s" "1 < p" "q \<in> set (procs s)"
  shows "case stat q of Image command \<Rightarrow> clean (fds q) | Live (Wait k) \<Rightarrow> no_pipes (fds q) | _ \<Rightarrow> True"
proof -
  have "no_pipes terminal_fds"
    by (auto simp: no_pipes_def terminal_fds_def file_at_def nth_Cons split: nat.splits)
  then have "all_obey closing (procs s)"
    using closing.every_process_obeys [OF assms(1,2)] interpreter_closes by simp
  with assms(3) show ?thesis
    by (auto simp: all_obey_def split: status.split prog.split)
qed

theorem interpreter_leaks_no_pipe_end_witness:
  "\<exists>s q. reach (step True) (boot 2 (interpreter (3, 4) (replicate 64 None) (''ls|wc'' @ [NL]) (replicate 256 NUL))) s
     \<and> q \<in> set (procs s) \<and> stat q = Image [''wc''] \<and> file_at (fds q) 0 = Some (Rd 0) \<and> clean (fds q)"
proof -
  let ?c = "interpreter (3, 4) (replicate 64 None) (''ls|wc'' @ [NL]) (replicate 256 NUL)"
  have "case run_steps (step True) [Go 2, Go 2, Go 2, Born 2 3, Born 2 4, Go 4, Go 4, Go 4, Go 4] (boot 2 ?c) of
      None \<Rightarrow> False
    | Some s \<Rightarrow> (case find_process 4 (procs s) of None \<Rightarrow> False
                 | Some q \<Rightarrow> (case stat q of Image w \<Rightarrow> w = [''wc''] \<and> file_at (fds q) 0 = Some (Rd 0) | _ \<Rightarrow> False))"
    by code_simp
  then obtain s where s: "reach (step True) (boot 2 ?c) s"
      and q: "case find_process 4 (procs s) of None \<Rightarrow> False
        | Some q \<Rightarrow> (case stat q of Image w \<Rightarrow> w = [''wc''] \<and> file_at (fds q) 0 = Some (Rd 0) | _ \<Rightarrow> False)"
    by (rule run_finds)
  from q obtain q where q: "find_process 4 (procs s) = Some q" "stat q = Image [''wc'']" "file_at (fds q) 0 = Some (Rd 0)"
    by (auto split: option.splits status.splits)
  then have "q \<in> set (procs s)" using find_process_Some by blast
  with interpreter_leaks_no_pipe_end [OF s] q s show ?thesis by fastforce
qed

end
