(* ===== verification/Process_Tasks.thy ===== *)
theory Process_Tasks
  imports Processes
begin

text \<open>
  The exercises on processes and channels that are no shells: \<open>processes/task1.c\<close> (a child and its exit
  status), \<open>processes/task2.c\<close> (a tree of six processes), \<open>channels/pipe.c\<close> and the two sides of
  \<open>channels/fifo-server.c\<close> and \<open>channels/fifo-client.c\<close>, as programs of the theory \<open>Processes\<close>.
\<close>

section \<open>A child and its exit status\<close>

definition identity_line :: "string \<Rightarrow> int \<Rightarrow> int \<Rightarrow> string" where
  "identity_line name self parent =
     name @ '': PID='' @ show_int self @ '', PPID='' @ show_int parent @ [NL]"

definition exit_line :: "int \<Rightarrow> nat \<Rightarrow> string" where
  "exit_line wpid n = ''Parent: child '' @ show_int wpid @ '' exited with status '' @ show_nat n @ [NL]"

text \<open>\<open>status0\<close> is what the variable \<open>status\<close> holds before \<open>wait\<close> stores into it.\<close>

definition task1_child :: prog where
  "task1_child = Printf (identity_line ''Child'') (Exit 42)"

definition task1_reports :: "death \<Rightarrow> int \<Rightarrow> death option \<Rightarrow> prog" where
  "task1_reports status0 wpid st =
     (case (case st of None \<Rightarrow> status0 | Some d \<Rightarrow> d) of
        Exited n \<Rightarrow> Printf (\<lambda>self parent. exit_line wpid n) (Exit 0)
      | Killed n \<Rightarrow> Exit 0)"

definition task1_parent :: "death \<Rightarrow> prog" where
  "task1_parent status0 = Printf (identity_line ''Parent'') (Wait (task1_reports status0))"

definition task1 :: "death \<Rightarrow> prog" where
  "task1 status0 =
     Fork (\<lambda>pid.
       if pid < 0 then Perror ''fork error'' (Exit 1)
       else if pid = 0 then task1_child
       else task1_parent status0)"

definition proc :: "int \<Rightarrow> int \<Rightarrow> status \<Rightarrow> process" where
  "proc p parent st = \<lparr>pid = p, ppid = parent, stat = st, fds = terminal_fds, outbuf = []\<rparr>"

definition ended :: "int \<Rightarrow> int \<Rightarrow> death \<Rightarrow> process" where
  "ended p parent d = \<lparr>pid = p, ppid = parent, stat = Zombie d, fds = [], outbuf = []\<rparr>"

lemmas step_simps = step_def find_process_def go_def fork_step_def fail_step_def reap_step_def meet_step_def
  become_def revise_def die_def orphan_def print_def flush_def put_file_def kids_def proc_def ended_def
  file_at_def terminal_fds_def Let_def

text \<open>The states of \<open>task1\<close> on a terminal: process \<open>p\<close> and, between fork and wait, its child \<open>c\<close>.\<close>

inductive task1_states :: "death \<Rightarrow> int \<Rightarrow> unix \<Rightarrow> bool" for d0 p where
  at_start: "procs s = [proc p 1 (Live (task1 d0))] \<Longrightarrow> task1_states d0 p s"
| no_child: "procs s \<in> {[proc p 1 (Live (Perror ''fork error'' (Exit 1)))], [proc p 1 (Live (Exit 1))],
     [ended p 1 (Exited 1)]} \<Longrightarrow> task1_states d0 p s"
| both: "1 < c \<Longrightarrow> c \<noteq> p \<Longrightarrow> parent \<in> {task1_parent d0, Wait (task1_reports d0)} \<Longrightarrow>
     child \<in> {proc c p (Live task1_child), proc c p (Live (Exit 42)), ended c p (Exited 42)} \<Longrightarrow>
     procs s = [proc p 1 (Live parent), child] \<Longrightarrow> task1_states d0 p s"
| told: "procs s = [proc p 1 (Live (task1_reports d0 c (Some (Exited 42))))] \<Longrightarrow> task1_states d0 p s"
| over: "procs s \<in> {[proc p 1 (Live (Exit 0))], [ended p 1 (Exited 0)]} \<Longrightarrow>
     screen s = before @ exit_line c 42 \<Longrightarrow> task1_states d0 p s"

lemma NL_in_lines [simp]: "NL \<in> set (identity_line name self parent)" "NL \<in> set (exit_line c n)"
  by (simp_all add: identity_line_def exit_line_def)

lemma task1_from_start:
  assumes "procs s = [proc p 1 (Live (task1 d0))]" "step True a s = Some s'"
  shows "procs s' = [proc p 1 (Live (Perror ''fork error'' (Exit 1)))]
     \<or> (\<exists>c. 1 < c \<and> c \<noteq> p \<and> procs s' = [proc p 1 (Live (task1_parent d0)), proc c p (Live task1_child)])"
  using assms by (cases a) (auto simp: step_simps task1_def split: if_splits option.splits)

lemma task1_from_no_child:
  assumes "procs s \<in> {[proc p 1 (Live (Perror ''fork error'' (Exit 1)))], [proc p 1 (Live (Exit 1))], [ended p 1 (Exited 1)]}"
    "step True a s = Some s'" "1 < p"
  shows "procs s' \<in> {[proc p 1 (Live (Exit 1))], [ended p 1 (Exited 1)]}"
  using assms by (cases a) (auto simp: step_simps split: if_splits option.splits)

lemma task1_from_both:
  assumes "1 < c" "c \<noteq> p" "1 < p" "parent \<in> {task1_parent d0, Wait (task1_reports d0)}"
    "child \<in> {proc c p (Live task1_child), proc c p (Live (Exit 42)), ended c p (Exited 42)}"
    "procs s = [proc p 1 (Live parent), child]" "step True a s = Some s'"
  shows "(\<exists>parent' \<in> {task1_parent d0, Wait (task1_reports d0)}.
       \<exists>child' \<in> {proc c p (Live task1_child), proc c p (Live (Exit 42)), ended c p (Exited 42)}.
         procs s' = [proc p 1 (Live parent'), child'])
     \<or> procs s' = [proc p 1 (Live (task1_reports d0 c (Some (Exited 42))))]"
  using assms
  by (cases a) (auto simp: step_simps task1_parent_def task1_child_def split: if_splits option.splits)

lemma task1_from_told:
  assumes "procs s = [proc p 1 (Live (task1_reports d0 c (Some (Exited 42))))]" "step True a s = Some s'"
  shows "procs s' = [proc p 1 (Live (Exit 0))] \<and> (\<exists>before. screen s' = before @ exit_line c 42)"
  using assms by (cases a) (auto simp: step_simps task1_reports_def split: if_splits option.splits)

lemma task1_from_over:
  assumes "procs s \<in> {[proc p 1 (Live (Exit 0))], [ended p 1 (Exited 0)]}" "step True a s = Some s'" "1 < p"
  shows "procs s' = [ended p 1 (Exited 0)] \<and> screen s' = screen s"
  using assms by (cases a) (auto simp: step_simps split: if_splits option.splits)

lemma task1_kept:
  assumes "task1_states d0 p s" "1 < p" "step True a s = Some s'"
  shows "task1_states d0 p s'"
  using assms
proof (induction rule: task1_states.induct)
  case (at_start s)
  from task1_from_start [OF at_start(1,3)] show ?case
    by (auto intro: task1_states.no_child task1_states.both)
next
  case (no_child s)
  from task1_from_no_child [OF no_child(1,3,2)] show ?case by (auto intro: task1_states.no_child)
next
  case (both c parent child s)
  from task1_from_both [OF both(1,2,6,3-5,7)] both(1,2) show ?case
    by (meson task1_states.both task1_states.told)
next
  case (told s c)
  from task1_from_told [OF told(1,3)] show ?case by (auto intro: task1_states.over)
next
  case (over s before c)
  from task1_from_over [OF over(1,4,3)] over(2) show ?case by (auto intro: task1_states.over)
qed

text \<open>
  When the parent of \<open>task1.c\<close> ends without an error, the last it has printed is the pid of its
  child and the child's exit status, 42, whatever the order in which the two have run.
\<close>

lemma task1_reports_42:
  assumes "reach (step True) (boot p (task1 d0)) s" "1 < p" "ended_with p (Exited 0) s"
  shows "\<exists>before c. screen s = before @ exit_line c 42"
proof -
  have "task1_states d0 p s"
    using assms(1)
  proof induction
    case start
    show ?case by (rule task1_states.at_start) (simp add: boot_def proc_def)
  next
    case (next_step s a s')
    then show ?case using task1_kept assms(2) by blast
  qed
  then show ?thesis
    using assms(3) unfolding ended_with_iff
    by (cases rule: task1_states.cases) (auto simp: step_simps split: if_splits)
qed

lemma task1_reports_42_witness:
  "\<exists>s. reach (step True) (boot 2 (task1 (Killed 9))) s \<and> ended_with 2 (Exited 0) s
     \<and> (\<exists>before c. screen s = before @ exit_line c 42)"
proof -
  have "case run_steps (step True) [Born 2 7, Go 7, Go 2, Go 7, Reap 2 7, Go 2, Go 2] (boot 2 (task1 (Killed 9))) of
      None \<Rightarrow> False | Some s \<Rightarrow> ended_with 2 (Exited 0) s"
    by code_simp
  then obtain s where s: "reach (step True) (boot 2 (task1 (Killed 9))) s" "ended_with 2 (Exited 0) s"
    by (rule run_finds)
  with task1_reports_42 [OF s(1) _ s(2)] show ?thesis by auto
qed

section \<open>A tree of processes\<close>

definition task2_process1 :: prog where
  "task2_process1 =
     Printf (identity_line ''Process1'')
       (Fork (\<lambda>pid3. if pid3 = 0 then Printf (identity_line ''Process3'') (Exit 0)
        else Fork (\<lambda>pid4. if pid4 = 0 then Printf (identity_line ''Process4'') (Exit 0)
        else Wait (\<lambda>c st. Wait (\<lambda>c st. Exit 0)))))"

definition task2_process2 :: prog where
  "task2_process2 =
     Printf (identity_line ''Process2'')
       (Fork (\<lambda>pid5. if pid5 = 0 then Printf (identity_line ''Process5'') (Exit 0)
        else Wait (\<lambda>c st. Exit 0)))"

definition task2 :: prog where
  "task2 =
     Fork (\<lambda>pid1. if pid1 = 0 then task2_process1
     else Fork (\<lambda>pid2. if pid2 = 0 then task2_process2
     else Printf (identity_line ''Parent'') (Wait (\<lambda>c st. Wait (\<lambda>c st. Exit 0)))))"

text \<open>
  However the six processes of \<open>task2.c\<close> are scheduled and whichever forks fail, the first one ends
  last, when all others have ended and been waited for, and until it has ended some process can go on.
\<close>

lemma task2_ends_last:
  assumes "reach (step tty) (boot p task2) s" "1 < p"
  shows "if has_ended p s then length (procs s) = 1 else \<exists>a s'. step tty a s = Some s'"
proof (rule ended_or_moves [OF assms])
  show "reaps task2 {}"
    by (auto simp: task2_def task2_process1_def task2_process2_def insert_Diff_if)
qed

text \<open>
  When standard output is no terminal, what \<open>Process1\<close> has printed is still in its buffer at its two forks:
  a run prints the one line three times.
\<close>

definition count_text :: "string \<Rightarrow> string \<Rightarrow> nat" where
  "count_text t s = length (filter (\<lambda>i. take (length t) (drop i s) = t) [0..<length s])"

lemma redirected_output_repeats_line:
  "\<exists>s. reach (step False) (boot 2 task2) s \<and> count_text ''Process1'' (screen s) = 3"
proof -
  have "case run_steps (step False) [Born 2 3, Go 3, Born 3 4, Born 3 5, Go 4, Go 4, Go 5, Go 5, Reap 3 4, Reap 3 5, Go 3]
      (boot 2 task2) of None \<Rightarrow> False | Some s \<Rightarrow> count_text ''Process1'' (screen s) = 3"
    by code_simp
  then show ?thesis by (rule run_finds) blast
qed

section \<open>A pipe between parent and child\<close>

text \<open>A buffer of a program after \<open>read\<close>: what was read in front of what it held, or what it held.\<close>

definition after_read :: "string \<Rightarrow> string option \<Rightarrow> string" where
  "after_read buf res = (case res of None \<Rightarrow> buf | Some s \<Rightarrow> s @ drop (length s) buf)"

definition greeting :: string where "greeting = ''Hi!'' @ [NUL]"

definition show_read :: "string \<Rightarrow> nat \<Rightarrow> string option \<Rightarrow> prog" where
  "show_read buf rd res =
     Printf (\<lambda>self parent. ''Child read: '' @ cstr (after_read buf res) @ [NL]) (Close rd (Exit 0))"

definition pipe_child :: "string \<Rightarrow> nat \<Rightarrow> nat \<Rightarrow> prog" where
  "pipe_child buf rd wr = Close wr (Read rd 64 (show_read buf rd))"

definition pipe_parent :: "nat \<Rightarrow> nat \<Rightarrow> prog" where
  "pipe_parent rd wr = Close rd (Write wr greeting (Close wr (Wait (\<lambda>c st. Exit 0))))"

definition pipe_main :: "string \<Rightarrow> prog" where
  "pipe_main buf =
     Pipe (\<lambda>res. case res of
       None \<Rightarrow> Perror ''pipe'' (Exit 1)
     | Some (rd, wr) \<Rightarrow>
         Fork (\<lambda>pid.
           if pid < 0 then Perror ''fork'' (Exit 1)
           else if pid = 0 then pipe_child buf rd wr
           else pipe_parent rd wr))"

definition with_fds :: "open_file option list \<Rightarrow> process \<Rightarrow> process" where
  "with_fds extra q = q\<lparr>fds := terminal_fds @ extra\<rparr>"

text \<open>
  The points the parent and the child go through: the first two of the parent are in front of its write, the
  first two of the child in front of its read.
\<close>

definition parent_points :: "int \<Rightarrow> process list" where
  "parent_points p =
     [with_fds [Some (Rd 0), Some (Wr 0)] (proc p 1 (Live (pipe_parent 3 4))),
      with_fds [None, Some (Wr 0)] (proc p 1 (Live (Write 4 greeting (Close 4 (Wait (\<lambda>c st. Exit 0)))))),
      with_fds [None, Some (Wr 0)] (proc p 1 (Live (Close 4 (Wait (\<lambda>c st. Exit 0))))),
      with_fds [None, None] (proc p 1 (Live (Wait (\<lambda>c st. Exit 0))))]"

definition child_points :: "string \<Rightarrow> int \<Rightarrow> int \<Rightarrow> process list" where
  "child_points buf p c =
     [with_fds [Some (Rd 0), Some (Wr 0)] (proc c p (Live (pipe_child buf 3 4))),
      with_fds [Some (Rd 0), None] (proc c p (Live (Read 3 64 (show_read buf 3)))),
      with_fds [Some (Rd 0), None] (proc c p (Live (show_read buf 3 (Some greeting)))),
      with_fds [Some (Rd 0), None] (proc c p (Live (Close 3 (Exit 0)))),
      with_fds [None, None] (proc c p (Live (Exit 0))),
      ended c p (Exited 0)]"

definition read_line :: string where "read_line = ''Child read: Hi!'' @ [NL]"

inductive pipe_states :: "string \<Rightarrow> int \<Rightarrow> unix \<Rightarrow> bool" for buf p where
  at_start: "procs s = [proc p 1 (Live (pipe_main buf))] \<Longrightarrow> next_pipe s = 0 \<Longrightarrow> pipes s 0 = [] \<Longrightarrow>
     screen s = [] \<Longrightarrow> pipe_states buf p s"
| with_pipe: "procs s = [with_fds [Some (Rd 0), Some (Wr 0)] (proc p 1 (Live (Fork (\<lambda>pid.
           if pid < 0 then Perror ''fork'' (Exit 1)
           else if pid = 0 then pipe_child buf 3 4 else pipe_parent 3 4))))] \<Longrightarrow> pipes s 0 = [] \<Longrightarrow> screen s = [] \<Longrightarrow>
     pipe_states buf p s"
| failed: "procs s = [q] \<Longrightarrow> pid q = p \<Longrightarrow> outbuf q = [] \<Longrightarrow>
     stat q \<in> {Live (Perror ''pipe'' (Exit 1)), Live (Perror ''fork'' (Exit 1)), Live (Exit 1), Zombie (Exited 1)} \<Longrightarrow>
     screen s = [] \<Longrightarrow> pipe_states buf p s"
| both: "1 < c \<Longrightarrow> c \<noteq> p \<Longrightarrow> i < 4 \<Longrightarrow> j < 6 \<Longrightarrow> i < 2 \<longrightarrow> j < 2 \<Longrightarrow>
     procs s = [parent_points p ! i, child_points buf p c ! j] \<Longrightarrow>
     pipes s 0 = (if 2 \<le> i \<and> j < 2 then greeting else []) \<Longrightarrow>
     screen s = (if 3 \<le> j then read_line else []) \<Longrightarrow> pipe_states buf p s"
| over: "procs s \<in> {[with_fds [None, None] (proc p 1 (Live (Exit 0)))], [ended p 1 (Exited 0)]} \<Longrightarrow>
     screen s = read_line \<Longrightarrow> pipe_states buf p s"

text \<open>Two processes whose next calls neither fork nor fail: one of them moves, one reaps the other, or they meet.\<close>

fun quiet :: "status \<Rightarrow> bool" where
  "quiet (Live (Fork k)) = False"
| "quiet (Live (Pipe k)) = False"
| "quiet (Live (Execvp w k)) = False"
| "quiet (Image w) = False"
| "quiet st = True"

lemma quiet_fails: "quiet (stat q) \<Longrightarrow> fail_step q s = None" "quiet (stat q) \<Longrightarrow> fork_step q c s = None"
  "quiet (stat q) \<Longrightarrow> stat q \<noteq> Image w"
  by (cases "stat q" rule: quiet.cases; simp add: fail_step_def fork_step_def)+

lemma meet_opens: "meet_step q r s = Some s' \<Longrightarrow> \<exists>m k. stat q = Live (Open m False k)"
  by (auto simp: meet_step_def split: status.splits prog.splits bool.splits)

lemma two_moves:
  assumes "procs s = [q, r]" "pid q \<noteq> pid r" "quiet (stat q)" "quiet (stat r)" "step tty a s = Some s'"
  obtains (first) c where "stat q = Live c" "go tty q c s = Some s'"
  | (second) c where "stat r = Live c" "go tty r c s = Some s'"
  | (reap) "reap_step q r s = Some s'"
  | (reap2) "reap_step r q s = Some s'"
  | (meet) "meet_step q r s = Some s'"
  | (meet2) "meet_step r q s = Some s'"
proof -
  have own: "reap_step x x s = None" "meet_step x x s = None" for x
    by (simp_all add: reap_step_def meet_step_def Let_def split: status.split prog.split bool.split)
  have "find_process x (procs s) = (if x = pid q then Some q else if x = pid r then Some r else None)" for x
    using assms(1) by (simp add: find_process_def)
  then show thesis
    using assms(3-5) quiet_fails [OF assms(3)] quiet_fails [OF assms(4)] first second reap reap2 meet meet2
    by (cases a) (auto simp: step_def own split: if_splits status.splits)
qed

lemma less_4_6: "i < 4 \<longleftrightarrow> i = 0 \<or> i = 1 \<or> i = 2 \<or> i = (3::nat)"
  "j < 6 \<longleftrightarrow> j = 0 \<or> j = 1 \<or> j = 2 \<or> j = 3 \<or> j = 4 \<or> j = (5::nat)"
  by linarith+

lemmas point_simps = parent_points_def child_points_def with_fds_def proc_def ended_def terminal_fds_def
  pipe_parent_def pipe_child_def

lemma point_pids:
  "j < 6 \<Longrightarrow> pid (child_points buf p c ! j) = c" "j < 6 \<Longrightarrow> ppid (child_points buf p c ! j) = p"
  "i < 4 \<Longrightarrow> pid (parent_points p ! i) = p" "i < 4 \<Longrightarrow> ppid (parent_points p ! i) = 1"
  unfolding less_4_6 by (auto simp: point_simps)

lemma revise_pair:
  "pid q \<noteq> pid r \<Longrightarrow> revise (pid q) st t b [q, r] = [q\<lparr>stat := st, fds := t, outbuf := b\<rparr>, r]"
  "pid q \<noteq> pid r \<Longrightarrow> revise (pid r) st t b [q, r] = [q, r\<lparr>stat := st, fds := t, outbuf := b\<rparr>]"
  by (simp_all add: revise_def)

lemma pipe_parent_moves:
  assumes "i < 4" "j < 6" "i < 2 \<longrightarrow> j < 2" "c \<noteq> p"
    "procs s = [parent_points p ! i, child_points buf p c ! j]"
    "stat (parent_points p ! i) = Live d" "go True (parent_points p ! i) d s = Some s'"
  shows "i < 3 \<and> procs s' = [parent_points p ! Suc i, child_points buf p c ! j] \<and> screen s' = screen s
     \<and> pipes s' 0 = (if i = 1 then pipes s 0 @ greeting else pipes s 0)"
proof -
  have r: "held (Rd 0) (procs s)" if "i = 1"
    using assms(1-3,5) that unfolding less_4_6 by (auto simp: held_def point_simps)
  have k: "c \<in> kids p (procs s)"
    using assms(5) point_pids(1,2) [OF assms(2)] by (simp add: in_kids)
  have pids: "pid (parent_points p ! i) = p" "pid (child_points buf p c ! j) = c"
    using assms(1,2) by (simp_all add: point_pids)
  then have rev: "revise p st t b (procs s) = [(parent_points p ! i)\<lparr>stat := st, fds := t, outbuf := b\<rparr>, child_points buf p c ! j]"
    for st t b
    using assms(4,5) revise_pair(1) [of "parent_points p ! i" "child_points buf p c ! j"] by simp
  from assms(1) show ?thesis
    using assms(6,7) r k rev pids(1) unfolding less_4_6
    by (elim disjE) (auto simp: go_def put_file_def become_def Let_def file_at_def close_fd_def parent_points_def with_fds_def proc_def
        terminal_fds_def pipe_parent_def split: if_splits)
qed

lemma pipe_child_moves:
  assumes "i < 4" "j < 6" "i < 2 \<longrightarrow> j < 2" "c \<noteq> p" "1 < c"
    "procs s = [parent_points p ! i, child_points buf p c ! j]"
    "pipes s 0 = (if 2 \<le> i \<and> j < 2 then greeting else [])"
    "stat (child_points buf p c ! j) = Live d" "go True (child_points buf p c ! j) d s = Some s'"
  shows "j < 5 \<and> (j = 1 \<longrightarrow> 2 \<le> i) \<and> procs s' = [parent_points p ! i, child_points buf p c ! Suc j]
     \<and> pipes s' 0 = (if 2 \<le> i \<and> j < 1 then greeting else [])
     \<and> screen s' = (if j = 2 then screen s @ read_line else screen s)"
proof -
  have w: "held (Wr 0) (procs s)" if "i < 2"
    using assms(1,6) that unfolding less_4_6 by (auto simp: held_def point_simps)
  have pids: "pid (parent_points p ! i) = p" "pid (child_points buf p c ! j) = c" "ppid (parent_points p ! i) = 1"
      "ppid (child_points buf p c ! j) = p"
    using assms(1,2) by (simp_all add: point_pids)
  then have rev: "revise c st t b (procs s) = [parent_points p ! i, (child_points buf p c ! j)\<lparr>stat := st, fds := t, outbuf := b\<rparr>]"
    for st t b
    using assms(4,6) revise_pair(2) [of "parent_points p ! i" "child_points buf p c ! j"] by simp
  have orphan: "orphan c (procs s) = procs s"
    using pids assms(4-6) by (intro orphan_none) (simp add: kids_empty)
  have show_read: "show_read buf 3 (Some greeting) = Printf (\<lambda>self parent. read_line) (Close 3 (Exit 0))"
    by (simp add: show_read_def read_line_def after_read_def greeting_def cstr_append_NUL NUL_def cstr_def)
  have "NL \<in> set read_line" "greeting \<noteq> []" "length greeting = 4" by (simp_all add: read_line_def greeting_def)
  with assms(2) show ?thesis
    using assms(3,7-9) w rev pids(2) orphan show_read unfolding less_4_6
    by (elim disjE) (auto simp: go_def print_def flush_def die_def put_file_def become_def Let_def file_at_def
        close_fd_def child_points_def with_fds_def proc_def ended_def terminal_fds_def pipe_child_def split: if_splits)
qed

lemma points_quiet: "i < 4 \<Longrightarrow> quiet (stat (parent_points p ! i))" "j < 6 \<Longrightarrow> quiet (stat (child_points buf p c ! j))"
  unfolding less_4_6 by (auto simp: point_simps show_read_def)

lemma points_open: "i < 4 \<Longrightarrow> stat (parent_points p ! i) \<noteq> Live (Open m w k)" "j < 6 \<Longrightarrow> stat (child_points buf p c ! j) \<noteq> Live (Open m w k)"
  unfolding less_4_6 by (auto simp: point_simps show_read_def)

lemma pipe_reap:
  assumes "i < 4" "j < 6" "c \<noteq> p" "procs s = [parent_points p ! i, child_points buf p c ! j]"
    "reap_step (parent_points p ! i) (child_points buf p c ! j) s = Some s'"
  shows "i = 3 \<and> j = 5 \<and> procs s' = [with_fds [None, None] (proc p 1 (Live (Exit 0)))] \<and> screen s' = screen s"
  using assms unfolding less_4_6
  by (elim disjE) (auto simp: reap_step_def Let_def become_def revise_def point_simps show_read_def)

lemma first_pipe: "pipe_fds 0 [Some Term_in, Some Term_out, Some Term_out] =
    (3, 4, [Some Term_in, Some Term_out, Some Term_out, Some (Rd 0), Some (Wr 0)])"
  by code_simp

lemma pipe_from_start:
  assumes "procs s = [proc p 1 (Live (pipe_main buf))]" "next_pipe s = 0" "step True a s = Some s'"
  shows "pipes s' = pipes s \<and> screen s' = screen s \<and>
    (procs s' = [proc p 1 (Live (Perror ''pipe'' (Exit 1)))]
     \<or> procs s' = [with_fds [Some (Rd 0), Some (Wr 0)] (proc p 1 (Live (Fork (\<lambda>pid.
           if pid < 0 then Perror ''fork'' (Exit 1)
           else if pid = 0 then pipe_child buf 3 4 else pipe_parent 3 4))))])"
  using assms
  by (cases a) (auto simp: step_simps pipe_main_def first_pipe with_fds_def split: if_splits option.splits)

lemma pipe_from_fork:
  assumes "procs s = [with_fds [Some (Rd 0), Some (Wr 0)] (proc p 1 (Live (Fork (\<lambda>pid.
           if pid < 0 then Perror ''fork'' (Exit 1)
           else if pid = 0 then pipe_child buf 3 4 else pipe_parent 3 4))))]" "1 < p" "step True a s = Some s'"
  shows "pipes s' = pipes s \<and> screen s' = screen s \<and>
    (procs s' = [with_fds [Some (Rd 0), Some (Wr 0)] (proc p 1 (Live (Perror ''fork'' (Exit 1))))]
     \<or> (\<exists>c. 1 < c \<and> c \<noteq> p \<and> procs s' = [parent_points p ! 0, child_points buf p c ! 0]))"
  using assms
  by (cases a) (auto simp: step_simps with_fds_def parent_points_def child_points_def split: if_splits option.splits)

lemma pipe_from_failed:
  assumes "procs s = [q]" "pid q = p" "outbuf q = []"
     "stat q \<in> {Live (Perror ''pipe'' (Exit 1)), Live (Perror ''fork'' (Exit 1)), Live (Exit 1), Zombie (Exited 1)}"
     "step True a s = Some s'"
  shows "screen s' = screen s \<and> (\<exists>q'. procs s' = [q'] \<and> pid q' = p \<and> outbuf q' = [] \<and> stat q' \<in> {Live (Exit 1), Zombie (Exited 1)})"
  using assms
  by (cases a) (auto simp: step_simps split: if_splits option.splits open_file.splits)

lemma pipe_from_over:
  assumes "procs s \<in> {[with_fds [None, None] (proc p 1 (Live (Exit 0)))], [ended p 1 (Exited 0)]}" "1 < p"
    "step True a s = Some s'"
  shows "screen s' = screen s \<and> procs s' = [ended p 1 (Exited 0)]"
  using assms
  by (cases a) (auto simp: step_simps with_fds_def split: if_splits option.splits)

lemma pipe_kept:
  assumes "pipe_states buf p s" "1 < p" "step True a s = Some s'"
  shows "pipe_states buf p s'"
  using assms
proof (induction rule: pipe_states.induct)
  case (at_start s)
  from pipe_from_start [OF at_start(1,2,6)] at_start(3,4) show ?case
    by (auto intro: pipe_states.with_pipe pipe_states.failed [of _ "proc p 1 (Live (Perror ''pipe'' (Exit 1)))"] simp: proc_def)
next
  case (with_pipe s)
  from pipe_from_fork [OF with_pipe(1,4,5)] with_pipe(2,3) show ?case
    by (auto intro: pipe_states.both [of _ p 0 0]
        pipe_states.failed [of _ "with_fds [Some (Rd 0), Some (Wr 0)] (proc p 1 (Live (Perror ''fork'' (Exit 1))))"]
        simp: proc_def with_fds_def)
next
  case (failed s q)
  from pipe_from_failed [OF failed(1-4,7)] failed(5) show ?case
    by (auto intro: pipe_states.failed)
next
  case (both c i j s)
  let ?q = "parent_points p ! i" and ?r = "child_points buf p c ! j"
  have quiet: "quiet (stat ?q)" "quiet (stat ?r)" "pid ?q \<noteq> pid ?r"
    using both by (simp_all add: points_quiet point_pids)
  have none: "reap_step ?r ?q s = None"
  proof -
    have "ppid ?q \<noteq> pid ?r" using both(1,3,4) by (simp add: point_pids)
    then show ?thesis by (simp add: reap_step_def Let_def split: status.split)
  qed
  show ?case
    using both(6) quiet(3,1,2) both.prems(2)
  proof (cases rule: two_moves)
    case (first d)
    from pipe_parent_moves [OF both(3-5,2,6) this] both show ?thesis
      by (intro pipe_states.both [of c p "Suc i" j]) auto
  next
    case (second d)
    from pipe_child_moves [OF both(3-5,2,1,6,7) this] both show ?thesis
      by (intro pipe_states.both [of c p i "Suc j"]) auto
  next
    case reap
    from pipe_reap [OF both(3,4,2,6) this] both(8) show ?thesis
      by (intro pipe_states.over) auto
  next
    case meet
    with both(3) show ?thesis using meet_opens points_open(1) by blast
  next
    case meet2
    with both(4) show ?thesis using meet_opens points_open(2) by blast
  qed (use none in simp)
next
  case (over s)
  from pipe_from_over [OF over(1,3,4)] over(2) show ?case
    by (intro pipe_states.over) auto
qed

text \<open>
  Property C26. In every order of the two processes of \<open>pipe.c\<close>, all the terminal ever shows is that the child has read
  the parent's message, and it has been shown when the parent ends without an error; a write into a pipe
  nobody reads, or a read that finds the pipe's end, does not happen.
\<close>

theorem pipe_delivers_message:
  assumes "reach (step True) (boot p (pipe_main buf)) s" "1 < p"
  shows "screen s \<in> {[], ''Child read: Hi!'' @ [NL]} \<and>
    (ended_with p (Exited 0) s \<longrightarrow> screen s = ''Child read: Hi!'' @ [NL])"
proof -
  have "pipe_states buf p s"
    using assms(1)
  proof induction
    case start
    show ?case by (rule pipe_states.at_start) (simp_all add: boot_def proc_def)
  next
    case (next_step s a s')
    then show ?case using pipe_kept assms(2) by blast
  qed
  then show ?thesis
    unfolding read_line_def [symmetric] ended_with_iff
  proof cases
    case (both c i j)
    then have "stat (parent_points p ! i) \<noteq> Zombie (Exited 0)" unfolding less_4_6 by (auto simp: point_simps)
    with both show "screen s \<in> {[], read_line} \<and>
        ((\<exists>q. find_process p (procs s) = Some q \<and> stat q = Zombie (Exited 0)) \<longrightarrow> screen s = read_line)"
      by (auto simp: find_process_def point_pids)
  qed (auto simp: find_process_def proc_def with_fds_def)
qed

theorem pipe_delivers_message_witness:
  "\<exists>s. reach (step True) (boot 2 (pipe_main (replicate 64 CHR ''x''))) s \<and> ended_with 2 (Exited 0) s
     \<and> screen s = ''Child read: Hi!'' @ [NL]"
proof -
  have "case run_steps (step True) [Go 2, Born 2 3, Go 3, Go 2, Go 2, Go 3, Go 2, Go 3, Go 3, Go 3, Reap 2 3, Go 2]
      (boot 2 (pipe_main (replicate 64 CHR ''x''))) of None \<Rightarrow> False | Some s \<Rightarrow> ended_with 2 (Exited 0) s"
    by code_simp
  then obtain s where s: "reach (step True) (boot 2 (pipe_main (replicate 64 CHR ''x''))) s" "ended_with 2 (Exited 0) s"
    by (rule run_finds)
  with pipe_delivers_message [OF s(1)] show ?thesis by auto
qed

section \<open>A fifo\<close>

text \<open>
  The two sides of the fifo exercise; \<open>perror\<close> after a failed \<open>mkfifo\<close> does not end the server, which
  then uses the fifo that is there.
\<close>

definition fifo_server :: prog where
  "fifo_server =
     Mkfifo ''myfifo'' (\<lambda>made.
       (let rest = Open ''myfifo'' True (\<lambda>fd. case fd of
              None \<Rightarrow> Perror ''open'' (Exit 1)
            | Some fd \<Rightarrow> Write fd greeting (Close fd (Exit 0)))
        in if made then rest else Perror ''mkfifo'' rest))"

definition fifo_client :: "string \<Rightarrow> prog" where
  "fifo_client buf =
     Open ''myfifo'' False (\<lambda>fd. case fd of
       None \<Rightarrow> Perror ''open'' (Exit 1)
     | Some fd \<Rightarrow> Read fd 64 (\<lambda>res.
         Printf (\<lambda>self parent. ''Client read: '' @ cstr (after_read buf res) @ [NL])
           (Close fd (Unlink ''myfifo'' (Exit 0)))))"

text \<open>The server and a client, on a system where the fifo may be left over from before.\<close>

definition fifo_boot :: "bool \<Rightarrow> string \<Rightarrow> int \<Rightarrow> int \<Rightarrow> unix" where
  "fifo_boot left_over buf p c =
     \<lparr>procs = [proc p 1 (Live fifo_server), proc c 1 (Live (fifo_client buf))],
      pipes = (\<lambda>i. []), next_pipe = (if left_over then 1 else 0),
      fifos = (if left_over then [(''myfifo'', 0)] else []), screen = [], errors = []\<rparr>"

definition server_rest :: prog where
  "server_rest = Open ''myfifo'' True (\<lambda>fd. case fd of
     None \<Rightarrow> Perror ''open'' (Exit 1) | Some fd \<Rightarrow> Write fd greeting (Close fd (Exit 0)))"

definition show_fifo :: "string \<Rightarrow> nat \<Rightarrow> string option \<Rightarrow> prog" where
  "show_fifo buf fd res =
     Printf (\<lambda>self parent. ''Client read: '' @ cstr (after_read buf res) @ [NL])
       (Close fd (Unlink ''myfifo'' (Exit 0)))"

definition server_points :: "int \<Rightarrow> process list" where
  "server_points p =
     [with_fds [Some (Wr 0)] (proc p 1 (Live (Write 3 greeting (Close 3 (Exit 0))))),
      with_fds [Some (Wr 0)] (proc p 1 (Live (Close 3 (Exit 0)))),
      with_fds [None] (proc p 1 (Live (Exit 0))),
      ended p 1 (Exited 0)]"

definition client_points :: "string \<Rightarrow> int \<Rightarrow> process list" where
  "client_points buf c =
     [with_fds [Some (Rd 0)] (proc c 1 (Live (Read 3 64 (show_fifo buf 3)))),
      with_fds [Some (Rd 0)] (proc c 1 (Live (show_fifo buf 3 (Some greeting)))),
      with_fds [Some (Rd 0)] (proc c 1 (Live (Close 3 (Unlink ''myfifo'' (Exit 0))))),
      with_fds [None] (proc c 1 (Live (Unlink ''myfifo'' (Exit 0)))),
      with_fds [None] (proc c 1 (Live (Exit 0))),
      ended c 1 (Exited 0)]"

definition fifo_line :: string where "fifo_line = ''Client read: Hi!'' @ [NL]"

text \<open>Before the two have met the client may have found no fifo; then the server waits for another one.\<close>

inductive fifo_states :: "string \<Rightarrow> int \<Rightarrow> int \<Rightarrow> unix \<Rightarrow> bool" for buf p c where
  apart: "st \<in> {fifo_server, Perror ''mkfifo'' server_rest, server_rest} \<Longrightarrow>
     r \<in> {proc c 1 (Live (fifo_client buf)), proc c 1 (Live (Perror ''open'' (Exit 1))), proc c 1 (Live (Exit 1)),
          ended c 1 (Exited 1)} \<Longrightarrow>
     procs s = [proc p 1 (Live st), r] \<Longrightarrow>
     fifos s = [(''myfifo'', 0)] \<or> st = fifo_server \<and> fifos s = [] \<and> next_pipe s = 0 \<Longrightarrow>
     pipes s 0 = [] \<Longrightarrow> screen s = [] \<Longrightarrow> fifo_states buf p c s"
| met: "i < 4 \<Longrightarrow> j < 6 \<Longrightarrow> i < 1 \<longrightarrow> j < 1 \<Longrightarrow>
     procs s = [server_points p ! i, client_points buf c ! j] \<Longrightarrow>
     pipes s 0 = (if 1 \<le> i \<and> j < 1 then greeting else []) \<Longrightarrow>
     screen s = (if 2 \<le> j then fifo_line else []) \<Longrightarrow> fifo_states buf p c s"

lemma server_apart_moves:
  assumes "st \<in> {fifo_server, Perror ''mkfifo'' server_rest, server_rest}" "go True (proc p 1 (Live st)) st s = Some s'"
    "fifos s = [(''myfifo'', 0)] \<or> st = fifo_server \<and> fifos s = [] \<and> next_pipe s = 0" "\<not> held (Rd 0) (procs s)"
  shows "\<exists>st' \<in> {Perror ''mkfifo'' server_rest, server_rest}.
    procs s' = revise p (Live st') terminal_fds [] (procs s) \<and> fifos s' = [(''myfifo'', 0)] \<and> pipes s' = pipes s \<and> screen s' = screen s"
  using assms by (auto simp: fifo_server_def server_rest_def go_def become_def proc_def Let_def)

lemma client_apart_moves:
  assumes "r \<in> {proc c 1 (Live (fifo_client buf)), proc c 1 (Live (Perror ''open'' (Exit 1))), proc c 1 (Live (Exit 1)),
        ended c 1 (Exited 1)}" "stat r = Live d" "go True r d s = Some s'" "\<not> held (Wr 0) (procs s)"
    "fifos s = [(''myfifo'', 0)] \<or> fifos s = []" "kids c (procs s) = {}"
  shows "fifos s' = fifos s \<and> next_pipe s' = next_pipe s \<and> pipes s' = pipes s \<and> screen s' = screen s \<and>
    (\<exists>r' \<in> {proc c 1 (Live (Perror ''open'' (Exit 1))), proc c 1 (Live (Exit 1)), ended c 1 (Exited 1)}.
       procs s' = revise c (stat r') (fds r') [] (procs s))"
proof -
  have opens: "s' = become c (Live (Perror ''open'' (Exit 1))) terminal_fds [] s" if "r = proc c 1 (Live (fifo_client buf))"
    using that assms(2-5) by (auto simp: fifo_client_def go_def proc_def)
  have tells: "s' = become c (Live (Exit 1)) terminal_fds [] (s\<lparr>errors := errors s @ [(c, ''open'')]\<rparr>)"
    if "r = proc c 1 (Live (Perror ''open'' (Exit 1)))"
    using that assms(2,3) by (auto simp: go_def proc_def Let_def)
  have exits: "s' = die c (Exited 1) s" if "r = proc c 1 (Live (Exit 1))"
    using that assms(2,3) by (auto simp: go_def proc_def Let_def flush_def put_file_def file_at_def terminal_fds_def)
  have "r \<noteq> ended c 1 (Exited 1)" using assms(2) by (auto simp: ended_def)
  with assms(1,6) opens tells exits show ?thesis
    by (auto simp: become_def die_def orphan_none proc_def ended_def)
qed

lemma fifo_meet:
  assumes "st \<in> {fifo_server, Perror ''mkfifo'' server_rest, server_rest}"
    "r \<in> {proc c 1 (Live (fifo_client buf)), proc c 1 (Live (Perror ''open'' (Exit 1))), proc c 1 (Live (Exit 1)),
        ended c 1 (Exited 1)}" "procs s = [proc p 1 (Live st), r]" "p \<noteq> c"
    "fifos s = [(''myfifo'', 0)] \<or> fifos s = []" "meet_step r (proc p 1 (Live st)) s = Some s'"
  shows "procs s' = [server_points p ! 0, client_points buf c ! 0] \<and> pipes s' = pipes s \<and> screen s' = screen s"
proof -
  have free: "lowest_free terminal_fds = 3" "put_fd 3 f terminal_fds = terminal_fds @ [f]" for f
    by (simp_all add: terminal_fds_def put_fd_def)
  have "stat r = Live (fifo_client buf)" "st = server_rest"
    using assms(1,2) meet_opens [OF assms(6)] assms(6)
    by (auto simp: proc_def ended_def meet_step_def fifo_server_def fifo_client_def)
  moreover from this have "r = proc c 1 (Live (fifo_client buf))"
    using assms(2) by (auto simp: proc_def ended_def fifo_client_def)
  ultimately show ?thesis
    using assms(3-6)
    by (auto simp: meet_step_def fifo_client_def server_rest_def become_def revise_def proc_def free server_points_def
        client_points_def with_fds_def show_fifo_def fun_eq_iff)
qed

lemmas fifo_points = server_points_def client_points_def with_fds_def proc_def ended_def terminal_fds_def

lemma fifo_point_pids:
  "j < 6 \<Longrightarrow> pid (client_points buf c ! j) = c" "j < 6 \<Longrightarrow> ppid (client_points buf c ! j) = 1"
  "i < 4 \<Longrightarrow> pid (server_points p ! i) = p" "i < 4 \<Longrightarrow> ppid (server_points p ! i) = 1"
  unfolding less_4_6 by (auto simp: fifo_points)

lemma fifo_points_quiet:
  "i < 4 \<Longrightarrow> quiet (stat (server_points p ! i)) \<and> stat (server_points p ! i) \<noteq> Live (Open m w k)"
  "j < 6 \<Longrightarrow> quiet (stat (client_points buf c ! j)) \<and> stat (client_points buf c ! j) \<noteq> Live (Open m w k)"
  unfolding less_4_6 by (auto simp: fifo_points show_fifo_def)

lemma fifo_server_moves:
  assumes "i < 4" "j < 6" "i < 1 \<longrightarrow> j < 1" "c \<noteq> p" "1 < p"
    "procs s = [server_points p ! i, client_points buf c ! j]"
    "stat (server_points p ! i) = Live d" "go True (server_points p ! i) d s = Some s'"
  shows "i < 3 \<and> procs s' = [server_points p ! Suc i, client_points buf c ! j] \<and> screen s' = screen s
     \<and> pipes s' 0 = (if i = 0 then pipes s 0 @ greeting else pipes s 0)"
proof -
  have r: "held (Rd 0) (procs s)" if "i = 0"
    using assms(2,3,6) that unfolding less_4_6 by (auto simp: held_def fifo_points)
  have pids: "pid (server_points p ! i) = p" "pid (client_points buf c ! j) = c"
      "ppid (server_points p ! i) = 1" "ppid (client_points buf c ! j) = 1"
    using assms(1,2) by (simp_all add: fifo_point_pids)
  then have rev: "revise p st t b (procs s) = [(server_points p ! i)\<lparr>stat := st, fds := t, outbuf := b\<rparr>, client_points buf c ! j]"
    for st t b
    using assms(4,6) revise_pair(1) [of "server_points p ! i" "client_points buf c ! j"] by simp
  have orphan: "orphan p (procs s) = procs s"
    using pids assms(5,6) by (intro orphan_none) (simp add: kids_empty)
  from assms(1) show ?thesis
    using assms(7,8) r rev pids(1) orphan unfolding less_4_6
    by (elim disjE) (auto simp: go_def put_file_def flush_def die_def become_def Let_def file_at_def close_fd_def
        server_points_def with_fds_def proc_def ended_def terminal_fds_def split: if_splits)
qed

lemma fifo_client_moves:
  assumes "i < 4" "j < 6" "i < 1 \<longrightarrow> j < 1" "c \<noteq> p" "1 < c"
    "procs s = [server_points p ! i, client_points buf c ! j]"
    "pipes s 0 = (if 1 \<le> i \<and> j < 1 then greeting else [])"
    "stat (client_points buf c ! j) = Live d" "go True (client_points buf c ! j) d s = Some s'"
  shows "j < 5 \<and> (j = 0 \<longrightarrow> 1 \<le> i) \<and> procs s' = [server_points p ! i, client_points buf c ! Suc j]
     \<and> pipes s' 0 = [] \<and> screen s' = (if j = 1 then screen s @ fifo_line else screen s)"
proof -
  have w: "held (Wr 0) (procs s)" if "i < 1"
    using assms(6) that by (auto simp: held_def fifo_points)
  have pids: "pid (server_points p ! i) = p" "pid (client_points buf c ! j) = c"
      "ppid (server_points p ! i) = 1" "ppid (client_points buf c ! j) = 1"
    using assms(1,2) by (simp_all add: fifo_point_pids)
  then have rev: "revise c st t b (procs s) = [server_points p ! i, (client_points buf c ! j)\<lparr>stat := st, fds := t, outbuf := b\<rparr>]"
    for st t b
    using assms(4,6) revise_pair(2) [of "server_points p ! i" "client_points buf c ! j"] by simp
  have orphan: "orphan c (procs s) = procs s"
    using pids assms(5,6) by (intro orphan_none) (simp add: kids_empty)
  have show_fifo: "show_fifo buf 3 (Some greeting) =
      Printf (\<lambda>self parent. fifo_line) (Close 3 (Unlink ''myfifo'' (Exit 0)))"
    by (simp add: show_fifo_def fifo_line_def after_read_def greeting_def cstr_append_NUL NUL_def cstr_def)
  have "NL \<in> set fifo_line" "greeting \<noteq> []" "length greeting = 4" by (simp_all add: fifo_line_def greeting_def)
  with assms(2) show ?thesis
    using assms(3,7-9) w rev pids(2) orphan show_fifo unfolding less_4_6
    by (elim disjE) (auto simp: go_def print_def flush_def die_def put_file_def become_def Let_def file_at_def
        close_fd_def client_points_def with_fds_def proc_def ended_def terminal_fds_def split: if_splits)
qed

lemma not_own_child: "ppid z \<noteq> pid q \<Longrightarrow> reap_step q z s = None"
  by (simp add: reap_step_def Let_def split: status.split)

lemma revise_proc:
  "p \<noteq> c \<Longrightarrow> pid r = c \<Longrightarrow> revise p st' terminal_fds [] [proc p 1 st, r] = [proc p 1 st', r]"
  "p \<noteq> c \<Longrightarrow> pid r = c \<Longrightarrow> ppid r = 1 \<Longrightarrow> pid r' = c \<Longrightarrow> ppid r' = 1 \<Longrightarrow> outbuf r' = [] \<Longrightarrow>
     revise c (stat r') (fds r') [] [proc p 1 st, r] = [proc p 1 st, r']"
  by (auto simp: revise_def proc_def)

lemma fifo_apart_kept:
  assumes st: "st \<in> {fifo_server, Perror ''mkfifo'' server_rest, server_rest}"
    and r: "r \<in> {proc c 1 (Live (fifo_client buf)), proc c 1 (Live (Perror ''open'' (Exit 1))), proc c 1 (Live (Exit 1)),
          ended c 1 (Exited 1)}"
    and s: "procs s = [proc p 1 (Live st), r]"
      "fifos s = [(''myfifo'', 0)] \<or> st = fifo_server \<and> fifos s = [] \<and> next_pipe s = 0"
    and pc: "p \<noteq> c" "1 < p" "1 < c" and empty: "pipes s 0 = []" "screen s = []" and move: "step True a s = Some s'"
  shows "fifo_states buf p c s'"
proof -
  have quiet: "quiet (stat (proc p 1 (Live st)))" "quiet (stat r)" "pid (proc p 1 (Live st)) \<noteq> pid r"
    "ppid r = 1" "pid r = c" "outbuf r = []"
    using st r pc(1) by (auto simp: proc_def ended_def fifo_server_def server_rest_def fifo_client_def)
  have none: "reap_step (proc p 1 (Live st)) r s = None" "reap_step r (proc p 1 (Live st)) s = None"
    using quiet pc by (simp_all add: not_own_child proc_def)
  have "Some (Rd 0) \<notin> set (fds r)" "Some (Wr 0) \<notin> set (fds r)"
    using r by (auto simp: proc_def ended_def terminal_fds_def)
  then have unheld: "\<not> held (Rd 0) (procs s)" "\<not> held (Wr 0) (procs s)" "kids c (procs s) = {}"
    using quiet(4) s(1) pc by (auto simp: held_def proc_def terminal_fds_def kids_empty)
  show ?thesis
    using s(1) quiet(3,1,2) move
  proof (cases rule: two_moves)
    case (first d)
    then have "go True (proc p 1 (Live st)) st s = Some s'" by (simp add: proc_def)
    from server_apart_moves [OF st this s(2) unheld(1)] r empty show ?thesis
      using revise_proc(1) [OF pc(1) quiet(5)] unfolding s(1)
      by (elim bexE conjE) (rule fifo_states.apart [of _ r]; auto)
  next
    case (second d)
    have "fifos s = [(''myfifo'', 0)] \<or> fifos s = []" using s(2) by blast
    from client_apart_moves [OF r second unheld(2) this unheld(3)]
    obtain r' where r': "r' \<in> {proc c 1 (Live (Perror ''open'' (Exit 1))), proc c 1 (Live (Exit 1)), ended c 1 (Exited 1)}"
      and s': "procs s' = revise c (stat r') (fds r') [] (procs s)" "fifos s' = fifos s" "next_pipe s' = next_pipe s"
        "pipes s' = pipes s" "screen s' = screen s" by blast
    have "pid r' = c" "ppid r' = 1" "outbuf r' = []" using r' by (auto simp: proc_def ended_def)
    with s'(1) have "procs s' = [proc p 1 (Live st), r']"
      using revise_proc(2) [OF pc(1) quiet(5,4)] s(1) by simp
    with st r' s(2) s'(2-5) empty show ?thesis by (intro fifo_states.apart [of st r']) auto
  next
    case meet
    then show ?thesis using meet_opens st by (fastforce simp: proc_def fifo_server_def server_rest_def)
  next
    case meet2
    have "fifos s = [(''myfifo'', 0)] \<or> fifos s = []" using s(2) by blast
    from fifo_meet [OF st r s(1) pc(1) this meet2] empty show ?thesis
      by (intro fifo_states.met [of 0 0]) auto
  qed (use none in simp_all)
qed

lemma fifo_kept:
  assumes "fifo_states buf p c s" "p \<noteq> c" "1 < p" "1 < c" "step True a s = Some s'"
  shows "fifo_states buf p c s'"
  using assms
proof (induction rule: fifo_states.induct)
  case (apart st r s)
  then show ?case by (blast intro: fifo_apart_kept)
next
  case (met i j s)
  let ?q = "server_points p ! i" and ?r = "client_points buf c ! j"
  have quiet: "quiet (stat ?q)" "quiet (stat ?r)" "pid ?q \<noteq> pid ?r"
    using met fifo_points_quiet by (auto simp: fifo_point_pids)
  have none: "reap_step ?q ?r s = None" "reap_step ?r ?q s = None"
    using met by (simp_all add: not_own_child fifo_point_pids)
  have cp: "c \<noteq> p" using met by simp
  show ?case
    using met(4) quiet(3,1,2) met.prems(4)
  proof (cases rule: two_moves)
    case (first d)
    from fifo_server_moves [OF met(1-3) cp met(8) met(4) this] met show ?thesis
      by (intro fifo_states.met [of "Suc i" j]) auto
  next
    case (second d)
    from fifo_client_moves [OF met(1-3) cp met(9) met(4,5) this] met show ?thesis
      by (intro fifo_states.met [of i "Suc j"]) auto
  next
    case meet
    with met(1) show ?thesis using meet_opens fifo_points_quiet(1) by blast
  next
    case meet2
    with met(2) show ?thesis using meet_opens fifo_points_quiet(2) by blast
  qed (use none in simp_all)
qed

text \<open>
  The server and the client of the fifo exercise, started in either order, with or without a fifo left
  over: the client shows nothing but the server's whole message, and has shown it when it ends
  without an error.
\<close>

lemma fifo_delivers_message:
  assumes "reach (step True) (fifo_boot left_over buf p c) s" "1 < p" "1 < c" "p \<noteq> c"
  shows "screen s \<in> {[], ''Client read: Hi!'' @ [NL]} \<and>
    (ended_with c (Exited 0) s \<longrightarrow> screen s = ''Client read: Hi!'' @ [NL])"
proof -
  have "fifo_states buf p c s"
    using assms(1)
  proof induction
    case start
    show ?case
      by (rule fifo_states.apart [of fifo_server "proc c 1 (Live (fifo_client buf))"]) (simp_all add: fifo_boot_def)
  next
    case (next_step s a s')
    then show ?case using fifo_kept assms(2-4) by blast
  qed
  then show ?thesis
    unfolding fifo_line_def [symmetric] ended_with_iff
  proof cases
    case (apart st r)
    then have "pid r = c" "stat r \<noteq> Zombie (Exited 0)" by (auto simp: proc_def ended_def)
    then have "\<nexists>q. find_process c (procs s) = Some q \<and> stat q = Zombie (Exited 0)"
      using apart(3) by (simp add: find_process_def proc_def)
    with apart(6) show "screen s \<in> {[], fifo_line} \<and>
        ((\<exists>q. find_process c (procs s) = Some q \<and> stat q = Zombie (Exited 0)) \<longrightarrow> screen s = fifo_line)"
      by blast
  next
    case (met i j)
    then have "find_process c (procs s) = Some (client_points buf c ! j)"
      using assms(4) by (simp add: find_process_def fifo_point_pids)
    moreover have "j < 2 \<longrightarrow> stat (client_points buf c ! j) \<noteq> Zombie (Exited 0)"
      by (auto simp: less_2_cases_iff fifo_points show_fifo_def)
    ultimately show "screen s \<in> {[], fifo_line} \<and>
        ((\<exists>q. find_process c (procs s) = Some q \<and> stat q = Zombie (Exited 0)) \<longrightarrow> screen s = fifo_line)"
      using met by auto
  qed
qed

lemma fifo_delivers_message_witness:
  "\<exists>s. reach (step True) (fifo_boot False (replicate 64 CHR ''x'') 2 3) s \<and> ended_with 3 (Exited 0) s
     \<and> screen s = ''Client read: Hi!'' @ [NL]"
proof -
  have "case run_steps (step True) [Go 2, Meet 3 2, Go 2, Go 3, Go 2, Go 2, Go 3, Go 3, Go 3, Go 3]
      (fifo_boot False (replicate 64 CHR ''x'') 2 3) of None \<Rightarrow> False | Some s \<Rightarrow> ended_with 3 (Exited 0) s"
    by code_simp
  then obtain s where s: "reach (step True) (fifo_boot False (replicate 64 CHR ''x'') 2 3) s" "ended_with 3 (Exited 0) s"
    by (rule run_finds)
  with fifo_delivers_message [OF s(1)] show ?thesis by auto
qed

end
