(* ===== verification/Signals.thy ===== *)
theory Signals
  imports C_Prelude Transition
begin

text \<open>
  The signal exercises: \<open>block_sigint.c\<close>, \<open>sigusr1_handler.c\<close> and \<open>sigwait_loop.c\<close> are processes that
  receive, \<open>sender.c\<close> sends. A process has a set of pending signals (of one signal at most one can be pending),
  a set of blocked ones and a set of caught ones; others may post signals at any time, and a pending
  signal that is not blocked is delivered at any time: to the handler, or it ends the process.
\<close>

definition SIGINT :: nat where "SIGINT = 2"
definition SIGKILL :: nat where "SIGKILL = 9"
definition SIGUSR1 :: nat where "SIGUSR1 = 10"

text \<open>
  The points of a program: in front of its system call, of its announcement, in its loop, ended with a
  status. What it writes: its pid and its state, the handler's line, the lines around \<open>sigwait\<close>.
\<close>

datatype phase = Start | Announce | Loop | Ended nat

datatype sig_out = Perror_line string | Pid_line | Waiting_line | Caught nat | Sigwait_got nat | Sigwait_error

record sig_state =
  phase :: phase
  pending :: "nat set"
  blocked :: "nat set"
  caught :: "nat set"
  killed :: "nat option"
  written :: "sig_out list"

definition fresh_process :: sig_state where
  "fresh_process = \<lparr>phase = Start, pending = {}, blocked = {}, caught = {}, killed = None, written = []\<rparr>"

section \<open>The programs\<close>

text \<open>One step of a program; the argument says whether its system call succeeds.\<close>

definition block_sigint_step :: "bool \<Rightarrow> sig_state \<Rightarrow> sig_state option" where
  "block_sigint_step ok s =
     (case phase s of
        Start \<Rightarrow>
          if ok then Some (s\<lparr>phase := Announce, blocked := insert SIGINT (blocked s)\<rparr>)
          else Some (s\<lparr>phase := Ended 1, written := written s @ [Perror_line ''sigprocmask'']\<rparr>)
      | Announce \<Rightarrow> Some (s\<lparr>phase := Loop, written := written s @ [Pid_line, Waiting_line]\<rparr>)
      | Loop \<Rightarrow> Some s
      | Ended n \<Rightarrow> None)"

definition sigusr1_handler_step :: "bool \<Rightarrow> sig_state \<Rightarrow> sig_state option" where
  "sigusr1_handler_step ok s =
     (case phase s of
        Start \<Rightarrow>
          if ok then Some (s\<lparr>phase := Announce, caught := insert SIGUSR1 (caught s)\<rparr>)
          else Some (s\<lparr>phase := Ended 1, written := written s @ [Perror_line ''sigaction'']\<rparr>)
      | Announce \<Rightarrow> Some (s\<lparr>phase := Loop, written := written s @ [Pid_line, Waiting_line]\<rparr>)
      | Loop \<Rightarrow> Some s
      | Ended n \<Rightarrow> None)"

definition sigwait_loop_step :: "bool \<Rightarrow> sig_state \<Rightarrow> sig_state option" where
  "sigwait_loop_step ok s =
     (case phase s of
        Start \<Rightarrow>
          if ok then Some (s\<lparr>phase := Announce, blocked := insert SIGUSR1 (blocked s)\<rparr>)
          else Some (s\<lparr>phase := Ended 1, written := written s @ [Perror_line ''sigprocmask'']\<rparr>)
      | Announce \<Rightarrow> Some (s\<lparr>phase := Loop, written := written s @ [Pid_line, Waiting_line]\<rparr>)
      | Loop \<Rightarrow>
          if \<not> ok then Some (s\<lparr>phase := Ended 0, written := written s @ [Sigwait_error]\<rparr>)
          else if SIGUSR1 \<in> pending s then
            Some (s\<lparr>pending := pending s - {SIGUSR1}, written := written s @ [Sigwait_got SIGUSR1]\<rparr>)
          else None
      | Ended n \<Rightarrow> None)"

text \<open>\<open>sigusr1_handler(signo)\<close>.\<close>

definition handler_line :: "nat \<Rightarrow> sig_out list" where "handler_line signo = [Caught signo]"

text \<open>The system: the program goes on, somebody posts a signal, a pending signal is delivered.\<close>

datatype sig_action = Program bool | Post nat | Deliver nat

definition running :: "sig_state \<Rightarrow> bool" where
  "running s = (killed s = None \<and> (case phase s of Ended n \<Rightarrow> False | _ \<Rightarrow> True))"

definition signal_step ::
  "(bool \<Rightarrow> sig_state \<Rightarrow> sig_state option) \<Rightarrow> sig_action \<Rightarrow> sig_state \<Rightarrow> sig_state option" where
  "signal_step program a s =
     (if \<not> running s then None
      else
        (case a of
           Program ok \<Rightarrow> program ok s
         | Post n \<Rightarrow> Some (s\<lparr>pending := insert n (pending s)\<rparr>)
         | Deliver n \<Rightarrow>
             if n \<in> pending s \<and> (n \<notin> blocked s \<or> n = SIGKILL) then
               Some (if n \<in> caught s \<and> n \<noteq> SIGKILL
                     then s\<lparr>pending := pending s - {n}, written := written s @ handler_line n\<rparr>
                     else s\<lparr>pending := pending s - {n}, killed := Some n\<rparr>)
             else None))"

section \<open>After the announcement\<close>

text \<open>
  A program that has announced itself has done what it says: \<open>sig\<close> is blocked, or caught. Before that the
  signal ends it.
\<close>

definition guarded :: "nat \<Rightarrow> sig_state \<Rightarrow> bool" where
  "guarded n s =
     ((phase s = Announce \<or> phase s = Loop \<longrightarrow> n \<in> blocked s \<or> n \<in> caught s)
      \<and> (killed s = Some n \<longrightarrow> phase s = Start)
      \<and> (phase s = Start \<longrightarrow> written s = [] \<and> caught s = {}))"

lemmas signal_simps = signal_step_def block_sigint_step_def sigusr1_handler_step_def sigwait_loop_step_def
  running_def guarded_def handler_line_def

interpretation block_sigint: kept_invariant "signal_step block_sigint_step" "guarded SIGINT"
  by unfold_locales (auto simp: signal_simps SIGINT_def SIGKILL_def split: if_splits phase.splits sig_action.splits)

interpretation sigusr1_handler: kept_invariant "signal_step sigusr1_handler_step" "guarded SIGUSR1"
  by unfold_locales (auto simp: signal_simps SIGUSR1_def SIGKILL_def split: if_splits phase.splits sig_action.splits)

interpretation sigwait_loop: kept_invariant "signal_step sigwait_loop_step" "guarded SIGUSR1"
  by unfold_locales (auto simp: signal_simps SIGUSR1_def SIGKILL_def split: if_splits phase.splits sig_action.splits)

lemma guarded_fresh: "guarded n fresh_process"
  by (simp add: guarded_def fresh_process_def)

text \<open>
  Property C35. Once a receiver has printed its pid, the signal it is about does not end it: SIGINT does not end
  \<open>block_sigint.c\<close>, SIGUSR1 neither \<open>sigusr1_handler.c\<close> nor \<open>sigwait_loop.c\<close>.
\<close>

theorem announced_receivers_survive:
  assumes "(program, n) \<in> {(block_sigint_step, SIGINT), (sigusr1_handler_step, SIGUSR1), (sigwait_loop_step, SIGUSR1)}"
    "reach (signal_step program) fresh_process s" "Pid_line \<in> set (written s)"
  shows "killed s \<noteq> Some n"
proof -
  have "guarded n s"
    using assms(1,2) block_sigint.reach_keeps [OF _ guarded_fresh] sigusr1_handler.reach_keeps [OF _ guarded_fresh]
      sigwait_loop.reach_keeps [OF _ guarded_fresh] by auto
  with assms(3) show ?thesis by (auto simp: guarded_def)
qed

theorem announced_receivers_survive_witness:
  "\<exists>s. reach (signal_step block_sigint_step) fresh_process s \<and> SIGINT \<in> pending s \<and> killed s \<noteq> Some SIGINT"
proof -
  have "case run_steps (signal_step block_sigint_step) [Program True, Program True, Post SIGINT] fresh_process of
      None \<Rightarrow> False | Some s \<Rightarrow> Pid_line \<in> set (written s) \<and> SIGINT \<in> pending s"
    by code_simp
  then obtain s where s: "reach (signal_step block_sigint_step) fresh_process s"
    and "Pid_line \<in> set (written s) \<and> SIGINT \<in> pending s" by (rule run_finds)
  with announced_receivers_survive [OF _ s, of SIGINT] show ?thesis by auto
qed

section \<open>Signals are not queued\<close>

text \<open>The lines a signal has caused, and the one it may still cause.\<close>

definition lines_for :: "nat \<Rightarrow> sig_state \<Rightarrow> nat" where
  "lines_for n s = length (filter (\<lambda>w. w = Sigwait_got n \<or> w = Caught n) (written s))"

definition noticed :: "nat \<Rightarrow> sig_state \<Rightarrow> nat" where
  "noticed n s = lines_for n s + (if n \<in> pending s then 1 else 0)"

definition posts :: "nat \<Rightarrow> sig_action list \<Rightarrow> nat" where
  "posts n as = length (filter (\<lambda>a. a = Post n) as)"

lemma noticed_step:
  assumes "program \<in> {block_sigint_step, sigusr1_handler_step, sigwait_loop_step}" "signal_step program a s = Some s'"
  shows "noticed n s' \<le> noticed n s + posts n [a]"
proof (cases a)
  case (Program ok)
  with assms show ?thesis
    by (auto simp: signal_simps noticed_def lines_for_def posts_def split: if_splits phase.splits)
next
  case (Post m)
  with assms(2) show ?thesis
    by (auto simp: signal_step_def noticed_def lines_for_def posts_def split: if_splits)
next
  case (Deliver m)
  with assms(2) show ?thesis
    by (auto simp: signal_step_def noticed_def lines_for_def posts_def handler_line_def split: if_splits)
qed

lemma noticed_run:
  assumes "program \<in> {block_sigint_step, sigusr1_handler_step, sigwait_loop_step}"
    "run_steps (signal_step program) as s = Some s'"
  shows "noticed n s' \<le> noticed n s + posts n as"
  using assms(2)
proof (induction as arbitrary: s)
  case (Cons a as)
  then obtain s1 where s1: "signal_step program a s = Some s1" "run_steps (signal_step program) as s1 = Some s'"
    by (auto split: option.splits)
  from Cons.IH [OF s1(2)] noticed_step [OF assms(1) s1(1), of n] show ?case by (simp add: posts_def split: if_splits)
qed simp

text \<open>
  A receiver prints at most as many lines for a signal as were posted. It may print fewer: signals are not
  queued, and those posted while the same one is pending are lost.
\<close>

lemma lines_at_most_posts:
  assumes "program \<in> {block_sigint_step, sigusr1_handler_step, sigwait_loop_step}"
    "run_steps (signal_step program) as fresh_process = Some s"
  shows "lines_for n s \<le> posts n as"
proof -
  have "noticed n fresh_process = 0" by (simp add: noticed_def lines_for_def fresh_process_def)
  with noticed_run [OF assms, of n] show ?thesis by (simp add: noticed_def)
qed

lemma lines_at_most_posts_witness:
  "\<exists>s. run_steps (signal_step sigwait_loop_step)
       [Program True, Program True, Post SIGUSR1, Post SIGUSR1, Program True] fresh_process = Some s
     \<and> lines_for SIGUSR1 s \<le> 2 \<and> lines_for SIGUSR1 s = 1"
proof -
  let ?as = "[Program True, Program True, Post SIGUSR1, Post SIGUSR1, Program True]"
  have c: "case run_steps (signal_step sigwait_loop_step) ?as fresh_process of
      None \<Rightarrow> False | Some s \<Rightarrow> lines_for SIGUSR1 s = 1"
    by code_simp
  show ?thesis
  proof (cases "run_steps (signal_step sigwait_loop_step) ?as fresh_process")
    case (Some s)
    have "posts SIGUSR1 ?as = 2" by code_simp
    with lines_at_most_posts [OF _ Some, of SIGUSR1] c show ?thesis unfolding Some by simp
  qed (use c in simp)
qed

section \<open>The sender\<close>

text \<open>
  What \<open>sender.c\<close> does with its arguments, where \<open>kill_ok\<close> says which calls of \<open>kill\<close> succeed: the messages, or the
  call it has made; the number is its exit status.
\<close>

datatype sender_out = Usage | Unknown_signal string | Kill_error int nat | Sent int nat

definition sender :: "(int \<Rightarrow> nat \<Rightarrow> bool) \<Rightarrow> string list \<Rightarrow> sender_out \<times> int" where
  "sender kill_ok argv =
     (if length argv < 3 then (Usage, 1)
      else
        (let pid = atoi (argv ! 1);
             send = (\<lambda>sig. if kill_ok pid sig then (Sent pid sig, 0) else (Kill_error pid sig, 1))
         in if argv ! 2 = ''USR1'' then send SIGUSR1
            else if argv ! 2 = ''INT'' then send SIGINT
            else (Unknown_signal (argv ! 2), 1)))"

lemma atoi_show_int: "INT_MIN \<le> i \<Longrightarrow> i \<le> INT_MAX \<Longrightarrow> atoi (show_int i) = i"
  by (simp add: atoi_def strtol_val_show_int to_int_id)

text \<open>
  The signal named goes to the process whose pid was typed. A first argument that is no number is not
  refused: the signal goes to process group 0, the sender's own.
\<close>

lemma sender_target:
  assumes "2 < length argv" "argv ! 2 \<in> {''USR1'', ''INT''}" "kill_ok pid sig"
    "sig = (if argv ! 2 = ''USR1'' then SIGUSR1 else SIGINT)"
    "argv ! 1 = show_int pid \<and> INT_MIN \<le> pid \<and> pid \<le> INT_MAX \<or> strtol (argv ! 1) = None \<and> pid = 0"
  shows "sender kill_ok argv = (Sent pid sig, 0)"
proof -
  have "atoi (argv ! 1) = pid"
    using assms(5)
  proof (elim disjE conjE)
    show "strtol (argv ! 1) = None \<Longrightarrow> pid = 0 \<Longrightarrow> atoi (argv ! 1) = pid"
      by (simp add: atoi_def strtol_val_def to_int_def)
  qed (simp add: atoi_show_int)
  with assms(1-4) show ?thesis by (auto simp: sender_def Let_def)
qed

lemma sender_target_witness:
  "sender (\<lambda>pid sig. True) [''sender'', ''first'', ''INT''] = (Sent 0 SIGINT, 0)
   \<and> sender (\<lambda>pid sig. True) [''sender'', ''7'', ''USR1''] = (Sent 7 SIGUSR1, 0)"
proof
  have "strtol ([''sender'', ''first'', ''INT''] ! 1) = None" by code_simp
  then show "sender (\<lambda>pid sig. True) [''sender'', ''first'', ''INT''] = (Sent 0 SIGINT, 0)"
    using sender_target [of "[''sender'', ''first'', ''INT'']" "\<lambda>pid sig. True" 0 SIGINT] by simp
  have "[''sender'', ''7'', ''USR1''] ! 1 = show_int 7" "INT_MIN \<le> 7" "7 \<le> INT_MAX" by code_simp+
  then show "sender (\<lambda>pid sig. True) [''sender'', ''7'', ''USR1''] = (Sent 7 SIGUSR1, 0)"
    using sender_target [of "[''sender'', ''7'', ''USR1'']" "\<lambda>pid sig. True" 7 SIGUSR1] by simp
qed

end
