(* ===== verification/Calculator.thy ===== *)
theory Calculator
  imports C_Prelude "HOL-Library.Signed_Division"
begin

text \<open>
  The calculators \<open>static_libraries\<close> and \<open>dynamic_libraries\<close>: the same menu over a library of four
  operations on \<open>int\<close>, linked from an archive or from a shared object. The library is the interface \<open>calculator_library\<close>,
  which both provide; a result that does not fit an \<open>int\<close> is undefined behaviour of C and stands as
  \<open>None\<close>. The loop may not end, so it is run with fuel.
\<close>

section \<open>The libraries\<close>

definition fits :: "int \<Rightarrow> bool" where "fits i = (INT_MIN \<le> i \<and> i \<le> INT_MAX)"

text \<open>The value of an arithmetic expression of type \<open>int\<close>.\<close>

definition int_value :: "int \<Rightarrow> int option" where
  "int_value i = (if fits i then Some i else None)"

record library =
  lib_add :: "int \<Rightarrow> int \<Rightarrow> int option"
  lib_sub :: "int \<Rightarrow> int \<Rightarrow> int option"
  lib_mul :: "int \<Rightarrow> int \<Rightarrow> int option"
  lib_divide :: "int \<Rightarrow> int \<Rightarrow> int option"

definition static_add :: "int \<Rightarrow> int \<Rightarrow> int option" where "static_add a b = int_value (a + b)"
definition static_sub :: "int \<Rightarrow> int \<Rightarrow> int option" where "static_sub a b = int_value (a - b)"
definition static_mul :: "int \<Rightarrow> int \<Rightarrow> int option" where "static_mul a b = int_value (a * b)"
definition static_divide :: "int \<Rightarrow> int \<Rightarrow> int option" where
  "static_divide a b = (if b = 0 then None else int_value (a sdiv b))"

definition dynamic_add :: "int \<Rightarrow> int \<Rightarrow> int option" where "dynamic_add a b = int_value (a + b)"
definition dynamic_sub :: "int \<Rightarrow> int \<Rightarrow> int option" where "dynamic_sub a b = int_value (a - b)"
definition dynamic_mul :: "int \<Rightarrow> int \<Rightarrow> int option" where "dynamic_mul a b = int_value (a * b)"
definition dynamic_divide :: "int \<Rightarrow> int \<Rightarrow> int option" where
  "dynamic_divide a b = (if b = 0 then None else int_value (a sdiv b))"

definition static_library :: library where
  "static_library =
     \<lparr>lib_add = static_add, lib_sub = static_sub, lib_mul = static_mul, lib_divide = static_divide\<rparr>"

definition dynamic_library :: library where
  "dynamic_library =
     \<lparr>lib_add = dynamic_add, lib_sub = dynamic_sub, lib_mul = dynamic_mul, lib_divide = dynamic_divide\<rparr>"

section \<open>The menu\<close>

text \<open>What the program writes: its menu, its question, an answer.\<close>

datatype calc_out = Menu | Bye | Ask_numbers | Result int | No_division_by_zero | Wrong_choice

text \<open>How a run ends: by choice 5, in undefined behaviour, or not within the fuel.\<close>

datatype calc_end = Stopped | Undefined_result | Running

record calc_state =
  calc_choice :: int
  num_a :: int
  num_b :: int
  input :: string

definition operate :: "library \<Rightarrow> int \<Rightarrow> int \<Rightarrow> int \<Rightarrow> calc_out option" where
  "operate lib ch a b =
     (if ch = 1 then map_option Result (lib_add lib a b)
      else if ch = 2 then map_option Result (lib_sub lib a b)
      else if ch = 3 then map_option Result (lib_mul lib a b)
      else if ch = 4 then
        (if b = 0 then Some No_division_by_zero else map_option Result (lib_divide lib a b))
      else Some Wrong_choice)"

text \<open>\<open>scanf("%d %d", &a, &b)\<close> gives up at the first number it does not find.\<close>

definition scan_pair :: "int \<Rightarrow> int \<Rightarrow> string \<Rightarrow> int \<times> int \<times> string" where
  "scan_pair a b s =
     (case scanf_d s of
        (None, rest) \<Rightarrow> (a, b, rest)
      | (Some v, rest) \<Rightarrow> (let (w, rest') = scan_number b rest in (v, w, rest')))"

fun calculator :: "library \<Rightarrow> nat \<Rightarrow> calc_state \<Rightarrow> calc_out list \<times> calc_end" where
  "calculator lib 0 s = ([], Running)"
| "calculator lib (Suc n) s =
     (let (ch, r1) = scan_number (calc_choice s) (input s) in
      if ch = 5 then ([Menu, Bye], Stopped)
      else
        (let (a, b, r2) = scan_pair (num_a s) (num_b s) r1 in
         case operate lib ch a b of
           None \<Rightarrow> ([Menu, Ask_numbers], Undefined_result)
         | Some out \<Rightarrow>
             (let (outs, e) = calculator lib n \<lparr>calc_choice = ch, num_a = a, num_b = b, input = r2\<rparr>
              in (Menu # Ask_numbers # out # outs, e))))"

declare calculator.simps(2) [simp del]

definition static_calculator :: "nat \<Rightarrow> calc_state \<Rightarrow> calc_out list \<times> calc_end" where
  "static_calculator = calculator static_library"

definition dynamic_calculator :: "nat \<Rightarrow> calc_state \<Rightarrow> calc_out list \<times> calc_end" where
  "dynamic_calculator = calculator dynamic_library"

section \<open>What a library promises\<close>

text \<open>
  The operations of a library are exact where the result fits an \<open>int\<close> and undefined elsewhere;
  division truncates towards zero. The menu is right over every such library.
\<close>

definition exact :: "int \<Rightarrow> int \<Rightarrow> int \<Rightarrow> int" where
  "exact ch a b = (if ch = 1 then a + b else if ch = 2 then a - b else if ch = 3 then a * b else a sdiv b)"

definition answer :: "int \<Rightarrow> int \<Rightarrow> int \<Rightarrow> calc_out" where
  "answer ch a b =
     (if ch < 1 \<or> 4 < ch then Wrong_choice
      else if ch = 4 \<and> b = 0 then No_division_by_zero
      else Result (exact ch a b))"

definition has_answer :: "int \<Rightarrow> int \<Rightarrow> int \<Rightarrow> bool" where
  "has_answer ch a b = (1 \<le> ch \<and> ch \<le> 4 \<and> \<not> (ch = 4 \<and> b = 0) \<longrightarrow> fits (exact ch a b))"

text \<open>The requests of a user as typed: the choice on a line, the numbers on the next.\<close>

type_synonym request = "int \<times> int \<times> int"

fun type_request :: "request \<Rightarrow> string" where
  "type_request (ch, a, b) = show_int ch @ [NL] @ show_int a @ '' '' @ show_int b @ [NL]"

definition session :: "request list \<Rightarrow> string" where
  "session rs = concat (map type_request rs) @ ''5'' @ [NL]"

fun typable :: "request \<Rightarrow> bool" where
  "typable (ch, a, b) = (fits ch \<and> fits a \<and> fits b \<and> ch \<noteq> 5)"

fun answered :: "request \<Rightarrow> bool" where
  "answered (ch, a, b) = has_answer ch a b"

fun dialogue :: "request \<Rightarrow> calc_out list" where
  "dialogue (ch, a, b) = [Menu, Ask_numbers, answer ch a b]"

lemma isdigit_blank [simp]: "\<not> isdigit CHR '' ''"
  by (simp add: isdigit_def)

lemma scan_request:
  assumes "fits ch" "fits a" "fits b"
  shows "scan_number old (show_int ch @ NL # rest) = (ch, NL # rest)"
    and "scan_pair x y (NL # show_int a @ CHR '' '' # show_int b @ NL # rest) = (a, b, NL # rest)"
  using assms
  by (simp_all add: fits_def scan_number_def scan_pair_def scanf_d_skip_space scanf_d_show_int)

lemma calculator_newline: "calculator lib n (s\<lparr>input := NL # r\<rparr>) = calculator lib n (s\<lparr>input := r\<rparr>)"
  by (cases n) (simp_all add: calculator.simps(2) scan_number_def scanf_d_skip_space cong: if_cong)

locale calculator_library =
  fixes lib :: library
  assumes adds: "lib_add lib a b = int_value (a + b)"
    and subtracts: "lib_sub lib a b = int_value (a - b)"
    and multiplies: "lib_mul lib a b = int_value (a * b)"
    and divides: "b \<noteq> 0 \<Longrightarrow> lib_divide lib a b = int_value (a sdiv b)"
begin

lemma operate_answer: "operate lib ch a b = (if has_answer ch a b then Some (answer ch a b) else None)"
  by (auto simp: operate_def has_answer_def answer_def exact_def adds subtracts multiplies divides int_value_def)

lemma calculator_request:
  assumes "typable (ch, a, b)"
  shows "calculator lib (Suc n) (s\<lparr>input := type_request (ch, a, b) @ rest\<rparr>) =
     (if has_answer ch a b then
        (let (outs, e) = calculator lib n \<lparr>calc_choice = ch, num_a = a, num_b = b, input = rest\<rparr>
         in (dialogue (ch, a, b) @ outs, e))
      else ([Menu, Ask_numbers], Undefined_result))"
  using assms scan_request [of ch a b] calculator_newline [of lib n rest "\<lparr>calc_choice = ch, num_a = a, num_b = b, input = []\<rparr>"]
  by (simp add: calculator.simps(2) operate_answer)

lemma calculator_session:
  assumes "\<forall>r \<in> set rs. typable r" "\<forall>r \<in> set rs. answered r" "length rs < n"
  shows "calculator lib n (s\<lparr>input := session rs\<rparr>) = (concat (map dialogue rs) @ [Menu, Bye], Stopped)"
  using assms
proof (induction rs arbitrary: n s)
  case Nil
  have "show_int 5 = ''5''" by code_simp
  with Nil scan_request(1) [of 5 0 0 "calc_choice s" "[]"] show ?case
    by (cases n) (simp_all add: session_def calculator.simps(2) fits_def INT_MIN_def INT_MAX_def)
next
  case (Cons r rs)
  obtain ch a b where r: "r = (ch, a, b)" by (cases r)
  obtain m where n: "n = Suc m" "length rs < m" using Cons.prems(3) by (cases n) auto
  have "calculator lib m \<lparr>calc_choice = ch, num_a = a, num_b = b, input = session rs\<rparr>
      = (concat (map dialogue rs) @ [Menu, Bye], Stopped)"
    using Cons.IH [of m "\<lparr>calc_choice = ch, num_a = a, num_b = b, input = []\<rparr>"] Cons.prems n(2) by simp
  with Cons.prems calculator_request [of ch a b m "session rs" s] show ?case
    by (simp add: r n(1) session_def)
qed

lemma calculator_overflow:
  assumes "\<forall>r \<in> set rs. typable r \<and> answered r" "typable r" "\<not> answered r" "length rs < n"
  shows "calculator lib n (s\<lparr>input := concat (map type_request (rs @ [r])) @ rest\<rparr>)
     = (concat (map dialogue rs) @ [Menu, Ask_numbers], Undefined_result)"
  using assms
proof (induction rs arbitrary: n s)
  case Nil
  obtain ch a b where r: "r = (ch, a, b)" by (cases r)
  with Nil calculator_request [of ch a b _ rest s] show ?case by (cases n) simp_all
next
  case (Cons x rs)
  obtain ch a b where x: "x = (ch, a, b)" by (cases x)
  obtain m where n: "n = Suc m" "length rs < m" using Cons.prems(4) by (cases n) auto
  have "calculator lib m \<lparr>calc_choice = ch, num_a = a, num_b = b, input = concat (map type_request (rs @ [r])) @ rest\<rparr>
      = (concat (map dialogue rs) @ [Menu, Ask_numbers], Undefined_result)"
    using Cons.IH [of m "\<lparr>calc_choice = ch, num_a = a, num_b = b, input = []\<rparr>"] Cons.prems n(2) by simp
  with Cons.prems calculator_request [of ch a b m "concat (map type_request (rs @ [r])) @ rest" s] show ?case
    by (simp add: x n(1))
qed

lemma calculator_at_end:
  "typable (ch, a, b) \<Longrightarrow> answered (ch, a, b) \<Longrightarrow>
     calculator lib n \<lparr>calc_choice = ch, num_a = a, num_b = b, input = []\<rparr>
       = (concat (replicate n (dialogue (ch, a, b))), Running)"
  by (induction n) (simp_all add: calculator.simps(2) scan_pair_def operate_answer)

lemma calculator_repeats:
  assumes "\<forall>r \<in> set rs. typable r \<and> answered r" "rs \<noteq> []"
  shows "calculator lib n (s\<lparr>input := concat (map type_request rs)\<rparr>)
     = (concat (map dialogue (take n (rs @ replicate n (last rs)))), Running)"
  using assms
proof (induction rs arbitrary: n s)
  case (Cons r rs)
  obtain ch a b where r: "r = (ch, a, b)" by (cases r)
  let ?s = "\<lparr>calc_choice = ch, num_a = a, num_b = b, input = []\<rparr>"
  show ?case
  proof (cases n)
    case (Suc m)
    have "calculator lib m (?s\<lparr>input := concat (map type_request rs)\<rparr>)
        = (concat (map dialogue (take m (rs @ replicate m (last (r # rs))))), Running)"
    proof (cases "rs = []")
      case True
      with Cons.prems calculator_at_end [of ch a b m] show ?thesis by (simp add: r map_replicate)
    next
      case False
      with Cons.IH [of m ?s] Cons.prems show ?thesis by simp
    qed
    moreover have "take m (rs @ replicate (Suc m) x) = take m (rs @ replicate m x)" for x
      by (simp add: take_replicate min_def del: replicate_Suc)
    ultimately show ?thesis
      using Cons.prems calculator_request [of ch a b m "concat (map type_request rs)" s] by (simp add: Suc r)
  qed simp
qed simp

end

interpretation static: calculator_library static_library
  by unfold_locales (simp_all add: static_library_def static_add_def static_sub_def static_mul_def static_divide_def)

interpretation dynamic: calculator_library dynamic_library
  by unfold_locales (simp_all add: dynamic_library_def dynamic_add_def dynamic_sub_def dynamic_mul_def dynamic_divide_def)

section \<open>The two programs\<close>

text \<open>
  Property C37. Over either library a session of requests whose results fit is answered request by request
  with the exact results, an error for a division by zero and for a wrong choice, and ends with choice 5.
\<close>

theorem calculators_answer:
  assumes "calc \<in> {static_calculator, dynamic_calculator}" "\<forall>r \<in> set rs. typable r \<and> answered r" "length rs < n"
  shows "calc n (s\<lparr>input := session rs\<rparr>) = (concat (map dialogue rs) @ [Menu, Bye], Stopped)"
  using assms static.calculator_session dynamic.calculator_session
  by (auto simp: static_calculator_def dynamic_calculator_def)

theorem calculators_answer_witness:
  "dynamic_calculator 4 \<lparr>calc_choice = 0, num_a = 0, num_b = 0, input = session [(4, -7, 2), (4, 1, 0), (9, 1, 1)]\<rparr>
     = ([Menu, Ask_numbers, Result (-3), Menu, Ask_numbers, No_division_by_zero, Menu, Ask_numbers, Wrong_choice, Menu, Bye],
        Stopped)"
proof -
  have "\<forall>r \<in> set [(4, -7, 2), (4, 1, 0), (9, 1, 1)]. typable r \<and> answered r" by code_simp
  from calculators_answer [OF _ this, of dynamic_calculator 4 "\<lparr>calc_choice = 0, num_a = 0, num_b = 0, input = []\<rparr>"]
  show ?thesis by (simp add: answer_def exact_def)
qed

text \<open>
  A session comes to undefined behaviour exactly when it asks for a result that is no \<open>int\<close>:
  a sum, difference or product outside the range, or \<open>INT_MIN / -1\<close>. The program checks for none of these.
\<close>

lemma calculators_undefined_iff:
  assumes "calc \<in> {static_calculator, dynamic_calculator}" "\<forall>r \<in> set rs. typable r" "length rs < n"
  shows "snd (calc n (s\<lparr>input := session rs\<rparr>)) = Undefined_result \<longleftrightarrow> (\<exists>r \<in> set rs. \<not> answered r)"
proof (cases "\<exists>r \<in> set rs. \<not> answered r")
  case True
  then obtain xs r ys where rs: "rs = xs @ r # ys" "\<not> answered r" "\<forall>x \<in> set xs. answered x"
    using split_list_first_prop [of rs "\<lambda>r. \<not> answered r"] by blast
  have i: "session rs = concat (map type_request (xs @ [r])) @ concat (map type_request ys) @ ''5'' @ [NL]"
    by (simp add: session_def rs(1))
  have "snd (calc n (s\<lparr>input := session rs\<rparr>)) = Undefined_result"
    unfolding i using assms rs static.calculator_overflow [of xs r n] dynamic.calculator_overflow [of xs r n]
    by (auto simp: static_calculator_def dynamic_calculator_def)
  with True show ?thesis by simp
next
  case False
  with assms static.calculator_session dynamic.calculator_session show ?thesis
    by (auto simp: static_calculator_def dynamic_calculator_def)
qed

lemma calculators_undefined_iff_witness:
  "snd (static_calculator 2 \<lparr>calc_choice = 0, num_a = 0, num_b = 0, input = session [(4, -2147483648, -1)]\<rparr>)
     = Undefined_result"
proof -
  have "\<forall>r \<in> set [(4, -2147483648, -1)]. typable r" "\<exists>r \<in> set [(4, -2147483648, -1)]. \<not> answered r" by code_simp+
  with calculators_undefined_iff [of static_calculator "[(4, -2147483648, -1)]" 2
      "\<lparr>calc_choice = 0, num_a = 0, num_b = 0, input = []\<rparr>"]
  show ?thesis by simp
qed

text \<open>
  When the input ends before choice 5, the program goes on for ever: it answers the last request
  again and again, however often it is let run.
\<close>

lemma calculators_never_stop_at_end:
  assumes "calc \<in> {static_calculator, dynamic_calculator}" "\<forall>r \<in> set rs. typable r \<and> answered r" "rs \<noteq> []"
  shows "calc n (s\<lparr>input := concat (map type_request rs)\<rparr>)
     = (concat (map dialogue (take n (rs @ replicate n (last rs)))), Running)"
  using assms static.calculator_repeats dynamic.calculator_repeats
  by (auto simp: static_calculator_def dynamic_calculator_def)

lemma calculators_never_stop_at_end_witness:
  "static_calculator 2 \<lparr>calc_choice = 0, num_a = 0, num_b = 0, input = type_request (1, 2, 3)\<rparr>
     = ([Menu, Ask_numbers, Result 5, Menu, Ask_numbers, Result 5], Running)"
proof -
  have "\<forall>r \<in> set [(1, 2, 3)]. typable r \<and> answered r" by code_simp
  from calculators_never_stop_at_end [OF _ this, of static_calculator 2 "\<lparr>calc_choice = 0, num_a = 0, num_b = 0, input = []\<rparr>"]
  show ?thesis by (simp add: answer_def exact_def numeral_eq_Suc)
qed

end
