(* ===== verification/Check_String.thy ===== *)
theory Check_String
  imports C_Prelude "HOL-Library.Sublist"
begin

text \<open>
  The substring search of \<open>pointers/pointers_task4.c\<close>: two arrays of 100 characters, filled with zeros and
  then by \<open>fgets\<close>, and a search that ends a match at the newline the typed pattern ends with. What the
  program prints on the way is part of the result; a read behind the pattern's array is a verdict of its own.
\<close>

definition string_size :: nat where "string_size = 100"

datatype verdict = Complete | No_match | Overrun

text \<open>The inner loop of \<open>check_string\<close>, with what it prints.\<close>

function match_from :: "string \<Rightarrow> string \<Rightarrow> nat \<Rightarrow> nat \<Rightarrow> string \<times> verdict" where
  "match_from input_string substring i j =
     (if j < string_size - i then
        (if input_string ! (i + j) = substring ! j then
           (if j + 1 < length substring then
              (if substring ! (j + 1) = NL then ([substring ! j], Complete)
               else (let (out, v) = match_from input_string substring i (j + 1) in (substring ! j # out, v)))
            else ([substring ! j], Overrun))
         else ([], No_match))
      else ([], No_match))"
  by pat_completeness auto
termination by (relation "measure (\<lambda>(input_string, substring, i, j). string_size - j)") auto

declare match_from.simps [simp del]

text \<open>The outer loop.\<close>

function search_from :: "string \<Rightarrow> string \<Rightarrow> nat \<Rightarrow> string \<times> verdict" where
  "search_from input_string substring i =
     (if i < string_size then
        (if input_string ! i = substring ! 0 then
           (let (out, v) = match_from input_string substring i 0 in
            if v = No_match then
              (let (out', v') = search_from input_string substring (i + 1) in (out @ out', v'))
            else (out, v))
         else search_from input_string substring (i + 1))
      else ([], No_match))"
  by pat_completeness auto
termination by (relation "measure (\<lambda>(input_string, substring, i). string_size - i)") auto

declare search_from.simps [simp del]

definition check_string :: "string \<Rightarrow> string \<Rightarrow> string \<times> verdict" where
  "check_string input_string substring =
     (let (out, v) = search_from input_string substring 0 in
      (out @ (case v of Complete \<Rightarrow> [NL] @ ''Task Complete'' @ [NL]
                      | No_match \<Rightarrow> [NL] @ ''Task failed'' @ [NL]
                      | Overrun \<Rightarrow> []), v))"

text \<open>
  An array of zeros after \<open>fgets\<close>, and the program: \<open>printf("%s", \<dots>)\<close> of the result is the pattern, or, for
  NULL, what the C library prints for it.
\<close>

definition load :: "(string \<times> string) option \<Rightarrow> string \<times> string" where
  "load r =
     (case r of
        None \<Rightarrow> (replicate string_size NUL, [])
      | Some (l, rest) \<Rightarrow> (l @ replicate (string_size - length l) NUL, rest))"

definition check_main :: "string \<Rightarrow> string \<times> verdict" where
  "check_main stdin =
     (let (input_string, r1) = load (fgets string_size stdin);
          (substring, r2) = load (fgets string_size r1);
          (out, v) = check_string input_string substring
      in (out @ (case v of Complete \<Rightarrow> cstr substring | No_match \<Rightarrow> ''(null)'' | Overrun \<Rightarrow> []), v))"

section \<open>What is found\<close>

lemma match_from_verdict:
  assumes "substring = p @ NL # r" "NL \<notin> set p" "length substring = string_size" "length input_string = string_size"
    "j < length p"
  shows "snd (match_from input_string substring i j) =
    (if i + length p \<le> string_size \<and> take (length p - j) (drop (i + j) input_string) = drop j p then Complete else No_match)"
  using assms(5)
proof (induction "length p - j" arbitrary: j)
  case (Suc d)
  have sub: "substring ! j = p ! j" "j + 1 < length substring"
    using Suc.prems assms(1) by (simp_all add: nth_append)
  have p: "drop j p = p ! j # drop (Suc j) p" using Suc.prems by (simp add: Cons_nth_drop_Suc)
  show ?case
  proof (cases "j < string_size - i")
    case True
    then have ins: "drop (i + j) input_string = input_string ! (i + j) # drop (i + Suc j) input_string"
      using assms(4) by (simp add: Cons_nth_drop_Suc)
    have len: "length p - j = Suc (length p - Suc j)" using Suc.prems by simp
    show ?thesis
    proof (cases "Suc j = length p")
      case last: True
      then have "substring ! (j + 1) = NL" using assms(1) by (simp add: nth_append)
      moreover have "i + length p \<le> string_size" using True last by simp
      ultimately show ?thesis
        using True sub last by (subst match_from.simps) (simp add: p ins len)
    next
      case False
      then have more: "Suc j < length p" using Suc.prems by simp
      then have "substring ! (j + 1) = p ! Suc j" using assms(1) by (simp add: nth_append)
      moreover have "p ! Suc j \<noteq> NL" using assms(2) more by (metis nth_mem)
      moreover have "d = length p - Suc j" using Suc.hyps(2) by simp
      ultimately show ?thesis
        using True sub Suc.hyps(1) [OF _ more]
        by (subst match_from.simps) (auto simp: p ins len case_prod_beta Let_def)
    qed
  next
    case False
    with Suc.prems show ?thesis by (subst match_from.simps) auto
  qed
qed simp

lemma search_from_verdict:
  assumes "substring = p @ NL # r" "NL \<notin> set p" "length substring = string_size" "length input_string = string_size"
    "p \<noteq> []"
  shows "snd (search_from input_string substring i) =
    (if \<exists>k. i \<le> k \<and> k + length p \<le> string_size \<and> take (length p) (drop k input_string) = p then Complete else No_match)"
proof (induction "string_size - i" arbitrary: i)
  case 0
  moreover have "\<not> k + length p \<le> string_size" if "i \<le> k" for k
    using 0 that assms(5) by (cases p) auto
  ultimately show ?case by (subst search_from.simps) auto
next
  case (Suc d)
  let ?at = "\<lambda>k. k + length p \<le> string_size \<and> take (length p) (drop k input_string) = p"
  have here: "snd (match_from input_string substring i 0) = (if ?at i then Complete else No_match)"
    using match_from_verdict [OF assms(1-4), of 0 i] assms(5) by simp
  have later: "snd (search_from input_string substring (Suc i)) = (if \<exists>k\<ge>Suc i. ?at k then Complete else No_match)"
    using Suc by simp
  have first: "input_string ! i = substring ! 0" if "?at i"
  proof -
    have "hd (take (length p) (drop i input_string)) = input_string ! i"
      using Suc.hyps(2) assms(4,5) by (simp add: hd_drop_conv_nth)
    with that assms(1,5) show ?thesis by (simp add: hd_conv_nth nth_append)
  qed
  have split: "(\<exists>k\<ge>i. ?at k) \<longleftrightarrow> ?at i \<or> (\<exists>k\<ge>Suc i. ?at k)"
    by (metis Suc_leD Suc_leI le_neq_implies_less order_refl)
  show ?case
    using Suc.hyps(2) here later first unfolding split
    by (subst search_from.simps) (auto simp: case_prod_beta Let_def)
qed

text \<open>A typed line in its array.\<close>

definition array_of :: "string \<Rightarrow> string" where
  "array_of l = l @ replicate (string_size - length l) NUL"

lemma found_in_line:
  assumes "NL \<notin> set p" "NUL \<notin> set p" "p \<noteq> []" "length t \<le> string_size - 2"
  shows "(\<exists>k. k + length p \<le> string_size \<and> take (length p) (drop k (array_of (t @ [NL]))) = p) \<longleftrightarrow> sublist p t"
proof
  assume "sublist p t"
  then obtain us vs where t: "t = us @ p @ vs" by (auto simp: sublist_def)
  then have "take (length p) (drop (length us) (array_of (t @ [NL]))) = p" by (simp add: array_of_def)
  moreover have "length us + length p \<le> string_size" using t assms(4) by simp
  ultimately show "\<exists>k. k + length p \<le> string_size \<and> take (length p) (drop k (array_of (t @ [NL]))) = p" by blast
next
  assume "\<exists>k. k + length p \<le> string_size \<and> take (length p) (drop k (array_of (t @ [NL]))) = p"
  then obtain k where k: "k + length p \<le> string_size" "take (length p) (drop k (array_of (t @ [NL]))) = p" by blast
  let ?b = "array_of (t @ [NL])"
  have len: "length ?b = string_size" using assms(4) by (simp add: array_of_def string_size_def)
  have "k + length p \<le> length t"
  proof (rule ccontr)
    assume far: "\<not> k + length p \<le> length t"
    have c: "?b ! (k + (length p - 1)) = p ! (length p - 1)"
      using k len assms(3) by (metis (no_types, lifting) diff_less length_greater_0_conv less_numeral_extra(1) nth_drop nth_take
          le_add1 le_trans)
    have "k + (length p - 1) < string_size" using k(1) assms(3) by (cases p) auto
    then have "?b ! (k + (length p - 1)) \<in> {NL, NUL}"
      using far assms(3) by (cases p) (auto simp: array_of_def nth_append nth_Cons split: nat.splits)
    moreover have "p ! (length p - 1) \<in> set p" using assms(3) by simp
    ultimately show False using assms(1,2) c by auto
  qed
  then have "take (length p) (drop k t) = p" using k(2) by (simp add: array_of_def)
  then show "sublist p t" by (metis append_take_drop_id sublist_def)
qed

lemma fgets_line:
  "NL \<notin> set l \<Longrightarrow> length l \<le> string_size - 2 \<Longrightarrow> load (fgets string_size (l @ NL # rest)) = (array_of (l @ [NL]), rest)"
  by (simp add: fgets_def fgets_take_line load_def array_of_def string_size_def)

lemma array_of_length [simp]: "length l \<le> string_size - 2 \<Longrightarrow> length (array_of (l @ [NL])) = string_size"
  by (simp add: array_of_def string_size_def)

lemma check_string_verdict: "snd (check_string a b) = snd (search_from a b 0)"
  by (simp add: check_string_def case_prod_beta Let_def)

lemma check_main_verdict:
  "snd (check_main stdin) =
     (let (a, r1) = load (fgets string_size stdin); (b, r2) = load (fgets string_size r1) in snd (check_string a b))"
  by (simp add: check_main_def case_prod_beta Let_def)

text \<open>
  Property C22. For lines that fit their arrays the search says that it is complete exactly when the
  second line, not empty, occurs in the first as \<open>sublist\<close> of the library defines it.
\<close>

theorem check_main_finds:
  assumes "NL \<notin> set t" "NL \<notin> set p" "NUL \<notin> set p" "p \<noteq> []" "length t \<le> string_size - 2" "length p \<le> string_size - 2"
  shows "snd (check_main (t @ NL # p @ NL # rest)) = (if sublist p t then Complete else No_match)"
proof -
  have b: "array_of (p @ [NL]) = p @ NL # replicate (string_size - length (p @ [NL])) NUL"
    by (simp add: array_of_def)
  have "snd (search_from (array_of (t @ [NL])) (array_of (p @ [NL])) 0) = (if sublist p t then Complete else No_match)"
    using search_from_verdict [OF b assms(2) _ _ assms(4), of "array_of (t @ [NL])" 0] found_in_line [OF assms(2-5)] assms(5,6)
    by simp
  then show ?thesis
    using assms by (simp add: check_main_verdict fgets_line check_string_verdict)
qed

theorem check_main_finds_witness:
  "snd (check_main (''banana'' @ NL # ''nan'' @ NL # [])) = Complete
   \<and> snd (check_main (''banana'' @ NL # ''nab'' @ NL # [])) = No_match"
proof -
  have "sublist ''nan'' ''banana''" "\<not> sublist ''nab'' ''banana''" by code_simp+
  then show ?thesis
    using check_main_finds [of "''banana''" "''nan''" "[]"] check_main_finds [of "''banana''" "''nab''" "[]"]
    by (simp add: string_size_def NL_def NUL_def)
qed

lemma match_from_overrun:
  assumes "length substring = string_size" "length input_string = string_size" "j < string_size"
  shows "snd (match_from input_string substring i j) = Overrun \<longleftrightarrow>
    i = 0 \<and> drop j input_string = drop j substring \<and> NL \<notin> set (drop (Suc j) substring)"
  using assms(3)
proof (induction "string_size - j" arbitrary: j)
  case (Suc d)
  have d: "drop j substring = substring ! j # drop (Suc j) substring"
    "drop j input_string = input_string ! j # drop (Suc j) input_string"
    using Suc.prems assms by (simp_all add: Cons_nth_drop_Suc)
  show ?case
  proof (cases "Suc j < string_size")
    case True
    then have n: "drop (Suc j) substring = substring ! Suc j # drop (Suc (Suc j)) substring"
      using assms by (simp add: Cons_nth_drop_Suc)
    have "snd (match_from input_string substring i (Suc j)) = Overrun \<longleftrightarrow>
        i = 0 \<and> drop (Suc j) input_string = drop (Suc j) substring \<and> NL \<notin> set (drop (Suc (Suc j)) substring)"
      using Suc True by simp
    then show ?thesis
      using Suc.prems True assms(1) by (subst match_from.simps) (auto simp: d n case_prod_beta Let_def)
  next
    case False
    then have "Suc j = string_size" using Suc.prems by simp
    moreover from this have "j < string_size - i \<longleftrightarrow> i = 0" by linarith
    ultimately show ?thesis
      using assms by (subst match_from.simps) (auto simp: d)
  qed
qed simp

lemma search_from_overrun:
  assumes "length substring = string_size" "length input_string = string_size" "0 < i"
  shows "snd (search_from input_string substring i) \<noteq> Overrun"
  using assms(3)
proof (induction "string_size - i" arbitrary: i)
  case 0
  then show ?case by (subst search_from.simps) simp
next
  case (Suc d)
  have "snd (match_from input_string substring i 0) \<noteq> Overrun"
    using match_from_overrun [OF assms(1,2), of 0 i] Suc.prems by (simp add: string_size_def)
  then show ?case
    using Suc by (subst search_from.simps) (auto simp: case_prod_beta Let_def)
qed

text \<open>
  Property C34. The search reads behind the array of the pattern exactly when the two arrays are equal and the
  pattern has no newline behind its first character: so for no input at all, and for two lines without text.
\<close>

theorem check_string_overrun_iff:
  assumes "length input_string = string_size" "length substring = string_size"
  shows "snd (check_string input_string substring) = Overrun \<longleftrightarrow>
    input_string = substring \<and> NL \<notin> set (tl substring)"
proof -
  have at0: "snd (match_from input_string substring 0 0) = Overrun \<longleftrightarrow> input_string = substring \<and> NL \<notin> set (tl substring)"
    using match_from_overrun [OF assms(2,1), of 0 0] by (simp add: string_size_def drop_Suc)
  have "0 < string_size" by (simp add: string_size_def)
  with at0 search_from_overrun [OF assms(2,1), of 1] show ?thesis
    by (simp add: check_string_verdict, subst search_from.simps) (auto simp: case_prod_beta Let_def)
qed

theorem check_string_overrun_iff_witness:
  "snd (check_main []) = Overrun \<and> snd (check_main [NL, NL]) = Overrun"
proof -
  have "snd (check_string (replicate string_size NUL) (replicate string_size NUL)) = Overrun"
    using check_string_overrun_iff [of "replicate string_size NUL" "replicate string_size NUL"]
    by (simp add: string_size_def NL_def NUL_def)
  moreover have "snd (check_string (array_of [NL]) (array_of [NL])) = Overrun"
    using check_string_overrun_iff [of "array_of [NL]" "array_of [NL]"]
    by (simp add: array_of_def string_size_def NL_def NUL_def)
  moreover have "load (fgets string_size [NL, NL]) = (array_of [NL], [NL])" "load (fgets string_size [NL]) = (array_of [NL], [])"
    using fgets_line [of "[]" "[NL]"] fgets_line [of "[]" "[]"] by simp_all
  ultimately show ?thesis
    by (simp add: check_main_verdict fgets_def load_def)
qed

end
