(* ===== verification/Pointers.thy ===== *)
theory Pointers
  imports C_Prelude
begin

text \<open>
  The exercises \<open>pointers_task2.c\<close>, a sum through two pointers, and \<open>pointers_task3.c\<close>, an array filled with
  random numbers and printed through a pointer that walks over it. The floats of the first are
  small whole numbers, on which the arithmetic of floats is exact, so they are integers here.
\<close>

section \<open>A sum through pointers\<close>

datatype variable = Var_x | Var_y

definition pointers_task2 :: "int list" where
  "pointers_task2 =
     (let m = (\<lambda>v. 0)(Var_x := 5);
          out1 = m Var_x;
          m' = m(Var_y := 6);
          out2 = m' Var_y;
          xp = Var_y;
          yp = Var_y
      in [out1, out2, m' xp + m' yp])"

text \<open>Both pointers are to \<open>y\<close>: the last number printed is twice the second, not the sum of the first two.\<close>

lemma pointers_task2_doubles: "pointers_task2 = [x, y, r] \<Longrightarrow> r = 2 * y \<and> r \<noteq> x + y"
  by (auto simp: pointers_task2_def)

section \<open>A pointer that walks over an array\<close>

definition cells :: nat where "cells = 10"

text \<open>The first loop; the numbers \<open>rand\<close> gives are an argument.\<close>

function fill_random :: "(nat \<Rightarrow> int) \<Rightarrow> nat \<Rightarrow> int list \<Rightarrow> int list" where
  "fill_random rand i a = (if i < cells then fill_random rand (i + 1) (a[i := rand i]) else a)"
  by pat_completeness auto
termination by (relation "measure (\<lambda>(rand, i, a). cells - i)") auto

declare fill_random.simps [simp del]

text \<open>The second loop; reading through a pointer behind the array has no result.\<close>

function walk_pointer :: "nat \<Rightarrow> nat \<Rightarrow> int list \<Rightarrow> (nat \<times> int) list option" where
  "walk_pointer i p a =
     (if i < cells then
        (if p < length a then map_option (\<lambda>out. (i, a ! p) # out) (walk_pointer (i + 1) (p + 1) a) else None)
      else Some [])"
  by pat_completeness auto
termination by (relation "measure (\<lambda>(i, p, a). cells - i)") auto

declare walk_pointer.simps [simp del]

definition pointers_task3 :: "(nat \<Rightarrow> int) \<Rightarrow> int list \<Rightarrow> (nat \<times> int) list option" where
  "pointers_task3 rand a = walk_pointer 0 0 (fill_random rand 0 a)"

lemma fill_random_cells:
  assumes "length a = cells" "i \<le> cells" "\<forall>j < i. a ! j = rand j"
  shows "fill_random rand i a = map rand [0 ..< cells]"
  using assms
proof (induction "cells - i" arbitrary: i a)
  case 0
  then show ?case by (subst fill_random.simps) (auto intro!: nth_equalityI)
next
  case (Suc d)
  then have "fill_random rand (i + 1) (a[i := rand i]) = map rand [0 ..< cells]"
    by (intro Suc.hyps(1)) (auto simp: nth_list_update less_Suc_eq)
  moreover have "i < cells" using Suc.hyps(2) by simp
  ultimately show ?case by (subst fill_random.simps) simp
qed

lemma walk_pointer_cells:
  "i \<le> cells \<Longrightarrow> length a = cells \<Longrightarrow> walk_pointer i i a = Some (map (\<lambda>j. (j, a ! j)) [i ..< cells])"
proof (induction "cells - i" arbitrary: i)
  case 0
  then show ?case by (subst walk_pointer.simps) simp
next
  case (Suc d)
  then have "i < cells" by simp
  with Suc.hyps(1) [of "i + 1"] Suc.hyps(2) Suc.prems show ?case
    by (subst walk_pointer.simps) (simp add: upt_conv_Cons)
qed

text \<open>The pointer stays inside of the array and prints every number once, whatever the array held before.\<close>

lemma pointers_task3_prints:
  "length a = cells \<Longrightarrow> pointers_task3 rand a = Some (map (\<lambda>i. (i, rand i)) [0 ..< cells])"
  using fill_random_cells [of a 0 rand] walk_pointer_cells [of 0 "map rand [0 ..< cells]"]
  by (simp add: pointers_task3_def)

end
