(* ===== verification/File_Exercise.thy ===== *)
theory File_Exercise
  imports C_Prelude
begin

text \<open>
  The exercise \<open>work_with_file.c\<close>: a text is written to a file, the file is read back as a whole and shown
  forwards and backwards. The files are a map from names to contents; which calls succeed is an argument.
\<close>

definition filename :: string where "filename = ''output.txt''"
definition file_text :: string where "file_text = ''String from file''"

record file_calls =
  opens_to_write :: bool
  opens_to_read :: bool
  allocates :: bool

datatype file_out = Open_error_write | Open_error_read | Forwards string | Backwards string

text \<open>How the program ends: with its status, or by writing through the NULL of \<open>malloc\<close>.\<close>

datatype file_end = Returned nat | Null_buffer

type_synonym files = "string \<rightharpoonup> string"

text \<open>\<open>fopen(name, "w")\<close> empties the file or makes it, \<open>fprintf\<close> and \<open>fclose\<close> put the text into it.\<close>

definition write_file :: "string \<Rightarrow> string \<Rightarrow> files \<Rightarrow> files" where
  "write_file name text fs = fs(name \<mapsto> text)"

text \<open>The loop \<open>for (long i = size - 1; i >= 0; i--) putchar(buffer[i])\<close>, from \<open>i\<close> on.\<close>

function put_backwards :: "string \<Rightarrow> int \<Rightarrow> string" where
  "put_backwards buffer i = (if i < 0 then [] else buffer ! nat i # put_backwards buffer (i - 1))"
  by pat_completeness auto
termination by (relation "measure (\<lambda>(buffer, i). nat (i + 1))") auto

declare put_backwards.simps [simp del]

definition file_main :: "file_calls \<Rightarrow> files \<Rightarrow> file_out list \<times> files \<times> file_end" where
  "file_main calls fs =
     (if \<not> opens_to_write calls then ([Open_error_write], fs, Returned 1)
      else
        (let fs1 = write_file filename file_text fs in
         case (if opens_to_read calls then fs1 filename else None) of
           None \<Rightarrow> ([Open_error_read], fs1, Returned 1)
         | Some content \<Rightarrow>
             (let size = length content in
              if \<not> allocates calls then ([], fs1, Null_buffer)
              else (let buffer = content @ [NUL] in
                    ([Forwards (cstr buffer), Backwards (put_backwards buffer (int size - 1))], fs1, Returned 0)))))"

lemma put_backwards_rev: "n \<le> length buffer \<Longrightarrow> put_backwards buffer (int n - 1) = rev (take n buffer)"
proof (induction n)
  case 0
  show ?case by (subst put_backwards.simps) simp
next
  case (Suc n)
  then show ?case
    by (subst put_backwards.simps) (simp add: take_Suc_conv_app_nth)
qed

text \<open>
  What was written is read back and shown, then shown in reverse; whatever the file held before is
  gone, other files are as they were.
\<close>

lemma file_read_back:
  assumes "opens_to_write calls" "opens_to_read calls" "allocates calls"
  shows "file_main calls fs = ([Forwards file_text, Backwards (rev file_text)], fs(filename \<mapsto> file_text), Returned 0)"
proof -
  have "cstr (file_text @ [NUL]) = file_text" by (simp add: cstr_append_NUL file_text_def NUL_def cstr_def)
  moreover have "put_backwards (file_text @ [NUL]) (int (length file_text) - 1) = rev file_text"
    using put_backwards_rev [of "length file_text" "file_text @ [NUL]"] by simp
  ultimately show ?thesis
    using assms by (simp add: file_main_def write_file_def Let_def)
qed

lemma file_read_back_witness:
  "file_main \<lparr>opens_to_write = True, opens_to_read = True, allocates = True\<rparr> (\<lambda>name. Some ''old'')
     = ([Forwards ''String from file'', Backwards ''elif morf gnirtS''],
        (\<lambda>name. Some ''old'')(filename \<mapsto> ''String from file''), Returned 0)"
  using file_read_back [of "\<lparr>opens_to_write = True, opens_to_read = True, allocates = True\<rparr>" "\<lambda>name. Some ''old''"]
  by (simp add: file_text_def)

end
