(* ===== verification/Bits.thy ===== *)
theory Bits
  imports C_Prelude
begin

text \<open>
  The bit exercises of \<open>bits_operations/bits.c\<close> and the byte exercise \<open>pointers/pointers_task1.c\<close>. An \<open>int\<close> is a 32-bit
  word read as two's complement; \<open>>>\<close> on it is the arithmetic shift, as gcc has it, and so is
  \<open>1 << 31\<close> the least \<open>int\<close>. The loop that may not end is a partial function.
\<close>

section \<open>The functions\<close>

text \<open>What \<open>printf("%d", (x & (1 << b)) >> b)\<close> prints.\<close>

definition bit_printed :: "u32 \<Rightarrow> nat \<Rightarrow> int" where
  "bit_printed x b = sint (signed_drop_bit b (x AND push_bit b 1))"

text \<open>The loop of the direct variant, from bit \<open>k - 1\<close> down to bit 0.\<close>

fun bits_from :: "u32 \<Rightarrow> nat \<Rightarrow> int list" where
  "bits_from x 0 = []"
| "bits_from x (Suc b) = bit_printed x b # bits_from x b"

definition direct_bits :: "u32 \<Rightarrow> int list" where
  "direct_bits x = bits_from x 32"

text \<open>The loop of the reverse variant: \<open>while (x) { print x & 1; x = x >> 1; }\<close>.\<close>

partial_function (option) reverse_bits :: "u32 \<Rightarrow> int list option" where
  "reverse_bits x =
     (if x = 0 then Some []
      else Option.bind (reverse_bits (signed_drop_bit 1 x)) (\<lambda>ds. Some (sint (x AND 1) # ds)))"

text \<open>
  The loop that turns a negative number into its direct code: it borrows through the low bits that
  are 0, and inverts everything once it has cleared the lowest 1. There is no bit 31 in it.
\<close>

function to_direct_code :: "nat \<Rightarrow> u32 \<Rightarrow> u32" where
  "to_direct_code shift x =
     (if shift < 31 then
        if bit_printed x shift = 0 then to_direct_code (shift + 1) (x OR push_bit shift 1)
        else NOT (x AND NOT (push_bit shift 1))
      else x)"
  by auto
termination by (relation "measure (\<lambda>(shift, x). 31 - shift)") auto

declare to_direct_code.simps [simp del]

text \<open>\<open>count_positive_bits\<close>: \<open>None\<close> for the number it refuses; the loop as above, with a counter.\<close>

partial_function (option) count_loop :: "u32 \<Rightarrow> int \<Rightarrow> int option" where
  "count_loop x counter =
     (if x = 0 then Some counter else count_loop (signed_drop_bit 1 x) (counter + sint (x AND 1)))"

definition change_third :: "u32 \<Rightarrow> u32 \<Rightarrow> u32" where
  "change_third x byte = (x AND NOT (push_bit 16 0xFF)) OR push_bit 16 byte"

text \<open>\<open>pointers/pointers_task1.c\<close>: the bytes of the \<open>int\<close> in memory, with the one at index 2 overwritten.\<close>

definition overwrite_third :: "u32 \<Rightarrow> u8 \<Rightarrow> u32" where
  "overwrite_third a input =
     (case (le32_bytes a)[2 := input] of
        [b0, b1, b2, b3] \<Rightarrow> le32 b0 b1 b2 b3
      | _ \<Rightarrow> a)"

section \<open>The program\<close>

text \<open>What is printed: a constructor per message, the digits of a number, or a number.\<close>

datatype bits_out = Menu | Ask_number | Ask_byte | Reverse_heading | Direct_heading | Complement_heading
  | Code_heading | Digits "int list" | Number int | Refused

definition scan_int :: "string \<Rightarrow> u32 \<times> string" where
  "scan_int stdin = (let (v, rest) = scan_number 0 stdin in (word_of_int v, rest))"

text \<open>\<open>None\<close>: the function never returns.\<close>

definition positive_to_bits :: "string \<Rightarrow> (bits_out list \<times> string) option" where
  "positive_to_bits stdin =
     (let (input, rest) = scan_int stdin
      in case reverse_bits input of
           None \<Rightarrow> None
         | Some ds \<Rightarrow> Some ([Reverse_heading, Digits ds, Direct_heading, Digits (direct_bits input)], rest))"

definition negative_to_bits :: "string \<Rightarrow> (bits_out list \<times> string) option" where
  "negative_to_bits stdin =
     (let (input, rest) = scan_int stdin;
          out = [Number (sint input), Complement_heading, Digits (direct_bits input)]
      in Some (if sint input < 0 then out @ [Code_heading, Digits (direct_bits (to_direct_code 0 input))] else out,
               rest))"

definition count_positive_bits :: "string \<Rightarrow> (bits_out list \<times> string) option" where
  "count_positive_bits stdin =
     (let (input, rest) = scan_int stdin
      in if sint input > 0
         then (case count_loop input 0 of None \<Rightarrow> None | Some c \<Rightarrow> Some ([Number c], rest))
         else Some ([Refused], rest))"

definition change_third_byte :: "string \<Rightarrow> (bits_out list \<times> string) option" where
  "change_third_byte stdin =
     (let (input, r1) = scan_int stdin; (byte, r2) = scan_unsigned 0 r1
      in Some ([Ask_byte, Number (sint (change_third input byte))], r2))"

text \<open>
  The loop of \<open>main\<close>, for at most so many rounds; the flag tells whether it has ended with choice 4.
\<close>

definition bits_choice :: "int \<Rightarrow> string \<Rightarrow> (bits_out list \<times> string) option" where
  "bits_choice choice stdin =
     (let ask = map_option (\<lambda>(out, rest). (Ask_number # out, rest))
      in if choice = 0 then ask (positive_to_bits stdin)
         else if choice = 1 then ask (negative_to_bits stdin)
         else if choice = 2 then ask (count_positive_bits stdin)
         else if choice = 3 then ask (change_third_byte stdin)
         else Some ([], stdin))"

fun bits_main :: "nat \<Rightarrow> int \<Rightarrow> string \<Rightarrow> (bool \<times> bits_out list \<times> string) option" where
  "bits_main 0 choice stdin = Some (False, [], stdin)"
| "bits_main (Suc k) choice stdin =
     (let (choice', r) = scan_number choice stdin
      in if choice' = 4 then Some (True, [Menu], r)
         else case bits_choice choice' r of
                None \<Rightarrow> None
              | Some (out, r') \<Rightarrow>
                  (case bits_main k choice' r' of
                     None \<Rightarrow> None
                   | Some (b, out', r'') \<Rightarrow> Some (b, Menu # out @ out', r'')))"

section \<open>Bits of a word\<close>

lemma and_bit_eq: "x AND push_bit b 1 = (if bit x b then push_bit b (1 :: u32) else 0)"
  by (rule bit_word_eqI) (auto simp: bit_simps)

lemma bit_printed_eq:
  assumes "b < 32"
  shows "bit_printed x b = (if bit x b then if b = 31 then - 1 else 1 else 0)"
proof (cases "bit x b")
  case False
  then show ?thesis unfolding bit_printed_def and_bit_eq by simp
next
  case True
  have "signed_drop_bit b (push_bit b (1 :: u32)) = (if b = 31 then - 1 else 1)"
    using assms by (intro bit_word_eqI) (auto simp: bit_simps simp del: push_bit_of_1)
  with True show ?thesis unfolding bit_printed_def and_bit_eq by simp
qed

lemma sint_and_1: "sint (x AND 1 :: u32) = of_bool (bit x 0)"
  using bit_printed_eq [of 0 x] by (simp add: bit_printed_def)

lemma sint_shift_1: "sint (signed_drop_bit 1 x :: u32) = sint x div 2"
  by (simp add: sint_signed_drop_bit_eq drop_bit_eq_div)

lemma sint_mod_2: "sint (x :: u32) mod 2 = of_bool (bit x 0)"
proof -
  have "bit (sint x) 0 = bit x 0" by (simp add: bit_sint_iff)
  then show ?thesis by (simp add: bit_0 mod2_eq_if)
qed

lemma uint_take_bit: "uint (take_bit k (x :: u32)) = take_bit k (uint x)"
  by (simp add: unsigned_take_bit_eq)

text \<open>The value of digits printed from the highest, and from the lowest.\<close>

definition value_of :: "int list \<Rightarrow> int" where
  "value_of ds = foldl (\<lambda>a d. 2 * a + d) 0 ds"

definition value_reversed :: "int list \<Rightarrow> int" where
  "value_reversed ds = foldr (\<lambda>d a. d + 2 * a) ds 0"

lemma bits_from_value:
  "k \<le> 31 \<Longrightarrow> foldl (\<lambda>a d. 2 * a + d) a (bits_from x k) = a * 2 ^ k + take_bit k (uint x)"
proof (induction k arbitrary: a)
  case (Suc k)
  have "bit_printed x k = of_bool (bit (uint x) k)"
    using Suc.prems by (simp add: bit_printed_eq bit_uint_iff)
  with Suc show ?case by (simp add: take_bit_Suc_from_most algebra_simps)
qed simp

lemma sint_eq_take_bit: "sint (x :: u32) = take_bit 31 (uint x) - of_bool (bit x 31) * 2 ^ 31"
proof -
  have "sint x = signed_take_bit 31 (uint x)" by (simp add: sint_uint)
  moreover have "bit (uint x) 31 = bit x 31" by (simp add: bit_uint_iff)
  ultimately show ?thesis
    unfolding signed_take_bit_eq_take_bit_minus take_bit_Suc_from_most by simp
qed

lemma length_bits_from [simp]: "length (bits_from x k) = k"
  by (induction k) auto

section \<open>Properties\<close>

lemma direct_bits_Cons: "direct_bits x = (if bit x 31 then - 1 else 0) # bits_from x 31"
  using bits_from.simps(2) [of x 31] by (simp add: direct_bits_def bit_printed_eq)

lemma value_direct_bits: "value_of (direct_bits x) = sint x"
  by (simp add: direct_bits_Cons value_of_def bits_from_value sint_eq_take_bit)

lemma sint_negative_iff: "sint (x :: u32) < 0 \<longleftrightarrow> bit x 31"
proof -
  have "take_bit 31 (uint x) < 2 ^ 31" "0 \<le> take_bit 31 (uint x)"
    using take_bit_int_less_exp [of 31 "uint x"] by simp_all
  then show ?thesis unfolding sint_eq_take_bit by auto
qed

text \<open>
  The direct variant prints 32 digits whose binary value is the number typed, for every
  \<open>int\<close>; the digits are 0 and 1 except that the first one of a negative number is - 1, printed as
  such: the shift of the sign bit is arithmetic.
\<close>

lemma direct_bits_correct:
  "length (direct_bits x) = 32 \<and> value_of (direct_bits x) = sint x \<and>
   hd (direct_bits x) = (if sint x < 0 then - 1 else 0) \<and> set (tl (direct_bits x)) \<subseteq> {0, 1}"
proof -
  have "set (bits_from x k) \<subseteq> {0, 1}" if "k \<le> 31" for k
    using that by (induction k) (auto simp: bit_printed_eq)
  then show ?thesis
    using value_direct_bits [of x] sint_negative_iff [of x] by (simp add: direct_bits_Cons)
qed

lemma reverse_bits_step:
  "reverse_bits x =
     (if x = 0 then Some []
      else map_option (\<lambda>ds. of_bool (bit x 0) # ds) (reverse_bits (signed_drop_bit 1 x)))"
  by (subst reverse_bits.simps) (auto simp: sint_and_1 map_option_case split: option.splits)

lemma reverse_bits_Nil: "reverse_bits x = Some [] \<longleftrightarrow> x = 0"
  by (subst reverse_bits_step) auto

lemma reverse_bits_Cons:
  "reverse_bits x = Some (d # ds) \<longleftrightarrow>
     x \<noteq> 0 \<and> d = of_bool (bit x 0) \<and> reverse_bits (signed_drop_bit 1 x) = Some ds"
  by (subst reverse_bits_step) auto

lemma sint_0_iff: "sint (x :: u32) = 0 \<longleftrightarrow> x = 0"
  by (metis signed_0 signed_word_eqI)

lemma reverse_bits_returns: "0 \<le> sint x \<Longrightarrow> \<exists>ds. reverse_bits x = Some ds"
proof (induction "nat (sint x)" arbitrary: x rule: less_induct)
  case less
  show ?case
  proof (cases "x = 0")
    case False
    then have "sint x \<noteq> 0" by (simp add: sint_0_iff)
    with less.prems have "0 < sint x" by linarith
    then have "nat (sint (signed_drop_bit 1 x)) < nat (sint x)" "0 \<le> sint (signed_drop_bit 1 x)"
      unfolding sint_shift_1 by linarith+
    from less.hyps [OF this] False show ?thesis by (subst reverse_bits_step) auto
  qed (subst reverse_bits_step, simp)
qed

lemma reverse_bits_value:
  "reverse_bits x = Some ds \<Longrightarrow> 0 \<le> sint x \<and> set ds \<subseteq> {0, 1} \<and> value_reversed ds = sint x \<and> (ds \<noteq> [] \<longrightarrow> last ds = 1)"
proof (induction ds arbitrary: x)
  case Nil
  then show ?case by (simp add: reverse_bits_Nil value_reversed_def)
next
  case (Cons d ds)
  from Cons.prems have x: "x \<noteq> 0" "d = of_bool (bit x 0)" "reverse_bits (signed_drop_bit 1 x) = Some ds"
    by (simp_all add: reverse_bits_Cons)
  from Cons.IH [OF x(3)] have ih: "0 \<le> sint x div 2" "value_reversed ds = sint x div 2" "ds \<noteq> [] \<longrightarrow> last ds = 1"
    "set ds \<subseteq> {0, 1}"
    unfolding sint_shift_1 by auto
  moreover have "sint x = 2 * (sint x div 2) + d"
    using x(2) sint_mod_2 [of x] by (metis mult_div_mod_eq)
  moreover have "sint x \<noteq> 0" using x(1) by (simp add: sint_0_iff)
  ultimately show ?case
    using x(2) by (auto simp: value_reversed_def)
qed

text \<open>
  The reverse variant ends exactly for the numbers that are not negative. It then prints the
  binary digits from the lowest to the highest, without leading zeros. On a negative number it
  prints for ever, the arithmetic shift never reaching 0.
\<close>

lemma reverse_bits_correct:
  "(0 \<le> sint x \<longleftrightarrow> reverse_bits x \<noteq> None) \<and>
   (case reverse_bits x of None \<Rightarrow> True
    | Some ds \<Rightarrow> set ds \<subseteq> {0, 1} \<and> value_reversed ds = sint x \<and> (ds \<noteq> [] \<longrightarrow> last ds = 1))"
  using reverse_bits_returns [of x] reverse_bits_value [of x] by (cases "reverse_bits x") auto

lemma reverse_bits_correct_witness:
  "reverse_bits 6 \<noteq> None \<and> reverse_bits (- 1) = None \<and>
   (\<exists>ds. reverse_bits 6 = Some ds \<and> value_reversed ds = 6 \<and> ds \<noteq> [] \<and> last ds = 1)"
proof -
  have s: "sint (6 :: u32) = 6" "sint (- 1 :: u32) = - 1" by code_simp+
  from reverse_bits_correct [of 6] s obtain ds where ds: "reverse_bits 6 = Some ds" "value_reversed ds = 6"
    "ds \<noteq> [] \<longrightarrow> last ds = 1" by auto
  moreover have "ds \<noteq> []" using ds(2) by (auto simp: value_reversed_def)
  moreover have "reverse_bits (- 1) = None" using reverse_bits_correct [of "- 1"] s(2) by simp
  ultimately show ?thesis by simp
qed

text \<open>The counting loop adds up the digits of the reverse variant.\<close>

lemma count_loop_digits: "reverse_bits x = Some ds \<Longrightarrow> count_loop x c = Some (c + sum_list ds)"
proof (induction ds arbitrary: x c)
  case Nil
  then have "x = 0" by (simp add: reverse_bits_Nil)
  then show ?case by (subst count_loop.simps) simp
next
  case (Cons d ds)
  from Cons.prems have x: "x \<noteq> 0" "d = of_bool (bit x 0)" "reverse_bits (signed_drop_bit 1 x) = Some ds"
    by (simp_all add: reverse_bits_Cons)
  from Cons.IH [OF x(3)] x show ?case by (subst count_loop.simps) (simp add: sint_and_1)
qed

lemma sum_reverse_bits:
  "reverse_bits x = Some ds \<Longrightarrow> sum_list ds = int (card {b. bit x b})"
proof (induction ds arbitrary: x)
  case Nil
  then show ?case by (simp add: reverse_bits_Nil)
next
  case (Cons d ds)
  let ?y = "signed_drop_bit 1 x"
  from Cons.prems have x: "d = of_bool (bit x 0)" "reverse_bits ?y = Some ds" by (simp_all add: reverse_bits_Cons)
  have "\<not> bit x 31" using reverse_bits_value [OF Cons.prems] sint_negative_iff [of x] by simp
  moreover have "\<not> bit x (Suc n)" if "31 \<le> n" for n
    using that bit_imp_le_length [of x "Suc n"] by auto
  ultimately have y: "bit ?y n \<longleftrightarrow> bit x (Suc n)" for n
    by (cases "31 \<le> n") (simp_all add: bit_signed_drop_bit_iff)
  have "{b. bit x b} = (if bit x 0 then {0} else {}) \<union> Suc ` {b. bit ?y b}"
  proof (rule set_eqI)
    show "b \<in> {b. bit x b} \<longleftrightarrow> b \<in> (if bit x 0 then {0} else {}) \<union> Suc ` {b. bit ?y b}" for b
      by (cases b) (simp_all add: y image_iff del: One_nat_def)
  qed
  moreover have "finite {b. bit ?y b}"
    by (rule finite_subset [of _ "{..< 32}"]) (auto dest: bit_imp_le_length)
  ultimately have "card {b. bit x b} = of_bool (bit x 0) + card {b. bit ?y b}"
    by (simp add: card_image card_insert_if)
  with Cons.IH [OF x(2)] x(1) show ?case by simp
qed

text \<open>
  \<open>count_positive_bits\<close> refuses a number that is not positive, and prints the number of ones
  in the binary representation of every other number.
\<close>

lemma count_positive_bits_correct:
  "count_positive_bits stdin =
     (let (x, rest) = scan_int stdin
      in Some ([if sint x \<le> 0 then Refused else Number (int (card {b. bit x b}))], rest))"
proof -
  obtain x rest where x: "scan_int stdin = (x, rest)" by fastforce
  have "count_loop x 0 = Some (int (card {b. bit x b}))" if "0 < sint x"
    using reverse_bits_returns [of x] count_loop_digits [of x _ 0] sum_reverse_bits [of x] that by auto
  with x show ?thesis by (simp add: count_positive_bits_def)
qed

lemma to_direct_code_run:
  assumes "s \<le> 31" and "\<forall>k < s. \<not> bit y k"
  shows "to_direct_code s (y OR mask s) = (if \<exists>k < 31. bit y k then - y else y OR mask 31)"
  using assms
proof (induction "31 - s" arbitrary: s)
  case 0
  then show ?case by (subst to_direct_code.simps) auto
next
  case (Suc d)
  then have s: "s < 31" by simp
  have bp: "bit_printed (y OR mask s) s = of_bool (bit y s)"
    using s by (simp add: bit_printed_eq bit_simps)
  show ?case
  proof (cases "bit y s")
    case False
    have "(y OR mask s) OR push_bit s 1 = y OR mask (Suc s)"
      by (rule bit_word_eqI) (auto simp: bit_simps less_Suc_eq simp del: push_bit_of_1)
    moreover have "\<forall>k < Suc s. \<not> bit y k" using False Suc.prems by (auto simp: less_Suc_eq)
    ultimately show ?thesis
      using Suc.hyps(1) [of "Suc s"] Suc.hyps(2) s bp False
      by (subst to_direct_code.simps) (simp del: push_bit_of_1)
  next
    case True
    let ?u = "y AND NOT (mask (Suc s))"
    have "?u OR push_bit s 1 = y" using True Suc.prems s
      by (intro bit_word_eqI) (auto simp: bit_simps less_Suc_eq_le le_eq_less_or_eq simp del: push_bit_of_1)
    moreover have "?u AND push_bit s 1 = 0"
      by (rule bit_word_eqI) (auto simp: bit_simps simp del: push_bit_of_1)
    ultimately have y: "y = ?u + push_bit s 1" by (metis disjunctive_add_eq_or)
    have "(y OR mask s) AND NOT (push_bit s 1) = ?u OR mask s" using Suc.prems s
      by (intro bit_word_eqI) (auto simp: bit_simps less_Suc_eq_le le_eq_less_or_eq simp del: push_bit_of_1)
    moreover have "?u AND mask s = 0" by (rule bit_word_eqI) (auto simp: bit_simps)
    ultimately have "(y OR mask s) AND NOT (push_bit s 1) = ?u + mask s" by (metis disjunctive_add_eq_or)
    also have "\<dots> = y - 1" using y by (simp add: mask_eq_exp_minus_1 algebra_simps)
    finally have "NOT ((y OR mask s) AND NOT (push_bit s 1)) = - y" by (simp add: not_eq_complement)
    then show ?thesis
      using bp True s by (subst to_direct_code.simps) (auto simp del: push_bit_of_1)
  qed
qed

lemma sint_uminus:
  assumes "sint (x :: u32) \<noteq> INT_MIN"
  shows "sint (- x) = - sint x"
proof -
  have "- x = word_of_int (- sint x)" by simp
  moreover have "- 2147483648 \<le> sint x" "sint x < 2147483648"
    using sint_range_size [of x] by (simp_all add: word_size)
  ultimately show ?thesis
    using assms signed_take_bit_int_eq_self [of 31 "- sint x"] by (simp only: INT_MIN_def) (simp add: sint_sbintrunc' del: of_int_minus)
qed

text \<open>
  Property C39. The direct code that \<open>negative_to_bits\<close> prints of a negative number is the binary
  representation of its absolute value, without the sign bit that a direct code has. For the
  least \<open>int\<close> the loop finds no one below bit 31, never inverts, and prints - 1 and 31 ones.
\<close>

theorem direct_code_correct:
  assumes "sint x < 0"
  shows "value_of (direct_bits (to_direct_code 0 x)) = (if sint x = INT_MIN then - 1 else - sint x)"
proof -
  have b31: "bit x 31" using assms sint_negative_iff by simp
  have run: "to_direct_code 0 x = (if \<exists>k < 31. bit x k then - x else x OR mask 31)"
    using to_direct_code_run [of 0 x] by simp
  have min: "sint x = INT_MIN \<longleftrightarrow> x = 2147483648"
  proof -
    have "sint (2147483648 :: u32) = INT_MIN" by code_simp
    then show ?thesis by (metis signed_word_eqI)
  qed
  have bits: "bit (2147483648 :: u32) n \<longleftrightarrow> n = 31" for n
  proof -
    have "bit (push_bit 31 (1 :: u32)) n \<longleftrightarrow> n = 31" by (auto simp: bit_simps simp del: push_bit_of_1)
    then show ?thesis by simp
  qed
  have least: "(\<exists>k < 31. bit x k) \<longleftrightarrow> x \<noteq> 2147483648"
  proof
    show "\<exists>k < 31. bit x k \<Longrightarrow> x \<noteq> 2147483648" by (metis bits less_irrefl)
    show "\<exists>k < 31. bit x k" if "x \<noteq> 2147483648"
    proof (rule ccontr)
      assume "\<not> ?thesis"
      then have "\<not> bit x n" if "n < 31" for n using that by blast
      moreover have "\<not> bit x n" if "31 < n" for n using that bit_imp_le_length [of x n] by auto
      ultimately have "bit x n \<longleftrightarrow> n = 31" for n using b31 by (metis linorder_neqE_nat)
      with bits have "x = 2147483648" by (intro bit_word_eqI) metis
      with that show False by simp
    qed
  qed
  have eq: "to_direct_code 0 x = (if x \<noteq> 2147483648 then - x else x OR mask 31)"
    using run unfolding least .
  show ?thesis
  proof (cases "x = 2147483648")
    case True
    have "(2147483648 :: u32) OR mask 31 = - 1" by code_simp
    then have "x OR mask 31 = - 1" using True by simp
    with True show ?thesis unfolding value_direct_bits eq min by simp
  next
    case False
    with min show ?thesis unfolding value_direct_bits eq by (simp add: sint_uminus)
  qed
qed

theorem direct_code_correct_witness:
  "value_of (direct_bits (to_direct_code 0 (- 6))) = 6 \<and>
   value_of (direct_bits (to_direct_code 0 0x80000000)) = - 1"
proof -
  have s: "sint (- 6 :: u32) = - 6" "sint (0x80000000 :: u32) = - 2147483648" by code_simp+
  from direct_code_correct [of "- 6"] direct_code_correct [of "0x80000000"] show ?thesis
    unfolding s by (simp add: INT_MIN_def)
qed

lemma bit_change_third:
  "bit (change_third x byte) n \<longleftrightarrow>
     (if n < 16 then bit x n else if n < 24 then bit byte (n - 16) else bit x n \<or> n < 32 \<and> bit byte (n - 16))"
proof -
  have ff: "bit (0xFF :: u32) k \<longleftrightarrow> k < 8" for k
  proof -
    have "bit (mask 8 :: u32) k \<longleftrightarrow> k < 8" by (auto simp: bit_simps)
    then show ?thesis by (simp add: mask_eq_exp_minus_1)
  qed
  have "bit (push_bit 16 (0xFF :: u32)) n \<longleftrightarrow> 16 \<le> n \<and> n < 24"
    by (simp only: bit_push_bit_iff ff) auto
  then show ?thesis
    unfolding change_third_def by (auto simp: bit_simps dest: bit_imp_le_length simp del: push_bit_numeral)
qed

lemma bit_overwrite_third:
  assumes "n < 32"
  shows "bit (overwrite_third x b) n \<longleftrightarrow> (if 16 \<le> n \<and> n < 24 then bit b (n - 16) else bit x n)"
proof -
  consider "n < 8" | "8 \<le> n" "n < 16" | "16 \<le> n" "n < 24" | "24 \<le> n" "n < 32"
    using assms by fastforce
  then show ?thesis
    unfolding overwrite_third_def le32_bytes_def le32_def
    by cases (auto simp: bit_simps numeral_2_eq_2 dest: bit_imp_le_length)
qed

text \<open>
  \<open>change_third_byte\<close> does what \<open>pointers/pointers_task1.c\<close> does through a pointer: for a byte it
  replaces the third byte of the number and no other. A number above 255, which it does not
  refuse, spills into the highest byte.
\<close>

lemma change_third_correct:
  "change_third x (ucast (b :: u8)) = overwrite_third x b \<and>
   (bit (change_third x byte) n \<longleftrightarrow>
      (if n < 16 then bit x n else if n < 24 then bit byte (n - 16)
       else bit x n \<or> n < 32 \<and> bit byte (n - 16)))"
proof
  show "change_third x (ucast b) = overwrite_third x b"
    by (rule bit_word_eqI)
      (auto simp: bit_change_third bit_overwrite_third bit_simps dest: bit_imp_le_length)
  show "bit (change_third x byte) n \<longleftrightarrow>
      (if n < 16 then bit x n else if n < 24 then bit byte (n - 16) else bit x n \<or> n < 32 \<and> bit byte (n - 16))"
    by (rule bit_change_third)
qed

end
