(* ===== verification/Massives.thy ===== *)
theory Massives
  imports C_Prelude
begin

text \<open>
  The array exercises of \<open>massives/massives.c\<close>. A matrix on the stack is a partial map from pairs of
  indices, empty as long as nothing is written. A run has no result when it writes outside of its
  matrix, when an \<open>int\<close> leaves its range, which is undefined in C (\<open>int_expr\<close>), or when the stack, of \<open>stack\<close>
  bytes, does not hold the array (\<open>on_stack\<close>).
\<close>

section \<open>The functions\<close>

type_synonym matrix = "int \<times> int \<rightharpoonup> int"

definition write_cell :: "int \<Rightarrow> int \<times> int \<Rightarrow> int \<Rightarrow> matrix \<Rightarrow> matrix option" where
  "write_cell N c v m =
     (if 0 \<le> fst c \<and> fst c < N \<and> 0 \<le> snd c \<and> snd c < N then Some (m(c \<mapsto> v)) else None)"

text \<open>The value of an expression of type \<open>int\<close>, and an array of \<open>cells\<close> numbers on the stack.\<close>

definition int_expr :: "int \<Rightarrow> int option" where
  "int_expr v = (if INT_MIN \<le> v \<and> v \<le> INT_MAX then Some v else None)"

definition on_stack :: "int \<Rightarrow> int \<Rightarrow> 'a option \<Rightarrow> 'a option" where
  "on_stack stack cells body = (if 4 * cells \<le> stack then body else None)"

text \<open>A loop that writes \<open>num++\<close> to one cell after the other.\<close>

fun fill :: "int \<Rightarrow> (int \<times> int) list \<Rightarrow> int \<Rightarrow> matrix \<Rightarrow> (matrix \<times> int) option" where
  "fill N [] num m = Some (m, num)"
| "fill N (c # cs) num m =
     (case write_cell N c num m of
        None \<Rightarrow> None
      | Some m' \<Rightarrow> (case int_expr (num + 1) of None \<Rightarrow> None | Some num' \<Rightarrow> fill N cs num' m'))"

record ulitka_state =
  u_matrix :: matrix
  num :: int
  top :: int
  bottom :: int
  left :: int
  right :: int

text \<open>The four loops in the body of the loop of \<open>ulitka\<close>.\<close>

definition ulitka_round :: "int \<Rightarrow> ulitka_state \<Rightarrow> ulitka_state option" where
  "ulitka_round N u =
     (case fill N (map (\<lambda>i. (top u, i)) [left u .. right u - 1]) (num u) (u_matrix u) of
        None \<Rightarrow> None
      | Some (m1, n1) \<Rightarrow>
          (let t = top u + 1
           in case fill N (map (\<lambda>i. (i, right u - 1)) [t .. bottom u - 1]) n1 m1 of
                None \<Rightarrow> None
              | Some (m2, n2) \<Rightarrow>
                  (let r = right u - 1
                   in case fill N (map (\<lambda>i. (bottom u - 1, i)) (rev [left u .. r - 1])) n2 m2 of
                        None \<Rightarrow> None
                      | Some (m3, n3) \<Rightarrow>
                          (let b = bottom u - 1
                           in case fill N (map (\<lambda>i. (i, left u)) (rev [t .. b - 1])) n3 m3 of
                                None \<Rightarrow> None
                              | Some (m4, n4) \<Rightarrow>
                                  Some \<lparr>u_matrix = m4, num = n4, top = t, bottom = b,
                                        left = left u + 1, right = r\<rparr>))))"

text \<open>The loop; no result when a round has none, when \<open>N * N\<close> is no \<open>int\<close>, or when it does not end.\<close>

partial_function (option) ulitka_loop :: "int \<Rightarrow> ulitka_state \<Rightarrow> ulitka_state option" where
  "ulitka_loop N u =
     (case int_expr (N * N) of
        None \<Rightarrow> None
      | Some square \<Rightarrow>
          if num u \<le> square
          then (case ulitka_round N u of None \<Rightarrow> None | Some u' \<Rightarrow> ulitka_loop N u')
          else Some u)"

definition ulitka_fill :: "int \<Rightarrow> matrix option" where
  "ulitka_fill N =
     map_option u_matrix (ulitka_loop N
       \<lparr>u_matrix = Map.empty, num = 1, top = 0, bottom = N, left = 0, right = N\<rparr>)"

text \<open>The rows that the last loops of a function print.\<close>

definition matrix_rows :: "int \<Rightarrow> matrix \<Rightarrow> int option list list" where
  "matrix_rows N m = map (\<lambda>i. map (\<lambda>j. m (i, j)) [0 .. N - 1]) [0 .. N - 1]"

text \<open>\<open>square_matrix\<close>: the first element whose expression is no \<open>int\<close> ends the loops.\<close>

fun all_some :: "'a option list \<Rightarrow> 'a list option" where
  "all_some [] = Some []"
| "all_some (x # xs) =
     (case x of None \<Rightarrow> None | Some v \<Rightarrow> map_option (\<lambda>vs. v # vs) (all_some xs))"

definition square_cell :: "int \<Rightarrow> int \<Rightarrow> int \<Rightarrow> int option" where
  "square_cell N i j =
     Option.bind (int_expr (N * i)) (\<lambda>a. Option.bind (int_expr (a + 1)) (\<lambda>b. int_expr (b + j)))"

definition square_rows :: "int \<Rightarrow> int list list option" where
  "square_rows N = all_some (map (\<lambda>i. all_some (map (\<lambda>j. square_cell N i j) [0 .. N - 1])) [0 .. N - 1])"

text \<open>A row of \<open>triangles\<close>, filled from the right with \<open>buf\<close> ones and then zeros.\<close>

fun triangle_row :: "nat \<Rightarrow> int \<Rightarrow> int list \<Rightarrow> int list" where
  "triangle_row 0 buf row = row"
| "triangle_row (Suc j) buf row =
     (if buf > 0 then triangle_row j (buf - 1) (1 # row) else triangle_row j buf (0 # row))"

definition triangle_rows :: "int \<Rightarrow> int list list" where
  "triangle_rows N = map (\<lambda>i. triangle_row (nat N) (i + 1) []) [0 .. N - 1]"

text \<open>
  The loop of \<open>reverse_output\<close>: it swaps the elements of the first half with their mirror images
  while it prints the array.
\<close>

function reverse_loop :: "nat \<Rightarrow> int list \<Rightarrow> int list" where
  "reverse_loop i a =
     (if i < length a then
        (let buf = a ! (length a - i - 1);
             a' = (if length a - i - 1 > i
                   then a[length a - i - 1 := a ! i, i := buf] else a)
         in a' ! i # reverse_loop (i + 1) a')
      else [])"
  by auto
termination by (relation "measure (\<lambda>(i, a). length a - i)") (auto simp: Let_def)

declare reverse_loop.simps [simp del]

text \<open>Reading the array over what it holds before.\<close>

fun scan_array :: "int list \<Rightarrow> string \<Rightarrow> int list \<times> string" where
  "scan_array [] stdin = ([], stdin)"
| "scan_array (old # olds) stdin =
     (let (v, r) = scan_number old stdin; (vs, r') = scan_array olds r in (v # vs, r'))"

definition reverse_array :: "int list \<Rightarrow> string \<Rightarrow> int list \<times> string" where
  "reverse_array memory stdin = (let (a, r) = scan_array memory stdin in (reverse_loop 0 a, r))"

text \<open>
  The four functions. Each reads its \<open>N\<close> over what the uninitialised variable holds, \<open>N0\<close>; \<open>memory\<close> is
  what the array on the stack holds.
\<close>

datatype massives_out = Rows "int option list list" | Row "int list" | Not_positive | Nothing

definition square_matrix :: "int \<Rightarrow> int \<Rightarrow> string \<Rightarrow> massives_out option" where
  "square_matrix stack N0 stdin =
     (let (N, r) = scan_number N0 stdin
      in if N \<le> 0 then Some Not_positive
         else on_stack stack (N * N) (map_option (\<lambda>rows. Rows (map (map Some) rows)) (square_rows N)))"

definition reverse_output :: "int \<Rightarrow> int \<Rightarrow> (nat \<Rightarrow> int) \<Rightarrow> string \<Rightarrow> massives_out option" where
  "reverse_output stack N0 memory stdin =
     (let (N, r) = scan_number N0 stdin
      in if N \<le> 0 then Some Not_positive
         else on_stack stack N (Some (Row (fst (reverse_array (map memory [0 ..< nat N]) r)))))"

definition triangles :: "int \<Rightarrow> int \<Rightarrow> string \<Rightarrow> massives_out option" where
  "triangles stack N0 stdin =
     (let (N, r) = scan_number N0 stdin
      in if N \<le> 0 then Some Not_positive
         else on_stack stack (N * N) (Some (Rows (map (map Some) (triangle_rows N)))))"

definition ulitka :: "int \<Rightarrow> int \<Rightarrow> string \<Rightarrow> massives_out option" where
  "ulitka stack N0 stdin =
     (let (N, r) = scan_number N0 stdin
      in if N \<le> 0 then Some Not_positive
         else on_stack stack (N * N) (map_option (\<lambda>m. Rows (matrix_rows N m)) (ulitka_fill N)))"

text \<open>\<open>main\<close>: one choice, 0 when nothing is typed.\<close>

definition massives_main :: "int \<Rightarrow> int \<Rightarrow> (nat \<Rightarrow> int) \<Rightarrow> string \<Rightarrow> massives_out option" where
  "massives_main stack N0 memory stdin =
     (let (choice, r) = scan_number 0 stdin
      in if choice = 0 then square_matrix stack N0 r
         else if choice = 1 then reverse_output stack N0 memory r
         else if choice = 2 then triangles stack N0 r
         else if choice = 3 then ulitka stack N0 r
         else Some Nothing)"

text \<open>The matrix of \<open>square_matrix\<close> as long as \<open>N * N\<close> is an \<open>int\<close>.\<close>

lemma all_some_map: "\<forall>x \<in> set xs. f x = Some (g x) \<Longrightarrow> all_some (map f xs) = Some (map g xs)"
  by (induction xs) auto

lemma square_rows_correct:
  assumes "N * N \<le> INT_MAX"
  shows "square_rows N = Some (map (\<lambda>i. map (\<lambda>j. N * i + j + 1) [0 .. N - 1]) [0 .. N - 1])"
proof -
  have "square_cell N i j = Some (N * i + j + 1)" if "0 \<le> i" "i < N" "0 \<le> j" "j < N" for i j
  proof -
    have "N * i \<le> N * (N - 1)" using that by (intro mult_left_mono) auto
    then have "N * i + j + 1 \<le> N * N" using that by (auto simp: algebra_simps)
    moreover have z: "0 \<le> N * i" using that by simp
    moreover have "INT_MIN \<le> N * i" by (rule order_trans [OF _ z]) (simp add: INT_MIN_def)
    ultimately show ?thesis using assms that by (simp add: square_cell_def int_expr_def)
  qed
  then show ?thesis
    unfolding square_rows_def by (intro all_some_map ballI) auto
qed

section \<open>The reversed output\<close>

text \<open>The array after \<open>i\<close> rounds: mirrored up to \<open>i\<close> and from the end.\<close>

definition mirrored :: "nat \<Rightarrow> int list \<Rightarrow> int list \<Rightarrow> bool" where
  "mirrored i xs a =
     (length a = length xs \<and>
      (\<forall>j < length xs. a ! j =
         (if j < i \<or> length xs - 1 - j < i then xs ! (length xs - 1 - j) else xs ! j)))"

lemma reverse_loop_mirrored:
  "mirrored i xs a \<Longrightarrow> reverse_loop i a = drop i (rev xs)"
proof (induction "length xs - i" arbitrary: i a)
  case 0
  then show ?case by (subst reverse_loop.simps) (simp add: mirrored_def)
next
  case (Suc d)
  let ?n = "length xs"
  let ?a = "if ?n - i - 1 > i then a[?n - i - 1 := a ! i, i := a ! (?n - i - 1)] else a"
  have i: "i < ?n" "length a = ?n" using Suc by (auto simp: mirrored_def)
  have m: "mirrored (Suc i) xs ?a"
    unfolding mirrored_def
  proof (intro conjI allI impI)
    show "length ?a = ?n" using i by simp
    fix j assume j: "j < ?n"
    show "?a ! j = (if j < Suc i \<or> ?n - 1 - j < Suc i then xs ! (?n - 1 - j) else xs ! j)"
    proof (cases "?n - i - 1 > i")
      case True
      have "a ! i = xs ! i" "a ! (?n - i - 1) = xs ! (?n - i - 1)"
        using Suc.prems True i by (auto simp: mirrored_def)
      with True i j Suc.prems show ?thesis
        by (cases "j = i"; cases "j = ?n - i - 1") (auto simp: mirrored_def less_Suc_eq)
    next
      case False
      then have "j = i \<or> ?n - 1 - j = i \<Longrightarrow> j < i \<or> ?n - 1 - j < i \<or> ?n - 1 - j = j" using i j by auto
      with False Suc.prems j i show ?thesis by (auto simp: mirrored_def less_Suc_eq)
    qed
  qed
  then have "?a ! i = xs ! (?n - 1 - i)" using i by (simp add: mirrored_def)
  moreover have "reverse_loop (Suc i) ?a = drop (Suc i) (rev xs)"
    using Suc.hyps(1) [of "Suc i" ?a] m Suc.hyps(2) by simp
  moreover have "reverse_loop i a = ?a ! i # reverse_loop (Suc i) ?a"
    using i by (subst reverse_loop.simps) (simp add: Let_def)
  ultimately show ?case
    using i Cons_nth_drop_Suc [of i "rev xs"] by (simp add: rev_nth)
qed

text \<open>
  \<open>reverse_output\<close> prints the array it has read in reverse order, although it reverses the
  array in place only up to the middle while it prints.
\<close>

lemma reverse_array_correct:
  "reverse_array memory stdin = (rev (fst (scan_array memory stdin)), snd (scan_array memory stdin))"
proof -
  have "mirrored 0 xs xs" for xs by (simp add: mirrored_def)
  from reverse_loop_mirrored [OF this] show ?thesis by (simp add: reverse_array_def case_prod_beta Let_def)
qed

section \<open>The snail\<close>

text \<open>The cells of a square ring of side \<open>n\<close> from \<open>(o, o)\<close> on, clockwise, and of all the rings.\<close>

definition ring :: "int \<Rightarrow> int \<Rightarrow> (int \<times> int) list" where
  "ring k n =
     map (\<lambda>i. (k, i)) [k .. k + n - 1] @ map (\<lambda>i. (i, k + n - 1)) [k + 1 .. k + n - 1] @
     map (\<lambda>i. (k + n - 1, i)) (rev [k .. k + n - 2]) @ map (\<lambda>i. (i, k)) (rev [k + 1 .. k + n - 2])"

function spiral :: "int \<Rightarrow> int \<Rightarrow> (int \<times> int) list" where
  "spiral k n = (if n \<le> 0 then [] else ring k n @ spiral (k + 1) (n - 2))"
  by auto
termination by (relation "measure (\<lambda>(k, n). nat n)") auto

declare spiral.simps [simp del]

lemma fill_append:
  "fill N (cs @ ds) n m =
     (case fill N cs n m of None \<Rightarrow> None | Some (m', n') \<Rightarrow> fill N ds n' m')"
  by (induction cs arbitrary: n m) (auto split: option.splits)

definition in_square :: "int \<Rightarrow> int \<Rightarrow> int \<times> int \<Rightarrow> bool" where
  "in_square k n c = (k \<le> fst c \<and> fst c < k + n \<and> k \<le> snd c \<and> snd c < k + n)"

text \<open>Filling cells inside of the matrix, all different: the \<open>i\<close>-th gets the \<open>i\<close>-th number.\<close>

lemma fill_distinct:
  "\<forall>c \<in> set cs. in_square 0 N c \<Longrightarrow> distinct cs \<Longrightarrow> 0 \<le> n \<Longrightarrow> n + int (length cs) \<le> INT_MAX \<Longrightarrow>
     \<exists>m'. fill N cs n m = Some (m', n + int (length cs)) \<and>
       (\<forall>i < length cs. m' (cs ! i) = Some (n + int i)) \<and> (\<forall>c. c \<notin> set cs \<longrightarrow> m' c = m c)"
proof (induction cs arbitrary: n m)
  case (Cons c cs)
  then have w: "write_cell N c n m = Some (m(c \<mapsto> n))" by (auto simp: write_cell_def in_square_def)
  have p: "\<forall>c \<in> set cs. in_square 0 N c" "distinct cs" "0 \<le> n + 1" "n + 1 + int (length cs) \<le> INT_MAX"
    and num: "int_expr (n + 1) = Some (n + 1)"
    using Cons.prems by (simp_all add: int_expr_def INT_MIN_def)
  from Cons.IH [OF p, of "m(c \<mapsto> n)"] obtain m' where m':
    "fill N cs (n + 1) (m(c \<mapsto> n)) = Some (m', n + 1 + int (length cs))"
    "\<forall>i < length cs. m' (cs ! i) = Some (n + 1 + int i)" "\<forall>d. d \<notin> set cs \<longrightarrow> m' d = (m(c \<mapsto> n)) d"
    by blast
  have "m' c = Some n" using m'(3) [rule_format, of c] Cons.prems by simp
  then have "m' ((c # cs) ! i) = Some (n + int i)" if "i < length (c # cs)" for i
    using that m'(2) by (cases i) auto
  moreover have "\<forall>d. d \<notin> set (c # cs) \<longrightarrow> m' d = m d" using m'(3) by simp
  ultimately show ?case using m'(1) w num by (intro exI [of _ m']) (simp add: algebra_simps)
qed simp

lemma set_ring: "0 < n \<Longrightarrow> c \<in> set (ring k n) \<longleftrightarrow> in_square k n c \<and> \<not> in_square (k + 1) (n - 2) c"
  by (cases c) (auto simp: ring_def in_square_def image_iff)

lemma distinct_ring: "distinct (ring k n)"
  by (auto simp: ring_def distinct_map inj_on_def)

lemma length_ring: "0 < n \<Longrightarrow> int (length (ring k n)) = (if n = 1 then 1 else 4 * n - 4)"
  by (auto simp: ring_def)

lemma in_square_mono: "in_square (k + 1) (n - 2) c \<Longrightarrow> in_square k n c"
  by (auto simp: in_square_def)

lemma set_spiral: "c \<in> set (spiral k n) \<longleftrightarrow> in_square k n c"
proof (induction k n rule: spiral.induct)
  case (1 k n)
  show ?case
  proof (cases "n \<le> 0")
    case True
    then show ?thesis by (subst spiral.simps) (auto simp: in_square_def)
  next
    case False
    with 1 set_ring [of n c k] in_square_mono [of k n c] show ?thesis by (subst spiral.simps) auto
  qed
qed

lemma distinct_spiral: "distinct (spiral k n)"
proof (induction k n rule: spiral.induct)
  case (1 k n)
  show ?case
  proof (cases "n \<le> 0")
    case True
    then show ?thesis by (subst spiral.simps) simp
  next
    case False
    with 1 distinct_ring set_ring [of n _ k] set_spiral show ?thesis by (subst spiral.simps) auto
  qed
qed

lemma length_spiral: "0 \<le> n \<Longrightarrow> int (length (spiral k n)) = n * n"
proof (induction k n rule: spiral.induct)
  case (1 k n)
  consider "n = 0" | "n = 1" | "2 \<le> n" using 1 by linarith
  then show ?case
  proof cases
    case 3
    with 1 have "int (length (spiral (k + 1) (n - 2))) = (n - 2) * (n - 2)" by simp
    with 3 length_ring [of n k] show ?thesis by (subst spiral.simps) (simp add: algebra_simps)
  next
    case 2
    have "spiral (k + 1) (n - 2) = []" using 2 by (subst spiral.simps) simp
    with 2 length_ring [of n k] show ?thesis by (subst spiral.simps) simp
  qed (subst spiral.simps, simp)
qed

definition adjacent :: "int \<times> int \<Rightarrow> int \<times> int \<Rightarrow> bool" where
  "adjacent c d = (\<bar>fst c - fst d\<bar> + \<bar>snd c - snd d\<bar> = 1)"

lemma successively_upto: "successively (\<lambda>x y. y = x + 1) [i .. j]"
proof (induction i j rule: upto.induct)
  case (1 i j)
  then show ?case by (subst upto.simps) (auto simp: successively_Cons upto.simps [of "i + 1"])
qed

lemma successively_upto_adjacent:
  assumes "\<And>x. P (f x) (f (x + 1))" "\<And>x. P (f (x + 1)) (f x)"
  shows "successively P (map f [i .. j])" "successively P (map f (rev [i .. j]))"
  unfolding successively_map successively_rev
  by (rule successively_mono [OF successively_upto], use assms in auto)+

lemma hd_upto: "i \<le> j \<Longrightarrow> hd [i .. j] = i"
  by (subst upto.simps) simp

lemma last_upto: "i \<le> j \<Longrightarrow> last [i .. j] = j"
  by (subst upto_rec2) simp_all

lemma ring_ends:
  assumes "0 < n"
  shows "ring k n \<noteq> []" "hd (ring k n) = (k, k)" "last (ring k n) = (if n = 1 then (k, k) else (k + 1, k))"
proof -
  show "ring k n \<noteq> []" "hd (ring k n) = (k, k)" using assms by (auto simp: ring_def hd_map hd_append hd_upto)
  consider "n = 1" | "n = 2" | "3 \<le> n" using assms by linarith
  then show "last (ring k n) = (if n = 1 then (k, k) else (k + 1, k))"
    by cases (auto simp: ring_def last_map last_rev hd_upto last_upto)
qed

lemma adjacent_steps [simp]:
  "adjacent (k, i) (k, i + 1)" "adjacent (k, i + 1) (k, i)" "adjacent (i, k) (i + 1, k)" "adjacent (i + 1, k) (i, k)"
  by (simp_all add: adjacent_def)

lemma successively_ring: "successively adjacent (ring k n)"
proof -
  have a: "successively adjacent (map (\<lambda>i. (c, i)) [a .. b])" "successively adjacent (map (\<lambda>i. (c, i)) (rev [a .. b]))"
    "successively adjacent (map (\<lambda>i. (i, c)) [a .. b])" "successively adjacent (map (\<lambda>i. (i, c)) (rev [a .. b]))" for a b c
    by (rule successively_upto_adjacent; simp)+
  consider "n \<le> 0" | "n = 1" | "n = 2" | "3 \<le> n" by linarith
  then show ?thesis
    unfolding ring_def successively_append_iff
    by cases (use a in \<open>simp_all add: hd_append last_map hd_map hd_rev last_rev hd_upto last_upto adjacent_def\<close>)
qed

lemma successively_spiral: "successively adjacent (spiral k n)"
proof (induction k n rule: spiral.induct)
  case (1 k n)
  show ?case
  proof (cases "n \<le> 0")
    case True
    then show ?thesis by (subst spiral.simps) simp
  next
    case False
    have "spiral (k + 1) (n - 2) = [] \<or> (1 < n \<and> hd (spiral (k + 1) (n - 2)) = (k + 1, k + 1))"
      using ring_ends [of "n - 2" "k + 1"] by (subst (1 2) spiral.simps) auto
    with 1 False successively_ring [of k n] ring_ends [of n k] show ?thesis
      by (subst spiral.simps) (auto simp: successively_append_iff adjacent_def)
  qed
qed

text \<open>A round of the program writes a ring, and goes on with the square inside of it.\<close>

lemma ulitka_round_ring:
  "ulitka_round N \<lparr>u_matrix = m, num = p, top = k, bottom = k + n, left = k, right = k + n\<rparr> =
     (case fill N (ring k n) p m of
        None \<Rightarrow> None
      | Some (m', p') \<Rightarrow> Some \<lparr>u_matrix = m', num = p', top = k + 1, bottom = k + n - 1, left = k + 1, right = k + n - 1\<rparr>)"
  by (auto simp: ulitka_round_def ring_def fill_append Let_def diff_diff_eq algebra_simps split: option.splits)

lemma ulitka_loop_spiral:
  assumes "0 \<le> k" "0 \<le> n" "k + n \<le> N" "N * N < INT_MAX"
  shows "\<exists>u. ulitka_loop N \<lparr>u_matrix = m, num = N * N - n * n + 1, top = k, bottom = k + n, left = k, right = k + n\<rparr> = Some u \<and>
           fill N (spiral k n) (N * N - n * n + 1) m = Some (u_matrix u, N * N + 1)"
  using assms
proof (induction k n arbitrary: m rule: spiral.induct)
  case (1 k n)
  have "INT_MIN \<le> N * N" by (rule order_trans [of _ 0]) (simp_all add: INT_MIN_def)
  then have square: "int_expr (N * N) = Some (N * N)" using 1(5) by (simp add: int_expr_def)
  show ?case
  proof (cases "n = 0")
    case True
    then show ?thesis by (subst ulitka_loop.simps) (simp add: square spiral.simps)
  next
    case False
    with 1 have n: "0 < n" by simp
    have "\<forall>c \<in> set (ring k n). in_square 0 N c" using set_ring [OF n] 1 by (auto simp: in_square_def)
    moreover have "n * n \<le> N * N" using n 1(2,4) by (intro mult_mono) auto
    then have "0 \<le> N * N - n * n + 1" by simp
    moreover have "N * N - n * n + 1 + int (length (ring k n)) \<le> INT_MAX"
      using length_ring [of n k] n 1(5) zero_le_square [of "n - 2"] by (auto simp: algebra_simps split: if_splits)
    ultimately obtain m' where
      f: "fill N (ring k n) (N * N - n * n + 1) m = Some (m', N * N - n * n + 1 + int (length (ring k n)))"
      using fill_distinct [OF _ distinct_ring, of k n N "N * N - n * n + 1" m] by blast
    have s: "spiral k n = ring k n @ spiral (k + 1) (n - 2)" using n by (subst spiral.simps) simp
    have go: "ulitka_loop N \<lparr>u_matrix = m, num = N * N - n * n + 1, top = k, bottom = k + n, left = k, right = k + n\<rparr> =
        ulitka_loop N \<lparr>u_matrix = m', num = N * N - n * n + 1 + int (length (ring k n)),
          top = k + 1, bottom = k + n - 1, left = k + 1, right = k + n - 1\<rparr>"
    proof -
      have "0 < n * n" using n by simp
      then show ?thesis using f by (subst ulitka_loop.simps) (simp add: square ulitka_round_ring)
    qed
    show ?thesis
    proof (cases "n = 1")
      case True
      then have "spiral (k + 1) (n - 2) = []" by (subst spiral.simps) simp
      with True f s go length_ring [of n k] show ?thesis
        by (simp, subst ulitka_loop.simps) (simp add: square)
    next
      case False
      then have l: "N * N - n * n + 1 + int (length (ring k n)) = N * N - (n - 2) * (n - 2) + 1"
        using n length_ring [of n k] by (simp add: algebra_simps)
      have e: "k + 1 + (n - 2) = k + n - 1" by simp
      from 1(1) [of m'] 1(2-5) n False obtain u where
        "ulitka_loop N \<lparr>u_matrix = m', num = N * N - (n - 2) * (n - 2) + 1, top = k + 1, bottom = k + 1 + (n - 2),
           left = k + 1, right = k + 1 + (n - 2)\<rparr> = Some u"
        "fill N (spiral (k + 1) (n - 2)) (N * N - (n - 2) * (n - 2) + 1) m' = Some (u_matrix u, N * N + 1)"
        by auto
      then show ?thesis unfolding go s fill_append f l e by simp
    qed
  qed
qed

text \<open>
  Property C12. For every positive \<open>N\<close> up to 46340 (whose square is an \<open>int\<close>) typed after choice 3, on a stack
  that holds the matrix, the loops of \<open>ulitka\<close> end and stay inside of the matrix, and the matrix is
  printed. They write the numbers 1, 2, \<dots>, \<open>N * N\<close> along a path that starts in the corner, moves one
  cell at a time, and visits every cell of the matrix exactly once.
\<close>

theorem ulitka_correct:
  assumes "0 < N" "N \<le> 46340" "4 * (N * N) \<le> stack"
  shows "\<exists>m path. massives_main stack N0 memory (show_int 3 @ NL # show_int N @ NL # rest) = Some (Rows (matrix_rows N m)) \<and>
           ulitka_fill N = Some m \<and> int (length path) = N * N \<and> distinct path \<and>
           set path = {0 ..< N} \<times> {0 ..< N} \<and> hd path = (0, 0) \<and> successively adjacent path \<and>
           (\<forall>i < length path. m (path ! i) = Some (int i + 1))"
proof -
  let ?p = "spiral 0 N"
  have "N * N \<le> 46340 * 46340" using assms by (intro mult_mono) auto
  then have sq: "N * N < INT_MAX" by (simp add: INT_MAX_def)
  then obtain u where u: "ulitka_loop N \<lparr>u_matrix = Map.empty, num = 1, top = 0, bottom = N, left = 0, right = N\<rparr> = Some u"
    "fill N ?p 1 Map.empty = Some (u_matrix u, N * N + 1)"
    using ulitka_loop_spiral [of 0 N N Map.empty] assms by auto
  have len: "int (length ?p) = N * N" using length_spiral [of N 0] assms by simp
  have "\<forall>c \<in> set ?p. in_square 0 N c" by (simp add: set_spiral)
  from fill_distinct [OF this distinct_spiral, of 1 Map.empty] u(2) len sq
  have "\<forall>i < length ?p. u_matrix u (?p ! i) = Some (int i + 1)" by (auto simp: add.commute)
  moreover have "set ?p = {0 ..< N} \<times> {0 ..< N}" by (auto simp: set_spiral in_square_def)
  moreover have "hd ?p = (0, 0)"
    using assms ring_ends [of N 0] by (subst spiral.simps) (simp add: hd_append)
  moreover have fill: "ulitka_fill N = Some (u_matrix u)" using u(1) by (simp add: ulitka_fill_def)
  moreover have "scan_number 0 (show_int 3 @ NL # show_int N @ NL # rest) = (3, NL # show_int N @ NL # rest)"
    by (simp add: scan_number_def scanf_d_show_int INT_MIN_def INT_MAX_def)
  then have "massives_main stack N0 memory (show_int 3 @ NL # show_int N @ NL # rest) = Some (Rows (matrix_rows N (u_matrix u)))"
    using assms fill scan_number_typed [of N N0 rest]
    by (simp add: massives_main_def ulitka_def on_stack_def INT_MIN_def INT_MAX_def)
  ultimately show ?thesis
    using len distinct_spiral successively_spiral by (intro exI [of _ "u_matrix u"] exI [of _ ?p] conjI) simp_all
qed

theorem ulitka_correct_witness:
  "\<exists>m path. massives_main 8388608 0 (\<lambda>i. 0) (show_int 3 @ NL # show_int 5 @ [NL]) = Some (Rows (matrix_rows 5 m)) \<and>
     ulitka_fill 5 = Some m \<and> int (length path) = 25 \<and> distinct path \<and> hd path = (0, 0) \<and>
     (\<forall>i < length path. m (path ! i) = Some (int i + 1))"
  using ulitka_correct [of 5 8388608 0 "\<lambda>i. 0" "[]"] by auto

text \<open>From 46341 on the condition of the loop is undefined: \<open>N * N\<close> is no \<open>int\<close>.\<close>

lemma ulitka_overflows: "46341 \<le> N \<Longrightarrow> ulitka_fill N = None"
proof -
  assume N: "46341 \<le> N"
  then have "46341 * 46341 \<le> N * N" by (intro mult_mono) auto
  then have "int_expr (N * N) = None" by (simp add: int_expr_def INT_MAX_def)
  then show ?thesis unfolding ulitka_fill_def by (subst ulitka_loop.simps) simp
qed

text \<open>The triangle has ones from the anti-diagonal on.\<close>

lemma triangle_row_eq:
  "0 \<le> buf \<Longrightarrow> triangle_row j buf row = replicate (j - nat buf) 0 @ replicate (min j (nat buf)) 1 @ row"
proof (induction j buf row rule: triangle_row.induct)
  case (2 j buf row)
  show ?case
  proof (cases "buf > 0")
    case True
    with 2 have "triangle_row j (buf - 1) (1 # row) =
        replicate (j - nat (buf - 1)) 0 @ replicate (min j (nat (buf - 1))) 1 @ 1 # row" by simp
    moreover have "nat buf = Suc (nat (buf - 1))" using True by simp
    ultimately show ?thesis using True by (simp add: replicate_app_Cons_same)
  next
    case False
    with 2 show ?thesis by (simp add: replicate_app_Cons_same)
  qed
qed simp

lemma triangles_entries:
  assumes "0 \<le> i" "i < N" "j < nat N"
  shows "triangle_rows N ! nat i ! j = (if N - 1 - i \<le> int j then 1 else 0)"
proof -
  have "triangle_rows N ! nat i = triangle_row (nat N) (i + 1) []"
    using assms by (simp add: triangle_rows_def)
  then show ?thesis using assms by (auto simp: triangle_row_eq nth_append)
qed

end
