(* ===== verification/File_Manager.thy ===== *)
theory File_Manager
  imports C_Prelude
begin

text \<open>
  The two-panel file manager \<open>virtual_fs/nedomc.c\<close>. A panel keeps pointers to the names it has allocated with
  \<open>strdup\<close>; the heap maps the addresses of live allocations to the names. Reading or freeing through a pointer
  that is not live is a fault, so that a missing, a repeated and a too early \<open>free\<close> can all be told: the
  first leaves an allocation behind, the others fault. The directories are outside: what \<open>opendir\<close> and \<open>readdir\<close>
  list (\<open>None\<close> when the directory cannot be opened), what \<open>stat\<close> says and what \<open>realpath\<close> does, are the
  functions of \<open>fs\<close>, which every round gets anew.
\<close>

section \<open>State and operations\<close>

definition MAX_FILES :: nat where "MAX_FILES = 1024"
definition PATH_MAX :: nat where "PATH_MAX = 4096"

type_synonym names = "nat \<rightharpoonup> string"

text \<open>\<open>files\<close> are the first \<open>count\<close> elements of the two arrays: a pointer and whether it is a directory.\<close>

record panel =
  files :: "(nat \<times> bool) list"
  selected :: nat
  path :: string

text \<open>\<open>unresolved\<close> is what a failed \<open>realpath\<close> leaves in its buffer, from the path and what the buffer held.\<close>

record fs =
  listing :: "string \<Rightarrow> string list option"
  is_directory :: "string \<Rightarrow> bool"
  realpath :: "string \<Rightarrow> string option"
  unresolved :: "string \<Rightarrow> string \<Rightarrow> string"

datatype fm_fault = Freed | Freed_twice | Null | Bad_index

text \<open>\<open>m\<close> is the answer of the allocation in \<open>strdup\<close> on the current heap; without memory the pointer is NULL.\<close>

definition strdup :: "(names \<Rightarrow> nat option) \<Rightarrow> string \<Rightarrow> names \<Rightarrow> names \<times> nat" where
  "strdup m s h = (case m h of None \<Rightarrow> (h, 0) | Some a \<Rightarrow> (h(a \<mapsto> s), a))"

definition read_name :: "names \<Rightarrow> nat \<Rightarrow> fm_fault + string" where
  "read_name h a = (if a = 0 then Inl Null else case h a of None \<Rightarrow> Inl Freed | Some s \<Rightarrow> Inr s)"

text \<open>The loop over \<open>readdir\<close>; \<open>dir\<close> is the path it puts in front of the entries.\<close>

fun read_entries ::
  "(names \<Rightarrow> nat option) \<Rightarrow> fs \<Rightarrow> string \<Rightarrow> string list \<Rightarrow> (nat \<times> bool) list \<Rightarrow> names \<Rightarrow> names \<times> (nat \<times> bool) list" where
  "read_entries m f dir [] fl h = (h, fl)"
| "read_entries m f dir (d_name # names) fl h =
     (if length fl < MAX_FILES then
        if d_name = ''.'' \<or> d_name = ''..'' then read_entries m f dir names fl h
        else
          (let (h', a) = strdup m d_name h;
               fullpath = take (PATH_MAX - 1) (dir @ ''/'' @ d_name)
           in read_entries m f dir names (fl @ [(a, is_directory f fullpath)]) h')
      else (h, fl))"

text \<open>
  The path that \<open>load_dir\<close> is given: a string of its own, or the panel's buffer itself, which \<open>realpath\<close> then
  overwrites before the entries are read.
\<close>

datatype path_arg = Buffer string | Own_path

fun arg_path :: "path_arg \<Rightarrow> panel \<Rightarrow> string" where
  "arg_path (Buffer s) p = s"
| "arg_path Own_path p = path p"

definition load_dir :: "(names \<Rightarrow> nat option) \<Rightarrow> fs \<Rightarrow> path_arg \<Rightarrow> panel \<Rightarrow> names \<Rightarrow> names \<times> panel" where
  "load_dir m f arg p h =
     (case listing f (arg_path arg p) of
        None \<Rightarrow> (h, p)
      | Some names \<Rightarrow>
          (let p1 = p\<lparr>path := (case realpath f (arg_path arg p) of
                                Some r \<Rightarrow> r | None \<Rightarrow> unresolved f (arg_path arg p) (path p))\<rparr>;
               (h1, up) = strdup m ''..'' h;
               (h2, fl) = read_entries m f (arg_path arg p1) names [(up, True)] h1
           in (h2, p1\<lparr>files := fl, selected := 0\<rparr>)))"

fun free_names :: "(nat \<times> bool) list \<Rightarrow> names \<Rightarrow> fm_fault + names" where
  "free_names [] h = Inr h"
| "free_names ((a, d) # fl) h =
     (if a = 0 then free_names fl h
      else if h a = None then Inl Freed_twice
      else free_names fl (h(a := None)))"

definition free_panel :: "panel \<Rightarrow> names \<Rightarrow> fm_fault + names" where
  "free_panel p h = free_names (files p) h"

text \<open>\<open>draw_panel\<close> on a screen of \<open>lines\<close> lines: the names it prints, with a slash behind directories.\<close>

fun draw_files :: "(nat \<times> bool) list \<Rightarrow> names \<Rightarrow> fm_fault + string list" where
  "draw_files [] h = Inr []"
| "draw_files ((a, d) # fl) h =
     (case read_name h a of
        Inl e \<Rightarrow> Inl e
      | Inr n \<Rightarrow>
          (case draw_files fl h of Inl e \<Rightarrow> Inl e | Inr out \<Rightarrow> Inr ((if d then n @ ''/'' else n) # out)))"

definition draw_panel :: "nat \<Rightarrow> panel \<Rightarrow> names \<Rightarrow> fm_fault + string list" where
  "draw_panel lines p h = draw_files (take (lines - 2) (files p)) h"

text \<open>The path cut at its last slash (\<open>strrchr\<close>), and \<open>/\<close> when that is its first character or there is none.\<close>

definition parent :: "string \<Rightarrow> string" where
  "parent s =
     (let q = dropWhile (\<lambda>c. c \<noteq> CHR ''/'') (rev s)
      in if length q \<le> 1 then ''/'' else rev (tl q))"

record manager =
  memory :: names
  left_panel :: panel
  right_panel :: panel
  active :: bool

datatype key = Quit | Tab | Up | Down | Enter | Other_key

definition current :: "manager \<Rightarrow> panel" where
  "current g = (if active g then right_panel g else left_panel g)"

definition set_current :: "panel \<Rightarrow> manager \<Rightarrow> manager" where
  "set_current p g = (if active g then g\<lparr>right_panel := p\<rparr> else g\<lparr>left_panel := p\<rparr>)"

definition child :: "string \<Rightarrow> string \<Rightarrow> string" where
  "child dir n = take (PATH_MAX - 1) (dir @ ''/'' @ n)"

text \<open>Enter on the selected entry; a file is shown by another program, which leaves the panel alone.\<close>

definition enter_entry :: "(names \<Rightarrow> nat option) \<Rightarrow> fs \<Rightarrow> panel \<Rightarrow> names \<Rightarrow> fm_fault + names \<times> panel" where
  "enter_entry m f p h =
     (if length (files p) \<le> selected p then Inl Bad_index
      else
        (case read_name h (fst (files p ! selected p)) of
           Inl e \<Rightarrow> Inl e
         | Inr n \<Rightarrow>
             if n = ''..'' then
               (let p' = p\<lparr>path := parent (path p)\<rparr>
                in case free_panel p' h of Inl e \<Rightarrow> Inl e | Inr h' \<Rightarrow> Inr (load_dir m f Own_path p' h'))
             else if snd (files p ! selected p) then
               (let newpath = child (path p) n
                in case free_panel p h of Inl e \<Rightarrow> Inl e | Inr h' \<Rightarrow> Inr (load_dir m f (Buffer newpath) p h'))
             else Inr (h, p)))"

text \<open>A round of \<open>main\<close>; the flag is False when it leaves the loop.\<close>

definition fm_round :: "(names \<Rightarrow> nat option) \<Rightarrow> nat \<Rightarrow> fs \<Rightarrow> key \<Rightarrow> manager \<Rightarrow> fm_fault + bool \<times> manager" where
  "fm_round m lines f k g =
     (case draw_panel lines (left_panel g) (memory g) of Inl e \<Rightarrow> Inl e | Inr _ \<Rightarrow>
      case draw_panel lines (right_panel g) (memory g) of Inl e \<Rightarrow> Inl e | Inr _ \<Rightarrow>
        (let p = current g
         in case k of
              Quit \<Rightarrow> Inr (False, g)
            | Tab \<Rightarrow> Inr (True, g\<lparr>active := \<not> active g\<rparr>)
            | Up \<Rightarrow> Inr (True, if selected p > 0 then set_current (p\<lparr>selected := selected p - 1\<rparr>) g else g)
            | Down \<Rightarrow> Inr (True, if Suc (selected p) < length (files p)
                                then set_current (p\<lparr>selected := selected p + 1\<rparr>) g else g)
            | Enter \<Rightarrow>
                (case enter_entry m f p (memory g) of
                   Inl e \<Rightarrow> Inl e
                 | Inr (h, p') \<Rightarrow> Inr (True, (set_current p' g)\<lparr>memory := h\<rparr>))
            | Other_key \<Rightarrow> Inr (True, g)))"

text \<open>The rounds of \<open>main\<close>, each with the lines of the screen, the file system and the key it meets.\<close>

fun fm_rounds :: "(names \<Rightarrow> nat option) \<Rightarrow> (nat \<times> fs \<times> key) list \<Rightarrow> manager \<Rightarrow> fm_fault + bool \<times> manager" where
  "fm_rounds m [] g = Inr (True, g)"
| "fm_rounds m ((lines, f, k) # es) g =
     (case fm_round m lines f k g of
        Inl e \<Rightarrow> Inl e
      | Inr (True, g') \<Rightarrow> fm_rounds m es g'
      | Inr (False, g') \<Rightarrow> Inr (False, g'))"

text \<open>The start of \<open>main\<close>; the panels are uninitialised variables on the stack.\<close>

definition fm_start :: "(names \<Rightarrow> nat option) \<Rightarrow> fs \<Rightarrow> panel \<Rightarrow> panel \<Rightarrow> manager" where
  "fm_start m f l r =
     (let (h1, l') = load_dir m f (Buffer ''.'') l Map.empty;
          (h2, r') = load_dir m f (Buffer ''.'') r h1
      in \<lparr>memory = h2, left_panel = l', right_panel = r', active = False\<rparr>)"

text \<open>\<open>main\<close>: the start, the rounds, and \<open>free_panel\<close> for both panels when the loop is left (the flag is False).\<close>

definition fm_main ::
  "(names \<Rightarrow> nat option) \<Rightarrow> fs \<Rightarrow> panel \<Rightarrow> panel \<Rightarrow> (nat \<times> fs \<times> key) list \<Rightarrow> fm_fault + bool \<times> manager" where
  "fm_main m f l r es =
     (case fm_rounds m es (fm_start m f l r) of
        Inl e \<Rightarrow> Inl e
      | Inr (True, g) \<Rightarrow> Inr (True, g)
      | Inr (False, g) \<Rightarrow>
          (case free_panel (left_panel g) (memory g) of
             Inl e \<Rightarrow> Inl e
           | Inr h1 \<Rightarrow>
               (case free_panel (right_panel g) h1 of
                  Inl e \<Rightarrow> Inl e
                | Inr h2 \<Rightarrow> Inr (False, g\<lparr>memory := h2\<rparr>))))"

section \<open>Names in the heap\<close>

definition pointers :: "panel \<Rightarrow> nat list" where
  "pointers p = map fst (files p)"

text \<open>There is memory, at a new address, as long as the heap is finite.\<close>

definition strdup_ok :: "(names \<Rightarrow> nat option) \<Rightarrow> bool" where
  "strdup_ok m = (\<forall>h. finite (dom h) \<longrightarrow> (\<exists>a. m h = Some a \<and> a \<noteq> 0 \<and> h a = None))"

text \<open>The entries of a directory that a panel has room for behind \<open>..\<close>.\<close>

definition shown_entries :: "nat \<Rightarrow> string list \<Rightarrow> string list" where
  "shown_entries room names = take room (filter (\<lambda>n. n \<noteq> ''.'' \<and> n \<noteq> ''..'') names)"

lemma strdup_alloc:
  assumes "strdup_ok m" "finite (dom h)"
  obtains a where "strdup m s h = (h(a \<mapsto> s), a)" "a \<noteq> 0" "h a = None"
proof -
  obtain a where "m h = Some a" "a \<noteq> 0" "h a = None" using assms by (auto simp: strdup_ok_def)
  then show thesis by (intro that [of a]) (simp_all add: strdup_def)
qed

lemma read_entries_alloc:
  assumes "strdup_ok m"
  shows "length fl \<le> MAX_FILES \<Longrightarrow> finite (dom h) \<Longrightarrow> \<exists>h' new. read_entries m f dir names fl h = (h', fl @ new) \<and>
    length (fl @ new) \<le> MAX_FILES \<and> distinct (map fst new) \<and> 0 \<notin> set (map fst new) \<and> set (map fst new) \<inter> dom h = {} \<and>
    dom h' = dom h \<union> set (map fst new) \<and> (\<forall>a \<in> dom h. h' a = h a) \<and>
    map (\<lambda>(a, d). h' a) new = map Some (shown_entries (MAX_FILES - length fl) names)"
proof (induction names arbitrary: fl h)
  case Nil
  then show ?case by (auto simp: shown_entries_def)
next
  case (Cons n names)
  consider "MAX_FILES = length fl" | "length fl < MAX_FILES" "n = ''.'' \<or> n = ''..''"
    | "length fl < MAX_FILES" "n \<noteq> ''.''" "n \<noteq> ''..''"
    using Cons.prems by linarith
  then show ?case
  proof cases
    case 1
    then show ?thesis by (auto simp: shown_entries_def)
  next
    case 2
    with Cons show ?thesis by (auto simp: shown_entries_def)
  next
    case 3
    obtain a where a: "strdup m n h = (h(a \<mapsto> n), a)" "a \<noteq> 0" "h a = None" using strdup_alloc [OF assms Cons.prems(2)] .
    let ?d = "is_directory f (take (PATH_MAX - 1) (dir @ ''/'' @ n))"
    have "length (fl @ [(a, ?d)]) \<le> MAX_FILES" "finite (dom (h(a \<mapsto> n)))" using 3(1) Cons.prems(2) by simp_all
    from Cons.IH [OF this] obtain h' new where new:
      "read_entries m f dir names (fl @ [(a, ?d)]) (h(a \<mapsto> n)) = (h', (fl @ [(a, ?d)]) @ new)"
      "length ((fl @ [(a, ?d)]) @ new) \<le> MAX_FILES" "distinct (map fst new)" "0 \<notin> set (map fst new)"
      "set (map fst new) \<inter> dom (h(a \<mapsto> n)) = {}" "dom h' = dom (h(a \<mapsto> n)) \<union> set (map fst new)"
      "\<forall>c \<in> dom (h(a \<mapsto> n)). h' c = (h(a \<mapsto> n)) c"
      "map (\<lambda>(a, d). h' a) new = map Some (shown_entries (MAX_FILES - length (fl @ [(a, ?d)])) names)"
      by (elim exE conjE) (rule that)
    have "read_entries m f dir (n # names) fl h = (h', fl @ (a, ?d) # new)"
      using 3 a(1) new(1) by (simp add: Let_def)
    moreover have "distinct (map fst ((a, ?d) # new))" "0 \<notin> set (map fst ((a, ?d) # new))"
      "set (map fst ((a, ?d) # new)) \<inter> dom h = {}" "dom h' = dom h \<union> set (map fst ((a, ?d) # new))"
      using new(3-6) a(2,3) by auto
    moreover have "\<forall>c \<in> dom h. h' c = h c" using new(7) a(3) by auto
    moreover have "h' a = Some n" using new(7) by simp
    have "map (\<lambda>(a, d). h' a) ((a, ?d) # new) = map Some (shown_entries (MAX_FILES - length fl) (n # names))"
    proof -
      have "MAX_FILES - length fl = Suc (MAX_FILES - Suc (length fl))" using 3(1) by simp
      with new(8) 3(2,3) \<open>h' a = Some n\<close> show ?thesis by (simp add: shown_entries_def)
    qed
    ultimately show ?thesis using new(2) by (intro exI [of _ h'] exI [of _ "(a, ?d) # new"]) simp
  qed
qed

text \<open>
  A panel that has been loaded: its names are new allocations, the first is \<open>..\<close>, the others are the entries of
  the directory as far as there is room.
\<close>

lemma load_dir_alloc:
  assumes m: "strdup_ok m" and l: "listing f (arg_path arg p) = Some names" and fin: "finite (dom h)"
  obtains h' p' where "load_dir m f arg p h = (h', p')" "selected p' = 0" "0 < length (files p')" "length (files p') \<le> MAX_FILES"
    "distinct (pointers p')" "0 \<notin> set (pointers p')" "set (pointers p') \<inter> dom h = {}" "dom h' = dom h \<union> set (pointers p')"
    "\<forall>a \<in> dom h. h' a = h a" "snd (hd (files p'))" "h' (fst (hd (files p'))) = Some ''..''"
    "map h' (pointers p') = map Some (''..'' # shown_entries (MAX_FILES - 1) names)"
    "path p' = (case realpath f (arg_path arg p) of Some r \<Rightarrow> r | None \<Rightarrow> unresolved f (arg_path arg p) (path p))"
proof -
  obtain a where a: "strdup m ''..'' h = (h(a \<mapsto> ''..''), a)" "a \<noteq> 0" "h a = None" using strdup_alloc [OF m fin] .
  let ?p1 = "p\<lparr>path := (case realpath f (arg_path arg p) of Some r \<Rightarrow> r | None \<Rightarrow> unresolved f (arg_path arg p) (path p))\<rparr>"
  obtain h' new where new:
    "read_entries m f (arg_path arg ?p1) names [(a, True)] (h(a \<mapsto> ''..'')) = (h', [(a, True)] @ new)"
    "length ([(a, True)] @ new) \<le> MAX_FILES" "distinct (map fst new)" "0 \<notin> set (map fst new)"
    "set (map fst new) \<inter> dom (h(a \<mapsto> ''..'')) = {}" "dom h' = dom (h(a \<mapsto> ''..'')) \<union> set (map fst new)"
    "\<forall>c \<in> dom (h(a \<mapsto> ''..'')). h' c = (h(a \<mapsto> ''..'')) c"
    "map (\<lambda>(a, d). h' a) new = map Some (shown_entries (MAX_FILES - length [(a, True)]) names)"
  proof -
    have "length [(a, True)] \<le> MAX_FILES" "finite (dom (h(a \<mapsto> ''..'')))" using fin by (simp_all add: MAX_FILES_def)
    from read_entries_alloc [OF m this, of f "arg_path arg ?p1" names] show thesis
      by (elim exE conjE) (rule that)
  qed
  let ?p = "?p1\<lparr>files := (a, True) # new, selected := 0\<rparr>"
  have ld: "load_dir m f arg p h = (h', ?p)" using l a(1) new(1) by (simp add: load_dir_def Let_def)
  have nm: "map h' (pointers ?p) = map Some (''..'' # shown_entries (MAX_FILES - 1) names)"
    using new(7,8) by (simp add: pointers_def case_prod_unfold comp_def)
  show thesis
  proof (rule that [OF ld])
    show "distinct (pointers ?p)" "0 \<notin> set (pointers ?p)" "set (pointers ?p) \<inter> dom h = {}" "dom h' = dom h \<union> set (pointers ?p)"
      using new(3-6) a(2,3) by (auto simp: pointers_def)
    show "\<forall>c \<in> dom h. h' c = h c" "h' (fst (hd (files ?p))) = Some ''..''" using new(7) a(3) by auto
  qed (use new(2) nm in simp_all)
qed

lemma free_names_all:
  "distinct (map fst fl) \<Longrightarrow> 0 \<notin> set (map fst fl) \<Longrightarrow> set (map fst fl) \<subseteq> dom h \<Longrightarrow>
     free_names fl h = Inr (\<lambda>a. if a \<in> set (map fst fl) then None else h a)"
proof (induction fl arbitrary: h)
  case (Cons x fl)
  obtain a d where x: "x = (a, d)" by (cases x)
  have "set (map fst fl) \<subseteq> dom (h(a := None))" using Cons.prems x by auto
  from Cons.IH [OF _ _ this] Cons.prems x have
    "free_names (x # fl) h = Inr (\<lambda>c. if c \<in> set (map fst fl) then None else (h(a := None)) c)"
    by (auto simp del: fun_upd_apply)
  also have "(\<lambda>c. if c \<in> set (map fst fl) then None else (h(a := None)) c) =
      (\<lambda>c. if c \<in> set (map fst (x # fl)) then None else h c)"
    using x by (auto simp: fun_eq_iff)
  finally show ?case .
qed simp

lemma draw_files_ok:
  "0 \<notin> set (map fst fl) \<Longrightarrow> set (map fst fl) \<subseteq> dom h \<Longrightarrow> \<exists>out. draw_files fl h = Inr out"
  by (induction fl) (auto simp: read_name_def)

section \<open>The state between rounds\<close>

text \<open>A panel of which the selection is on an entry and the first entry is \<open>..\<close>.\<close>

definition panel_ok :: "names \<Rightarrow> panel \<Rightarrow> bool" where
  "panel_ok h p =
     (selected p < length (files p) \<and> length (files p) \<le> MAX_FILES \<and> snd (hd (files p)) \<and> h (fst (hd (files p))) = Some ''..'')"

text \<open>The live names are those of the two panels, each pointed to once.\<close>

definition manager_ok :: "manager \<Rightarrow> bool" where
  "manager_ok g =
     (panel_ok (memory g) (left_panel g) \<and> panel_ok (memory g) (right_panel g) \<and>
      distinct (pointers (left_panel g) @ pointers (right_panel g)) \<and>
      0 \<notin> set (pointers (left_panel g) @ pointers (right_panel g)) \<and>
      dom (memory g) = set (pointers (left_panel g) @ pointers (right_panel g)))"

text \<open>The same for a panel and the names of the other one.\<close>

definition holds :: "names \<Rightarrow> panel \<Rightarrow> nat set \<Rightarrow> bool" where
  "holds h p R =
     (panel_ok h p \<and> distinct (pointers p) \<and> 0 \<notin> set (pointers p) \<and> set (pointers p) \<inter> R = {} \<and> dom h = set (pointers p) \<union> R \<and> finite R)"

lemma free_panel_holds:
  "holds h p R \<Longrightarrow> \<exists>h'. free_panel p h = Inr h' \<and> dom h' = R \<and> (\<forall>a \<in> R. h' a = h a)"
proof -
  assume p: "holds h p R"
  then have "free_panel p h = Inr (\<lambda>a. if a \<in> set (pointers p) then None else h a)"
    unfolding free_panel_def pointers_def by (intro free_names_all) (auto simp: holds_def pointers_def)
  moreover have "dom (\<lambda>a. if a \<in> set (pointers p) then None else h a) = dom h - set (pointers p)"
    by (auto simp: dom_def)
  moreover have "dom h - set (pointers p) = R" "\<forall>a \<in> R. a \<notin> set (pointers p)" using p by (auto simp: holds_def)
  ultimately show ?thesis by auto
qed

lemma load_dir_holds:
  assumes "strdup_ok m" "listing f (arg_path arg p) = Some names" "dom h = R" "finite R"
  obtains h' p' where "load_dir m f arg p h = (h', p')" "holds h' p' R" "\<forall>a \<in> R. h' a = h a"
    "path p' = (case realpath f (arg_path arg p) of Some r \<Rightarrow> r | None \<Rightarrow> unresolved f (arg_path arg p) (path p))"
    "map h' (pointers p') = map Some (''..'' # shown_entries (MAX_FILES - 1) names)" "selected p' = 0"
proof -
  obtain h' p' where p': "load_dir m f arg p h = (h', p')" "selected p' = 0" "0 < length (files p')" "length (files p') \<le> MAX_FILES"
    "distinct (pointers p')" "0 \<notin> set (pointers p')" "set (pointers p') \<inter> dom h = {}" "dom h' = dom h \<union> set (pointers p')"
    "\<forall>a \<in> dom h. h' a = h a" "snd (hd (files p'))" "h' (fst (hd (files p'))) = Some ''..''"
    "map h' (pointers p') = map Some (''..'' # shown_entries (MAX_FILES - 1) names)"
    "path p' = (case realpath f (arg_path arg p) of Some r \<Rightarrow> r | None \<Rightarrow> unresolved f (arg_path arg p) (path p))"
    using load_dir_alloc [OF assms(1,2), of h] assms(3,4) by auto
  then have "holds h' p' R" using assms(3,4) by (auto simp: holds_def panel_ok_def)
  with p' assms(3) show thesis by (intro that [of h' p']) simp_all
qed

text \<open>The path that Enter opens from a panel: \<open>None\<close> on a file.\<close>

definition destination :: "names \<Rightarrow> panel \<Rightarrow> string option" where
  "destination h p =
     (case h (fst (files p ! selected p)) of
        None \<Rightarrow> None
      | Some n \<Rightarrow>
          if n = ''..'' then Some (parent (path p))
          else if snd (files p ! selected p) then Some (child (path p) n) else None)"

lemma selected_name:
  assumes "holds h p R"
  obtains n where "h (fst (files p ! selected p)) = Some n" "read_name h (fst (files p ! selected p)) = Inr n" "selected p < length (files p)"
proof -
  have s: "selected p < length (files p)" using assms by (simp add: holds_def panel_ok_def)
  then have "fst (files p ! selected p) \<in> set (pointers p)" by (simp add: pointers_def)
  then have "fst (files p ! selected p) \<in> dom h" "fst (files p ! selected p) \<noteq> 0" using assms by (auto simp: holds_def)
  then show thesis using s that by (auto simp: read_name_def)
qed

text \<open>Enter: nothing on a file; otherwise the panel's names are freed, and new ones are there when the directory opens.\<close>

lemma enter_entry_holds:
  assumes m: "strdup_ok m" and p: "holds h p R"
  shows "destination h p = None \<Longrightarrow> enter_entry m f p h = Inr (h, p)"
    and "destination h p = Some dir \<Longrightarrow> listing f dir \<noteq> None \<Longrightarrow>
      \<exists>h' p'. enter_entry m f p h = Inr (h', p') \<and> holds h' p' R \<and> (\<forall>a \<in> R. h' a = h a) \<and> selected p' = 0 \<and>
        map h' (pointers p') = map Some (''..'' # shown_entries (MAX_FILES - 1) (the (listing f dir))) \<and>
        (realpath f dir \<noteq> None \<longrightarrow> path p' = the (realpath f dir))"
    and "destination h p = Some dir \<Longrightarrow> listing f dir = None \<Longrightarrow>
      \<exists>h' p'. enter_entry m f p h = Inr (h', p') \<and> dom h' = R \<and> (\<forall>a \<in> R. h' a = h a) \<and> files p' = files p"
proof -
  obtain n where n: "h (fst (files p ! selected p)) = Some n" "read_name h (fst (files p ! selected p)) = Inr n"
    "selected p < length (files p)" using selected_name [OF p] .
  obtain h1 where h1: "free_panel p h = Inr h1" "dom h1 = R" "\<forall>a \<in> R. h1 a = h a"
    using free_panel_holds [OF p] by blast
  have up: "free_panel (p\<lparr>path := d\<rparr>) h = Inr h1" for d using h1(1) by (simp add: free_panel_def)
  show "enter_entry m f p h = Inr (h, p)" if "destination h p = None"
    using that n by (simp add: destination_def enter_entry_def split: if_splits)
  define arg where "arg = (if n = ''..'' then Own_path else Buffer (child (path p) n))"
  define q where "q = (if n = ''..'' then p\<lparr>path := parent (path p)\<rparr> else p)"
  have e: "enter_entry m f p h = Inr (load_dir m f arg q h1)" "arg_path arg q = dir" "files q = files p"
    if "destination h p = Some dir" for dir
    using that n h1(1) up by (auto simp: destination_def enter_entry_def arg_def q_def Let_def split: if_splits)
  {
    assume d: "destination h p = Some dir" and l: "listing f dir \<noteq> None"
    then obtain names where l': "listing f (arg_path arg q) = Some names" "names = the (listing f dir)" using e(2) by auto
    obtain h' p' where "load_dir m f arg q h1 = (h', p')" "holds h' p' R" "\<forall>a \<in> R. h' a = h1 a"
      "path p' = (case realpath f (arg_path arg q) of Some r \<Rightarrow> r | None \<Rightarrow> unresolved f (arg_path arg q) (path q))"
      "map h' (pointers p') = map Some (''..'' # shown_entries (MAX_FILES - 1) names)" "selected p' = 0"
      using load_dir_holds [OF m l'(1) h1(2)] p by (auto simp: holds_def)
    then show "\<exists>h' p'. enter_entry m f p h = Inr (h', p') \<and> holds h' p' R \<and> (\<forall>a \<in> R. h' a = h a) \<and> selected p' = 0 \<and>
        map h' (pointers p') = map Some (''..'' # shown_entries (MAX_FILES - 1) (the (listing f dir))) \<and>
        (realpath f dir \<noteq> None \<longrightarrow> path p' = the (realpath f dir))"
      using e [OF d] h1(3) l'(2) by auto
  next
    assume d: "destination h p = Some dir" and l: "listing f dir = None"
    then have "load_dir m f arg q h1 = (h1, q)" using e(2) by (simp add: load_dir_def)
    then show "\<exists>h' p'. enter_entry m f p h = Inr (h', p') \<and> dom h' = R \<and> (\<forall>a \<in> R. h' a = h a) \<and> files p' = files p"
      using e(1,3) [OF d] h1(2,3) by auto
  }
qed

text \<open>The panels of a well-formed manager, the current one and the other one.\<close>

definition other :: "manager \<Rightarrow> panel" where
  "other g = (if active g then left_panel g else right_panel g)"

lemma manager_ok_iff:
  "manager_ok g \<longleftrightarrow> holds (memory g) (current g) (set (pointers (other g))) \<and> panel_ok (memory g) (other g) \<and>
     distinct (pointers (other g)) \<and> 0 \<notin> set (pointers (other g))"
  by (auto simp: manager_ok_def holds_def current_def other_def)

lemma set_current_simps [simp]:
  "current (set_current p g) = p" "other (set_current p g) = other g" "memory (set_current p g) = memory g"
  "current (g\<lparr>memory := h\<rparr>) = current g" "other (g\<lparr>memory := h\<rparr>) = other g"
  by (simp_all add: current_def other_def set_current_def)

lemma panel_ok_agree:
  assumes "panel_ok h p" "\<forall>a \<in> set (pointers p). h' a = h a"
  shows "panel_ok h' p"
proof -
  have "files p \<noteq> []" using assms(1) by (auto simp: panel_ok_def)
  then have "fst (hd (files p)) \<in> set (pointers p)" by (simp add: pointers_def)
  with assms show ?thesis by (simp add: panel_ok_def)
qed

lemma draw_panels_ok:
  assumes "manager_ok g"
  shows "\<exists>l r. draw_panel n (left_panel g) (memory g) = Inr l \<and> draw_panel n (right_panel g) (memory g) = Inr r"
proof -
  have "\<exists>out. draw_panel n p (memory g) = Inr out" if "0 \<notin> set (pointers p)" "set (pointers p) \<subseteq> dom (memory g)" for p
  proof -
    have "set (map fst (take (n - 2) (files p))) \<subseteq> set (pointers p)" by (auto simp: pointers_def dest: in_set_takeD)
    with that show ?thesis unfolding draw_panel_def by (intro draw_files_ok) blast+
  qed
  with assms show ?thesis by (simp add: manager_ok_def)
qed

text \<open>Every directory one enters in these rounds can be opened.\<close>

fun openable :: "(names \<Rightarrow> nat option) \<Rightarrow> (nat \<times> fs \<times> key) list \<Rightarrow> manager \<Rightarrow> bool" where
  "openable m [] g = True"
| "openable m ((lines, f, k) # es) g =
     ((k = Enter \<longrightarrow> (case destination (memory g) (current g) of None \<Rightarrow> True | Some dir \<Rightarrow> listing f dir \<noteq> None)) \<and>
      (case fm_round m lines f k g of Inr (True, g') \<Rightarrow> openable m es g' | _ \<Rightarrow> True))"

lemma manager_ok_selected:
  "manager_ok g \<Longrightarrow> i < length (files (current g)) \<Longrightarrow> manager_ok (set_current ((current g)\<lparr>selected := i\<rparr>) g)"
  by (simp add: manager_ok_iff holds_def panel_ok_def pointers_def)

lemma fm_round_ok:
  assumes m: "strdup_ok m" and ok: "manager_ok g"
    and opens: "k = Enter \<Longrightarrow> (case destination (memory g) (current g) of None \<Rightarrow> True | Some dir \<Rightarrow> listing f dir \<noteq> None)"
  shows "\<exists>b g'. fm_round m n f k g = Inr (b, g') \<and> manager_ok g'"
proof -
  obtain l r where d: "draw_panel n (left_panel g) (memory g) = Inr l" "draw_panel n (right_panel g) (memory g) = Inr r"
    using draw_panels_ok [OF ok] by blast
  note h = ok [unfolded manager_ok_iff]
  show ?thesis
  proof (cases k)
    case Enter
    show ?thesis
    proof (cases "destination (memory g) (current g)")
      case None
      from enter_entry_holds(1) [OF m conjunct1 [OF h] None, of f] d ok Enter show ?thesis
        by (auto simp: fm_round_def Let_def manager_ok_iff)
    next
      case (Some dir)
      with opens [OF Enter] have "listing f dir \<noteq> None" by simp
      from enter_entry_holds(2) [OF m conjunct1 [OF h] Some this] obtain h' p' where
        e: "enter_entry m f (current g) (memory g) = Inr (h', p')" "holds h' p' (set (pointers (other g)))"
        "\<forall>a \<in> set (pointers (other g)). h' a = memory g a" by blast
      then have "manager_ok ((set_current p' g)\<lparr>memory := h'\<rparr>)"
        using h panel_ok_agree [of "memory g" "other g" h'] by (simp add: manager_ok_iff)
      with e(1) d Enter show ?thesis by (auto simp: fm_round_def Let_def)
    qed
  next
    case Tab
    have "manager_ok (g\<lparr>active := \<not> active g\<rparr>)" using ok by (simp add: manager_ok_def)
    with d Tab show ?thesis by (auto simp: fm_round_def)
  next
    case Up
    then show ?thesis using d ok manager_ok_selected [OF ok, of "selected (current g) - 1"] h
      by (auto simp: fm_round_def Let_def holds_def panel_ok_def)
  next
    case Down
    then show ?thesis using d ok manager_ok_selected [OF ok, of "selected (current g) + 1"]
      by (auto simp: fm_round_def Let_def)
  qed (use d ok in \<open>auto simp: fm_round_def\<close>)
qed

lemma fm_rounds_ok:
  "strdup_ok m \<Longrightarrow> manager_ok g \<Longrightarrow> openable m es g \<Longrightarrow> \<exists>b g'. fm_rounds m es g = Inr (b, g') \<and> manager_ok g'"
proof (induction m es g rule: fm_rounds.induct)
  case (2 m n f k es g)
  then obtain b g' where r: "fm_round m n f k g = Inr (b, g')" "manager_ok g'"
    using fm_round_ok [of m g k f n] by auto
  show ?case
  proof (cases b)
    case True
    with 2 r show ?thesis by auto
  next
    case False
    with r show ?thesis by auto
  qed
qed auto

lemma load_dir_opens:
  assumes "strdup_ok m" "listing f (arg_path arg p) \<noteq> None" "dom h = R" "finite R"
  shows "\<exists>h' p'. load_dir m f arg p h = (h', p') \<and> holds h' p' R \<and> (\<forall>a \<in> R. h' a = h a)"
proof -
  obtain names where "listing f (arg_path arg p) = Some names" using assms(2) by blast
  from load_dir_holds [OF assms(1) this assms(3,4)] show ?thesis by metis
qed

lemma fm_start_ok:
  assumes m: "strdup_ok m" and l: "listing f ''.'' \<noteq> None"
  shows "manager_ok (fm_start m f l r)"
proof -
  have l': "listing f (arg_path (Buffer ''.'') p) \<noteq> None" for p using l by simp
  obtain h1 l' where a: "load_dir m f (Buffer ''.'') l Map.empty = (h1, l')" "holds h1 l' {}"
    using load_dir_opens [OF m l' dom_empty finite.emptyI] by blast
  then have d: "dom h1 = set (pointers l')" by (simp add: holds_def)
  obtain h2 r' where b: "load_dir m f (Buffer ''.'') r h1 = (h2, r')" "holds h2 r' (set (pointers l'))"
    "\<forall>c \<in> set (pointers l'). h2 c = h1 c"
    using load_dir_opens [OF m l' d finite_set] by blast
  have "panel_ok h1 l'" using a(2) by (simp add: holds_def)
  then have "panel_ok h2 l'" using b(3) by (rule panel_ok_agree)
  then show ?thesis using a b(1,2) by (auto simp: fm_start_def manager_ok_def holds_def)
qed

lemma leave_panels:
  assumes "manager_ok g"
  shows "\<exists>h1. free_panel (left_panel g) (memory g) = Inr h1 \<and> free_panel (right_panel g) h1 = Inr Map.empty"
proof -
  have l: "holds (memory g) (left_panel g) (set (pointers (right_panel g)))"
    using assms by (auto simp: manager_ok_def holds_def)
  obtain h1 where h1: "free_panel (left_panel g) (memory g) = Inr h1" "dom h1 = set (pointers (right_panel g))"
    "\<forall>a \<in> set (pointers (right_panel g)). h1 a = memory g a" using free_panel_holds [OF l] by blast
  have "panel_ok (memory g) (right_panel g)" using assms by (simp add: manager_ok_def)
  then have "panel_ok h1 (right_panel g)" using h1(3) by (rule panel_ok_agree)
  then have "holds h1 (right_panel g) {}" using assms h1(2) by (simp add: manager_ok_def holds_def)
  from free_panel_holds [OF this] h1(1) show ?thesis by auto
qed

section \<open>Properties\<close>

text \<open>
  Property C15. As long as every directory one enters can be opened and there is memory, whatever keys are pressed, whatever
  \<open>realpath\<close> and \<open>stat\<close> say and however the directories change between rounds, the file manager never reads
  or frees a name that is freed already, keeps the selection of both panels on an entry, never has more than 1024
  entries, and keeps \<open>..\<close> as the first one. While it runs the live allocations are exactly the names of the two
  panels, each in one place, so entering a directory frees the old names and leaks none; and when it
  ends everything is freed.
\<close>

theorem manager_safe:
  assumes "strdup_ok m" and "listing f ''.'' \<noteq> None" and "openable m es (fm_start m f l r)"
  shows "\<exists>b g. fm_main m f l r es = Inr (b, g) \<and>
    (if b then
       dom (memory g) = set (pointers (left_panel g)) \<union> set (pointers (right_panel g)) \<and>
       distinct (pointers (left_panel g) @ pointers (right_panel g)) \<and>
       (\<forall>p \<in> {left_panel g, right_panel g}. selected p < length (files p) \<and> length (files p) \<le> MAX_FILES \<and>
          snd (hd (files p)) \<and> memory g (fst (hd (files p))) = Some ''..'')
     else memory g = Map.empty)"
proof -
  from fm_rounds_ok [OF assms(1) fm_start_ok [OF assms(1,2)] assms(3)] obtain b g where
    g: "fm_rounds m es (fm_start m f l r) = Inr (b, g)" "manager_ok g" by auto
  show ?thesis
  proof (cases b)
    case True
    with g have "fm_main m f l r es = Inr (True, g)" by (simp add: fm_main_def)
    with g(2) show ?thesis by (intro exI [of _ True] exI [of _ g]) (simp add: manager_ok_def panel_ok_def)
  next
    case False
    with g leave_panels [OF g(2)] show ?thesis by (auto simp: fm_main_def)
  qed
qed

text \<open>An allocator that takes the first free address.\<close>

partial_function (option) next_free :: "names \<Rightarrow> nat \<Rightarrow> nat option" where
  "next_free h a = (if h a = None then Some a else next_free h (a + 1))"

declare next_free.simps [code]

definition first_free :: "names \<Rightarrow> nat option" where "first_free h = next_free h 1"

lemma first_free_ok: "strdup_ok first_free"
  unfolding strdup_ok_def
proof (intro allI impI)
  fix h :: names assume "finite (dom h)"
  then have "\<exists>b. b \<notin> insert 0 (dom h)" by (intro ex_new_if_finite) (simp_all add: infinite_UNIV_nat)
  then obtain b where b: "b \<noteq> 0" "h b = None" by auto
  have "a \<noteq> 0 \<Longrightarrow> a \<le> b \<Longrightarrow> \<exists>c. next_free h a = Some c \<and> c \<noteq> 0 \<and> h c = None" for a
  proof (induction "b - a" arbitrary: a)
    case 0
    then show ?case using b by (subst next_free.simps) auto
  next
    case (Suc d)
    show ?case
    proof (cases "h a = None")
      case True
      with Suc.prems show ?thesis by (subst next_free.simps) simp
    next
      case False
      with Suc.hyps(1) [of "a + 1"] Suc.hyps(2) Suc.prems show ?thesis by (subst next_free.simps) simp
    qed
  qed
  from this [of 1] b show "\<exists>a. first_free h = Some a \<and> a \<noteq> 0 \<and> h a = None" by (simp add: first_free_def)
qed

definition sample_fs :: fs where
  "sample_fs = \<lparr>
     listing = (\<lambda>d. if d \<in> {''.'', ''/home''} then Some [''.'', ''..'', ''ann'', ''notes''] else
                    if d = ''/home/ann'' then Some [] else None),
     is_directory = (\<lambda>d. d \<noteq> ''./notes'' \<and> d \<noteq> ''/home/notes''),
     realpath = (\<lambda>d. if d = ''.'' then Some ''/home'' else Some d),
     unresolved = (\<lambda>d old. old)\<rparr>"

definition empty_panel :: panel where
  "empty_panel = \<lparr>files = [], selected = 0, path = []\<rparr>"

definition walk_about :: "(nat \<times> fs \<times> key) list" where
  "walk_about = map (\<lambda>k. (24, sample_fs, k)) [Down, Enter, Enter, Down, Down, Down, Enter, Tab, Up]"

theorem manager_safe_witness:
  "\<exists>g. fm_main first_free sample_fs empty_panel empty_panel (walk_about @ [(24, sample_fs, Quit)]) = Inr (False, g) \<and>
     memory g = Map.empty"
proof -
  let ?es = "walk_about @ [(24, sample_fs, Quit)]"
  have "listing sample_fs ''.'' \<noteq> None" by (simp add: sample_fs_def)
  moreover have "openable first_free ?es (fm_start first_free sample_fs empty_panel empty_panel)" by code_simp
  moreover have "case fm_main first_free sample_fs empty_panel empty_panel ?es of Inl e \<Rightarrow> False | Inr (b, g) \<Rightarrow> \<not> b" by code_simp
  ultimately show ?thesis
    using manager_safe [OF first_free_ok, of sample_fs ?es empty_panel empty_panel] by (auto split: sum.splits)
qed

text \<open>
  A directory that cannot be opened, for want of permission or because it has just been
  removed, breaks the panel: \<open>free_panel\<close> has freed its names, \<open>load_dir\<close> returns without new ones,
  and the next round, whatever key it is for, draws the freed names.
\<close>

lemma unopenable_directory_reads_freed:
  assumes m: "strdup_ok m" and ok: "manager_ok g"
    and dir: "destination (memory g) (current g) = Some dir" "listing f dir = None" and n: "2 < n"
  shows "\<exists>g'. fm_round m n0 f Enter g = Inr (True, g') \<and> fm_round m n f' k g' = Inl Freed"
proof -
  note h = ok [unfolded manager_ok_iff]
  obtain l r where d: "draw_panel n0 (left_panel g) (memory g) = Inr l" "draw_panel n0 (right_panel g) (memory g) = Inr r"
    using draw_panels_ok [OF ok] by blast
  obtain h' p' where e: "enter_entry m f (current g) (memory g) = Inr (h', p')" "dom h' = set (pointers (other g))"
    "files p' = files (current g)" using enter_entry_holds(3) [OF m conjunct1 [OF h] dir] by blast
  let ?g = "(set_current p' g)\<lparr>memory := h'\<rparr>"
  obtain a fl where files: "files p' = a # fl" "fst a \<noteq> 0" "fst a \<notin> dom h'"
    using h e(2,3) by (cases "files (current g)") (auto simp: holds_def panel_ok_def pointers_def)
  have "h' (fst a) = None" using files(3) by auto
  then have dead: "draw_panel n p' h' = Inl Freed"
    using files n by (cases a; cases "n - 2") (auto simp: draw_panel_def read_name_def)
  have "set (map fst (take (n - 2) (files (other g)))) \<subseteq> set (pointers (other g))"
    by (auto simp: pointers_def dest: in_set_takeD)
  then obtain out where "draw_panel n (other g) h' = Inr out"
    unfolding draw_panel_def using draw_files_ok [of "take (n - 2) (files (other g))" h'] h e(2) by blast
  with dead have "fm_round m n f' k ?g = Inl Freed"
    by (cases "active g") (simp_all add: fm_round_def set_current_def other_def)
  moreover have "fm_round m n0 f Enter g = Inr (True, ?g)" using d e(1) by (simp add: fm_round_def Let_def)
  ultimately show ?thesis by blast
qed

lemma unopenable_directory_reads_freed_witness:
  "\<exists>g'. fm_round first_free 24 sample_fs Enter
        (fm_start first_free (sample_fs\<lparr>listing := (\<lambda>_. Some [''secret''])\<rparr>) empty_panel empty_panel) = Inr (True, g') \<and>
      fm_round first_free 24 sample_fs Quit g' = Inl Freed"
proof -
  let ?f = "sample_fs\<lparr>listing := (\<lambda>_. Some [''secret''])\<rparr>"
  let ?g = "fm_start first_free ?f empty_panel empty_panel"
  have "manager_ok ?g" using fm_start_ok [OF first_free_ok, of ?f] by simp
  moreover have "destination (memory ?g) (current ?g) = Some ''/''" "listing sample_fs ''/'' = None" by code_simp+
  ultimately show ?thesis
    using unopenable_directory_reads_freed [OF first_free_ok, of ?g "''/''" sample_fs 24 24 sample_fs Quit] by simp
qed

text \<open>Down into a directory and up again leads back.\<close>

lemma parent_child:
  assumes "CHR ''/'' \<notin> set n" "p \<noteq> []" "length p + length n + 1 < PATH_MAX"
  shows "parent (child p n) = p" "child p n = p @ ''/'' @ n"
proof -
  show c: "child p n = p @ ''/'' @ n" using assms(3) by (simp add: child_def)
  have "dropWhile (\<lambda>c. c \<noteq> CHR ''/'') (rev n @ CHR ''/'' # rev p) = CHR ''/'' # rev p"
    using assms by (simp add: dropWhile_append)
  with assms(2) show "parent (child p n) = p" unfolding c by (simp add: parent_def Let_def)
qed

lemma down_and_up:
  assumes m: "strdup_ok m" and p: "holds h p R"
    and sel: "h (fst (files p ! selected p)) = Some n" "snd (files p ! selected p)" "n \<noteq> ''..''" "CHR ''/'' \<notin> set n"
    and path: "path p \<noteq> []" "length (path p) + length n + 1 < PATH_MAX" "realpath f (path p) = Some (path p)"
      "realpath f (path p @ ''/'' @ n) = Some (path p @ ''/'' @ n)"
    and opens: "listing f (path p) \<noteq> None" "listing f (path p @ ''/'' @ n) \<noteq> None"
  shows "\<exists>h1 p1 h2 p2. enter_entry m f p h = Inr (h1, p1) \<and> path p1 = path p @ ''/'' @ n \<and>
           enter_entry m f p1 h1 = Inr (h2, p2) \<and> path p2 = path p"
proof -
  note c = parent_child [OF sel(4) path(1,2)]
  have d: "destination h p = Some (path p @ ''/'' @ n)" using sel c(2) by (simp add: destination_def)
  obtain h1 p1 where p1: "enter_entry m f p h = Inr (h1, p1)" "holds h1 p1 R" "selected p1 = 0"
    "realpath f (path p @ ''/'' @ n) \<noteq> None \<longrightarrow> path p1 = the (realpath f (path p @ ''/'' @ n))"
    using enter_entry_holds(2) [OF m p d opens(2)] by blast
  have w: "path p1 = path p @ ''/'' @ n" using p1(4) path(4) by simp
  have "files p1 ! selected p1 = hd (files p1)" using p1(2,3) by (cases "files p1") (auto simp: holds_def panel_ok_def)
  then have "destination h1 p1 = Some (path p)"
    using p1(2) w c by (simp add: destination_def holds_def panel_ok_def)
  from enter_entry_holds(2) [OF m p1(2) this opens(1)] obtain h2 p2 where
    "enter_entry m f p1 h1 = Inr (h2, p2)" "realpath f (path p) \<noteq> None \<longrightarrow> path p2 = the (realpath f (path p))" by blast
  with p1(1) w path(3) show ?thesis by auto
qed

end
