(* ===== verification/Proc_Sys.thy ===== *)
theory Proc_Sys
  imports C_Prelude
begin

text \<open>
  The kernel module \<open>modules/proc_sys_var.c\<close>: one \<open>int\<close>, to be read and written through a file in procfs
  and a file in sysfs. What it uses of the kernel is not in the repository and is an argument, the record
  \<open>kernel\<close>: \<open>kstrtoint\<close> with base 10 (\<open>None\<close> for a text that is no number or out of range), \<open>strim\<close>, and
  \<open>simple_read_from_buffer\<close>, from the size asked for, the position and the text to the bytes
  copied and the new position. Between \<open>mutex_lock\<close> and \<open>mutex_unlock\<close> there is a single access, so
  a handler takes its effect at once.
\<close>

section \<open>The module\<close>

record kernel =
  kstrtoint :: "string \<Rightarrow> int option"
  strim :: "string \<Rightarrow> string"
  simple_read :: "nat \<Rightarrow> nat \<Rightarrow> string \<Rightarrow> string \<times> nat"

definition EINVAL :: int where "EINVAL = 22"
definition EFAULT :: int where "EFAULT = 14"
definition ENOMEM :: int where "ENOMEM = 12"
definition PAGE_SIZE :: nat where "PAGE_SIZE = 4096"

text \<open>The size of the buffers \<open>tmp\<close>.\<close>

definition TMP_SIZE :: nat where "TMP_SIZE = 32"

record module_state =
  myvar :: int

text \<open>The bytes read, and the new position in the file.\<close>

definition myvar_proc_read :: "kernel \<Rightarrow> nat \<Rightarrow> nat \<Rightarrow> module_state \<Rightarrow> string \<times> nat" where
  "myvar_proc_read K n ppos s = simple_read K n ppos (snprintf_buf TMP_SIZE (show_int (myvar s) @ [NL]))"

text \<open>\<open>buf\<close>: the \<open>n\<close> bytes in user space, \<open>None\<close> when \<open>copy_from_user\<close> faults.\<close>

definition myvar_proc_write :: "kernel \<Rightarrow> string option \<Rightarrow> nat \<Rightarrow> module_state \<Rightarrow> int \<times> module_state" where
  "myvar_proc_write K buf n s =
     (if n \<ge> TMP_SIZE then (- EINVAL, s)
      else case buf of
             None \<Rightarrow> (- EFAULT, s)
           | Some b \<Rightarrow>
               (case kstrtoint K (strim K (cstr (take n b))) of
                  None \<Rightarrow> (- EINVAL, s)
                | Some v \<Rightarrow> (int n, s\<lparr>myvar := v\<rparr>)))"

definition myvar_sysfs_show :: "module_state \<Rightarrow> string" where
  "myvar_sysfs_show s = snprintf_buf PAGE_SIZE (show_int (myvar s) @ [NL])"

definition myvar_sysfs_store :: "kernel \<Rightarrow> string \<Rightarrow> nat \<Rightarrow> module_state \<Rightarrow> int \<times> module_state" where
  "myvar_sysfs_store K buf n s =
     (case kstrtoint K (strim K (cstr buf)) of
        None \<Rightarrow> (- EINVAL, s)
      | Some v \<Rightarrow> (int n, s\<lparr>myvar := v\<rparr>))"

text \<open>What the module holds of the kernel: the entry in procfs, the kobject, its file in sysfs.\<close>

datatype resource = Proc_entry | Kobject | Sysfs_file

text \<open>The arguments tell which of the three requests succeed.\<close>

definition proc_sys_init :: "bool \<Rightarrow> bool \<Rightarrow> bool \<Rightarrow> int \<times> resource set" where
  "proc_sys_init proc kobj file =
     (if \<not> proc then (- ENOMEM, {})
      else if \<not> kobj then (- ENOMEM, {Proc_entry} - {Proc_entry})
      else if \<not> file then (- ENOMEM, {Proc_entry, Kobject} - {Kobject} - {Proc_entry})
      else (0, {Proc_entry, Kobject, Sysfs_file}))"

definition proc_sys_exit :: "resource set \<Rightarrow> resource set" where
  "proc_sys_exit held =
     (let h1 = (if Kobject \<in> held then held - {Sysfs_file} - {Kobject} else held)
      in if Proc_entry \<in> held then h1 - {Proc_entry} else h1)"

lemma init_exit_balance:
  "proc_sys_init p k f = (ret, held) \<Longrightarrow> (ret = 0 \<longleftrightarrow> p \<and> k \<and> f) \<and> (ret \<noteq> 0 \<longrightarrow> held = {}) \<and> proc_sys_exit held = {}"
  by (auto simp: proc_sys_init_def proc_sys_exit_def ENOMEM_def Let_def split: if_splits)

section \<open>What is written is read\<close>

lemma show_int_short:
  assumes "INT_MIN \<le> i" "i \<le> INT_MAX"
  shows "length (show_int i) \<le> 11"
proof -
  have "nat i < 10 ^ 10" "nat (- i) < 10 ^ 10" using assms by (simp_all add: INT_MIN_def INT_MAX_def)
  from this [THEN show_nat_length] show ?thesis by (simp add: show_int_def)
qed

text \<open>
  Property C40. A number written as a decimal line through either file is what both files give back from
  then on, as the same line; a write that fails, because it is too long for the procfs buffer, cannot be
  copied or is no number, returns an error code and leaves the variable as it was. This rests on
  what the kernel documents: \<open>kstrtoint\<close> reads a trimmed decimal line, and
  \<open>simple_read_from_buffer\<close> from position 0 with room enough copies the whole text.
\<close>

theorem module_roundtrip:
  assumes parse: "\<forall>i. INT_MIN \<le> i \<longrightarrow> i \<le> INT_MAX \<longrightarrow> kstrtoint K (strim K (show_int i @ [NL])) = Some i"
    and read: "\<forall>n t. length t \<le> n \<longrightarrow> simple_read K n 0 t = (t, length t)"
    and v: "INT_MIN \<le> v" "v \<le> INT_MAX"
  defines "line \<equiv> show_int v @ [NL]"
  shows "(\<forall>s'. s' = snd (myvar_proc_write K (Some line) (length line) s) \<or> s' = snd (myvar_sysfs_store K line (length line) s) \<longrightarrow>
            myvar s' = v \<and> myvar_sysfs_show s' = line \<and> fst (myvar_proc_read K 4096 0 s') = line) \<and>
         (fst (myvar_proc_write K buf n s) < 0 \<longrightarrow> snd (myvar_proc_write K buf n s) = s) \<and>
         (fst (myvar_sysfs_store K b n s) < 0 \<longrightarrow> snd (myvar_sysfs_store K b n s) = s)"
proof -
  have len: "length line \<le> 12" using show_int_short [OF v] by (simp add: line_def)
  have "NUL \<notin> set line" by (simp add: line_def NUL_def [symmetric]) (simp add: NL_def NUL_def)
  then have c: "cstr line = line" by (rule cstr_id)
  have k: "kstrtoint K (strim K line) = Some v" using parse v by (simp add: line_def)
  have shown: "myvar_sysfs_show s' = line \<and> fst (myvar_proc_read K 4096 0 s') = line" if "myvar s' = v" for s'
    using that len read by (simp add: myvar_sysfs_show_def myvar_proc_read_def snprintf_buf_def PAGE_SIZE_def TMP_SIZE_def line_def)
  have "myvar (snd (myvar_proc_write K (Some line) (length line) s)) = v"
    "myvar (snd (myvar_sysfs_store K line (length line) s)) = v"
    using len c k by (simp_all add: myvar_proc_write_def myvar_sysfs_store_def TMP_SIZE_def)
  with shown show ?thesis
    by (auto simp: myvar_proc_write_def myvar_sysfs_store_def split: option.splits if_splits)
qed

text \<open>A kernel of which this holds.\<close>

definition trim :: "string \<Rightarrow> string" where
  "trim t = rev (dropWhile isspace (rev (dropWhile isspace t)))"

definition linux :: kernel where
  "linux = \<lparr>
     kstrtoint = (\<lambda>t. case strtol t of
        Some (v, []) \<Rightarrow> if INT_MIN \<le> v \<and> v \<le> INT_MAX then Some v else None | _ \<Rightarrow> None),
     strim = trim,
     simple_read = (\<lambda>n pos t. let c = min n (length t - pos) in (take c (drop pos t), pos + c))\<rparr>"

lemma trim_line:
  assumes "\<forall>c \<in> set w. \<not> isspace c" "w \<noteq> []"
  shows "trim (w @ [NL]) = w"
proof -
  have d: "dropWhile isspace w = w" "dropWhile isspace (rev w) = rev w"
    using assms by (cases w, simp_all) (cases "rev w"; force)
  have "dropWhile isspace (w @ [NL]) = w @ [NL]" using assms by (cases w) auto
  with d show ?thesis by (simp add: trim_def)
qed

lemma linux_parses: "INT_MIN \<le> i \<Longrightarrow> i \<le> INT_MAX \<Longrightarrow> kstrtoint linux (strim linux (show_int i @ [NL])) = Some i"
  using trim_line [OF show_int_no_space show_int_nonempty, of i] strtol_show_int [of i "[]"]
  by (simp add: linux_def INT_MIN_def INT_MAX_def LONG_MIN_def LONG_MAX_def)

theorem module_roundtrip_witness:
  "myvar_sysfs_show (snd (myvar_proc_write linux (Some (''-42'' @ [NL])) 4 \<lparr>myvar = 7\<rparr>)) = ''-42'' @ [NL] \<and>
   fst (myvar_proc_read linux 4096 0 (snd (myvar_sysfs_store linux (''-42'' @ [NL]) 4 \<lparr>myvar = 7\<rparr>))) = ''-42'' @ [NL]"
proof -
  have l: "show_int (- 42) = ''-42''" by code_simp
  have n: "length (''-42'' @ [NL]) = 4" by simp
  have parse: "\<forall>i. INT_MIN \<le> i \<longrightarrow> i \<le> INT_MAX \<longrightarrow> kstrtoint linux (strim linux (show_int i @ [NL])) = Some i"
    using linux_parses by blast
  have read: "\<forall>n t. length t \<le> n \<longrightarrow> simple_read linux n 0 t = (t, length t)"
    by (simp add: linux_def Let_def)
  have v: "INT_MIN \<le> - 42" "- 42 \<le> INT_MAX" by (simp_all add: INT_MIN_def INT_MAX_def)
  from module_roundtrip [OF parse read v, of "\<lparr>myvar = 7\<rparr>", THEN conjunct1]
  show ?thesis unfolding l n by blast
qed

end
