(* ===== verification/Spec2Isabelle.thy ===== *)
theory Spec2Isabelle
  imports Echo_Main Table_Heap Taxi_Cli Book_Array Book_List Chat_Queue Chat_Shared Ping_Pong Resources Shells Process_Tasks Signals
    Calculator Check_String Pointers File_Exercise Bits Massives File_Manager Proc_Sys
begin

text \<open>
  A verification development for the programs of this repository: a UDP echo service over raw sockets, a
  taxi dispatcher, two chats, two phone books, two command interpreters, a file manager, and exercises on
  bits, arrays, pointers, processes, signals and inter-process communication, all in C. The programs do not call each other; inside of each the components do, and
  the theories follow that.

  \<^bold>\<open>The parts\<close>

  \<^item> \<open>C_Prelude\<close>: what the programs use of C and its library. Words of 8, 16 and 32 bits and the bytes of
    their memory on a little-endian host, C strings, \<open>strtol\<close>, \<open>strtoul\<close>, \<open>atoi\<close>, \<open>fgets\<close>,
    \<open>scanf\<close>, the decimal conversions of \<open>printf\<close>, with their round trips.
  \<^item> \<open>Transition\<close>: runs and reachable states of a step function. The locale \<open>kept_invariant\<close> turns an
    invariant of single steps into one of runs; the concurrent components interpret it.
  \<^item> \<open>Checksum\<close> (\<open>echo_raw/src/checksum.c\<close>): the Internet checksum on 32-bit words with its carry folding, and
    the UDP checksum over the pseudo header; equal to the ones complement sum of RFC 1071.
  \<^item> \<open>Packet\<close> (\<open>packet.c\<close>): \<open>rawudp_build_ipv4_udp\<close> and \<open>rawudp_parse_ipv4_udp\<close> on byte lists; a read outside
    of the packet is the result \<open>None\<close>. Round trip, exactness of the parser, the checksums on the wire.
  \<^item> \<open>Client_Table\<close> (\<open>client_table.c\<close>): the hash table with chaining; the array of buckets is a list
    of lists of nodes. The locale \<open>counter_store\<close> states what the server needs of it, and its
    interpretation \<open>ct\<close> is on the operations of the code. \<open>Table_Heap\<close> has the same file with its pointers:
    creation, the two operations and \<open>rawudp_ct_destroy\<close> on a heap in which every bad read and every bad \<open>free\<close> is
    a fault; they refine the operations on lists, and destruction gives back exactly what was allocated.
  \<^item> \<open>Echo\<close> (\<open>echo_server.c\<close>, \<open>echo_client.c\<close>): a round of the server from datagram to reply, runs of
    rounds, the client's argument checks and its two loops. It rests on the three theories above.
    \<open>Echo_Main\<close> has the two \<open>main\<close> functions and whole sessions of client, network and server.
  \<^item> \<open>Taxi_Driver\<close> and \<open>Taxi_Cli\<close> (\<open>taxi_control/main.c\<close>): the loop of the forked driver, and the command
    line process with its growing array of drivers, its commands, \<open>poll\<close> and the shutdown with its waits.
  \<^item> \<open>Address_Book\<close>, \<open>Book_Array\<close> (\<open>functions/functions.c\<close>) and \<open>Book_List\<close> (\<open>dynmem/dynmem.c\<close>): the locale
    \<open>safe_book\<close> (the operations keep the representation on every input) and its extension
    \<open>phone_book\<close> (they are the operations of a list of entries) carry the proofs about the menu loop;
    both programs interpret them, one with an array that is shifted, one with a doubly linked list
    in an explicit heap.
  \<^item> \<open>Chat_Queue\<close> (\<open>message_queues/chat_server.c\<close>, \<open>chat_client.c\<close>): the handlers of the server as functions to
    a new state and the sends they make, the server beside its bounded queues, and the two
    threads of the client with their mutex.
  \<^item> \<open>Chat_Shared\<close> (\<open>shared_memory/chat.h\<close>, \<open>chat_server.c\<close>, \<open>chat_client.c\<close>): all threads of all clients,
    interleaved statement by statement on the shared segment under the semaphore, with the flags their loops
    look at.
  \<^item> \<open>Ping_Pong\<close> (the other programs of \<open>message_queues\<close> and \<open>shared_memory\<close>): two processes exchange a
    greeting over a queue, or through a flag and a text in shared memory that is read and written byte by
    byte.
  \<^item> \<open>Resources\<close>: the \<open>main\<close> functions of both directories as trees of calls that may fail, with what each
    exit path closes and what survives the process. A call that fails releases nothing; a weakest precondition
    and a judgement on programs (\<open>tidy\<close>) carry the proofs.
  \<^item> \<open>Processes\<close>: the system below the next two theories. A C program is a tree of system calls; the state
    has the processes with their descriptors and buffers, pipes, fifos and the screen; a step lets one
    process go on, fork, end or be waited for, in any order. The locale \<open>process_discipline\<close> is a
    judgement on programs that every step keeps; waiting for all children (\<open>reaping\<close>) and giving back
    pipe ends (\<open>closing\<close>) are its interpretations.
  \<^item> \<open>Shells\<close> (\<open>channels/interpreter.c\<close>, \<open>processes/task3.c\<close>): \<open>strtok\<close> on the line buffer, the argument array and
    the two loops, equal to references that split lines into words.
  \<^item> \<open>Process_Tasks\<close> (\<open>processes/task1.c\<close>, \<open>task2.c\<close>, \<open>channels/pipe.c\<close>, \<open>fifo-server.c\<close>, \<open>fifo-client.c\<close>): trees of
    processes and messages through a pipe and a fifo, in every order of their steps.
  \<^item> \<open>Signals\<close> (\<open>signals\<close>): the three receivers beside their pending signals, and the sender.
  \<^item> \<open>Calculator\<close> (\<open>static_libraries\<close>, \<open>dynamic_libraries\<close>): the menu over the locale \<open>calculator_library\<close>, which
    both libraries interpret.
  \<^item> \<open>Check_String\<close> (\<open>pointers_task4.c\<close>), \<open>Pointers\<close> (\<open>pointers_task2.c\<close>, \<open>pointers_task3.c\<close>) and
    \<open>File_Exercise\<close> (\<open>virtual_fs/work_with_file.c\<close>): a substring search, reads through pointers, a file
    written and read backwards.
  \<^item> \<open>Bits\<close> (\<open>bits_operations/bits.c\<close>, \<open>pointers/pointers_task1.c\<close>) and \<open>Massives\<close> (\<open>massives/massives.c\<close>): the
    exercises as functions on words and on matrices; in the latter an \<open>int\<close> that leaves its range and an array
    that the stack does not hold end a run without a result.
  \<^item> \<open>File_Manager\<close> (\<open>virtual_fs/nedomc.c\<close>): the two panels with pointers to names in an explicit heap, where a
    read or a \<open>free\<close> of a freed name is a fault, the keys and the rounds of the loop over a file system that may
    change in between.
  \<^item> \<open>Proc_Sys\<close> (\<open>modules/proc_sys_var.c\<close>): the handlers of the kernel module over the kernel's functions.

  \<^bold>\<open>How state and operations correspond to the code\<close>

  A C structure is a record, an array with a count of used entries the list of these entries (the
  whole array where the code works on its unused part), memory with pointers a partial map from
  addresses. A handler is a function from the state to the new state with what it prints,
  sends or closes, in order. What the code gets from outside is an argument: the answers of system
  calls and \<open>malloc\<close>, received messages, the contents of uninitialised variables. What C leaves
  undefined is a result of its own: \<open>None\<close>, a fault, or the action \<open>PastEnd\<close>. Concurrent programs
  are step functions with a reachability predicate or a list of actions that may come in any order.

  \<^bold>\<open>What the lemmas show\<close>

  The sequential components refine an abstract state: the client table a map of counters, the phone books a
  list of entries, each for all operations and error branches, and runs of the whole loops follow. Where memory
  is allocated (the linked phone book, the client table, the file manager) the live allocations are at any time
  exactly those the program can reach, and none is left at the end.
  The concurrent ones have an invariant that every step keeps: the array of drivers, the
  shared transcript, the mutex of the client, the flag. Loops end: those of the checksum and of
  the arrays by their measures, the spiral because it fills ring after ring, a critical section
  within 103 steps. Where the code does not do what it means to, the theorem states what it does:
  byte-swapped checksums, a read behind the array of \<open>pollfd\<close>, drivers out of reach, a chat that
  stops when a client has quit, a loop that ignores the end of the input, a pipeline whose third
  command is dropped, a search that reads behind its array, and others. Programs over system calls are
  judged in every interleaving and for every failing fork: no zombie and no pipe end is left.

  \<^bold>\<open>Bounds and fuel\<close>

  Nothing is bounded in the statements except by the code's own constants, and the spiral by \<open>N \<le> 46340\<close>, the
  last number whose square is an \<open>int\<close>, and by the size of the stack. The lists that drive the menu
  loops, the server and the dispatcher give each round its inputs; theorems are for lists of
  every length. Loops that may not end are partial functions with \<open>None\<close> for no result, and that
  they do end is proved (\<open>ulitka_correct\<close>, \<open>list_main_memory_safe\<close>) or refuted
  (\<open>reverse_bits_correct\<close>). The calculators run with fuel, one unit for each request and one to leave.
  \<open>long\<close> has 64 bits, \<open>int\<close> 32.

  \<^bold>\<open>What is not modelled\<close>

  Drawing with ncurses is kept as calls without an effect or as the rows and texts drawn. Messages printed for
  a user in a phone book, a calculator or a queue exercise are constructors, not texts. The
  chat over queues takes the fields of a message for C strings, as its client makes them; a
  statement such as \<open>message_count++\<close>, or the copy of a text under the semaphore, is one step. Memory is as strong as
  the order of the accesses: what a compiler or a processor may reorder without \<open>volatile\<close> is left out. In \<open>Processes\<close> a read takes what is there, a write
  goes in whole (the messages are shorter than a pipe), and signals between processes are left
  out. The floats of \<open>pointers_task2.c\<close> are integers. \<open>module3/kernelfs/init.c\<close>, which prints one line and
  sleeps for ever, is not modelled, nor are the build files and the shell histories.
\<close>

section \<open>Properties of several components\<close>

text \<open>
  The two phone books, the array of \<open>functions.c\<close> and the linked list of \<open>dynmem.c\<close>, are the same program to
  their user: on every typed script that fits both they end and print the same rows in the same
  order.
\<close>

lemma phone_books_agree:
  assumes "script_fits (\<lambda>_ xs. length xs < MAX_ABONENTS) junks cs []"
    and "script_fits has_memory es cs []" and "\<forall>e \<in> set es. honest e"
  shows "\<exists>out out' s s'.
           array_main junks (type_script cs @ [NL]) = Inr (True, out, [NL], s) \<and>
           list_main es choice (type_script cs @ [NL]) = Inr (True, out', [NL], s') \<and>
           rows out = rows out'"
  using array.loop_runs_script [OF array_holds_init _ assms(1), of 0 "[]"]
    dlist.loop_runs_script [OF list_holds_init assms(3,2), of choice "[]"]
  by (auto simp: array_main_def list_main_def)

lemma phone_books_agree_witness:
  "\<exists>out out' s s'.
     array_main (replicate 5 []) (type_script book_script @ [NL]) = Inr (True, out, [NL], s) \<and>
     list_main (replicate 5 typing_env) 3 (type_script book_script @ [NL]) = Inr (True, out', [NL], s') \<and>
     rows out = rows out'"
proof (rule phone_books_agree)
  show "script_fits (\<lambda>_ xs. length xs < MAX_ABONENTS) (replicate 5 []) book_script []"
    by (simp add: book_script_def remove_nth_def INT_MAX_def MAX_ABONENTS_def numeral_eq_Suc)
  show "script_fits has_memory (replicate 5 typing_env) book_script []"
    by (simp add: book_script_def remove_nth_def INT_MAX_def typing_env_memory numeral_eq_Suc)
  show "\<forall>e \<in> set (replicate 5 typing_env). honest e"
    using typing_env_honest by simp
qed

end
